(* ===== verification/Prelude.thy ===== *)
theory Prelude
  imports Main "HOL-Library.Word"
begin

unbundle bit_operations_syntax

section \<open>Prelude: machine words, faults and the byte memory\<close>

text \<open>
  What every component shares.  C's \<open>unsigned long\<close>, \<open>size_t\<close>, \<open>uintptr_t\<close> and every
  pointer of the (x86-64 only) program are 64-bit words.  The address space is a partial
  byte map: an address outside its domain is not mapped, and touching it is the SIGSEGV
  the hardware raises.  A run of code that stops the process is a value of the sum type
  \<open>'a res\<close> whose left side says how it stopped.
\<close>

type_synonym u64 = "64 word"
type_synonym u32 = "32 word"
type_synonym u8 = "8 word"

datatype fault = Segv | Exit | Trap | Crash | Diverge

type_synonym 'a res = "fault + 'a"

definition bindR :: "'a res \<Rightarrow> ('a \<Rightarrow> 'b res) \<Rightarrow> 'b res" where
  "bindR x f = (case x of Inl e \<Rightarrow> Inl e | Inr a \<Rightarrow> f a)"

definition of_opt :: "fault \<Rightarrow> 'a option \<Rightarrow> 'a res" where
  "of_opt e x = (case x of None \<Rightarrow> Inl e | Some a \<Rightarrow> Inr a)"

named_theorems res_simps \<open>evaluation of the result monad\<close>

lemma bindR_Inl [simp, res_simps]: "bindR (Inl e) f = Inl e"
  by (simp add: bindR_def)

lemma bindR_Inr [simp, res_simps]: "bindR (Inr a) f = f a"
  by (simp add: bindR_def)

lemma bindR_eq_Inr [res_simps]: "bindR x f = Inr b \<longleftrightarrow> (\<exists>a. x = Inr a \<and> f a = Inr b)"
  by (cases x) auto

lemma of_opt_None [simp, res_simps]: "of_opt e None = Inl e"
  by (simp add: of_opt_def)

lemma of_opt_Some [simp, res_simps]: "of_opt e (Some a) = Inr a"
  by (simp add: of_opt_def)

lemma of_opt_eq_Inr [simp, res_simps]: "of_opt e x = Inr a \<longleftrightarrow> x = Some a"
  by (cases x) auto

subsection \<open>Words of 64 bits as little-endian bytes\<close>

definition u64_bytes :: "u64 \<Rightarrow> u8 list" where
  "u64_bytes w = map (\<lambda>i. ucast (drop_bit (8 * i) w)) [0..<8]"

definition bytes_u64 :: "u8 list \<Rightarrow> u64" where
  "bytes_u64 bs = foldr (\<lambda>b acc. push_bit 8 acc OR ucast b) bs 0"

lemma length_u64_bytes [simp]: "length (u64_bytes w) = 8"
  by (simp add: u64_bytes_def)

lemma bytes_u64_step:
  "(push_bit 8 (drop_bit (Suc i * 8) w) :: u64) OR ucast (ucast (drop_bit (i * 8) w) :: u8)
     = drop_bit (i * 8) w"
  by (rule bit_word_eqI)
    (auto simp: bit_or_iff bit_push_bit_iff bit_drop_bit_eq bit_ucast_iff algebra_simps)

lemma bytes_u64_bytes [simp]: "bytes_u64 (u64_bytes w) = w"
proof -
  have "drop_bit (8 * 8) w = 0"
    by (rule bit_word_eqI) (auto simp: bit_drop_bit_eq dest: bit_imp_le_length)
  then show ?thesis
    using bytes_u64_step[of 7 w] bytes_u64_step[of 6 w] bytes_u64_step[of 5 w]
      bytes_u64_step[of 4 w] bytes_u64_step[of 3 w] bytes_u64_step[of 2 w]
      bytes_u64_step[of 1 w] bytes_u64_step[of 0 w]
    by (simp add: bytes_u64_def u64_bytes_def upt_rec numeral_eq_Suc)
qed

subsection \<open>The byte memory\<close>

type_synonym mem = "u64 \<Rightarrow> u8 option"

text \<open>The \<open>n\<close> addresses from \<open>a\<close> on; pointer arithmetic wraps modulo \<open>2 ^ 64\<close>.\<close>

definition addrs :: "u64 \<Rightarrow> nat \<Rightarrow> u64 set" where
  "addrs a n = {x. unat (x - a) < n}"

fun load_bytes :: "mem \<Rightarrow> u64 \<Rightarrow> nat \<Rightarrow> u8 list option" where
  "load_bytes m a 0 = Some []"
| "load_bytes m a (Suc n) =
     (case m a of None \<Rightarrow> None
      | Some b \<Rightarrow> map_option ((#) b) (load_bytes m (a + 1) n))"

fun store_bytes :: "mem \<Rightarrow> u64 \<Rightarrow> u8 list \<Rightarrow> mem option" where
  "store_bytes m a [] = Some m"
| "store_bytes m a (b # bs) =
     (if m a = None then None else store_bytes (m(a \<mapsto> b)) (a + 1) bs)"

definition load64 :: "mem \<Rightarrow> u64 \<Rightarrow> u64 option" where
  "load64 m a = map_option bytes_u64 (load_bytes m a 8)"

definition store64 :: "mem \<Rightarrow> u64 \<Rightarrow> u64 \<Rightarrow> mem option" where
  "store64 m a w = store_bytes m a (u64_bytes w)"

text \<open>\<open>mapped m a n\<close>: the whole range is mapped.\<close>

definition mapped :: "mem \<Rightarrow> u64 \<Rightarrow> nat \<Rightarrow> bool" where
  "mapped m a n \<longleftrightarrow> (\<forall>i<n. m (a + of_nat i) \<noteq> None)"

lemma unat_diff_Suc:
  fixes x a :: u64
  assumes "x \<noteq> a"
  shows "unat (x - (a + 1)) = unat (x - a) - 1"
proof -
  have "x - a \<noteq> 0" using assms by simp
  then have "unat (x - a - 1) = unat (x - a) - 1" by (rule unat_minus_one)
  then show ?thesis by (simp add: algebra_simps)
qed

lemma unat_minus_one_word64: "unat (- 1 :: u64) = 2 ^ 64 - 1"
  by (simp add: unsigned_minus_1_eq_mask mask_eq_exp_minus_1)

lemma unat_of_nat64: "i < 2 ^ 64 \<Longrightarrow> unat (of_nat i :: u64) = i"
  by (simp add: unat_of_nat)

lemma addrs_0 [simp]: "addrs a 0 = {}"
  by (simp add: addrs_def)

lemma addrs_Suc: "addrs a (Suc n) = insert a (addrs (a + 1) n)"
proof (rule set_eqI)
  fix x
  show "x \<in> addrs a (Suc n) \<longleftrightarrow> x \<in> insert a (addrs (a + 1) n)"
  proof (cases "x = a")
    case True
    then show ?thesis by (simp add: addrs_def)
  next
    case False
    then have "unat (x - a) \<noteq> 0" by (simp add: unat_eq_0)
    then show ?thesis using False unat_diff_Suc[OF False] by (auto simp: addrs_def)
  qed
qed

lemma addrsE:
  assumes "x \<in> addrs a n"
  obtains i where "i < n" and "x = a + of_nat i"
proof -
  have "x = a + of_nat (unat (x - a))" by simp
  then show ?thesis using assms that by (auto simp: addrs_def)
qed

lemma addrsI: "i < n \<Longrightarrow> n \<le> 2 ^ 64 \<Longrightarrow> a + of_nat i \<in> addrs a n"
  by (simp add: addrs_def unat_of_nat)

lemma mapped_0 [simp]: "mapped m a 0"
  by (simp add: mapped_def)

lemma mapped_Suc: "mapped m a (Suc n) \<longleftrightarrow> m a \<noteq> None \<and> mapped m (a + 1) n"
  unfolding mapped_def by (auto simp: less_Suc_eq_0_disj algebra_simps)

lemma mapped_iff_addrs:
  assumes n: "n \<le> 2 ^ 64"
  shows "mapped m a n \<longleftrightarrow> addrs a n \<subseteq> dom m"
proof
  assume "mapped m a n"
  then show "addrs a n \<subseteq> dom m" by (auto simp: mapped_def elim!: addrsE)
next
  assume sub: "addrs a n \<subseteq> dom m"
  have "m (a + of_nat i) \<noteq> None" if "i < n" for i
    using addrsI[OF that n, of a] sub by (auto simp: domIff)
  then show "mapped m a n" by (simp add: mapped_def)
qed

lemma mapped_mono: "mapped m a n \<Longrightarrow> k \<le> n \<Longrightarrow> mapped m a k"
  by (auto simp: mapped_def)

lemma mapped_upd [simp]: "mapped m a n \<Longrightarrow> mapped (m(x \<mapsto> b)) a n"
  by (auto simp: mapped_def)

lemma mapped_cong_dom: "dom m = dom m' \<Longrightarrow> mapped m a n = mapped m' a n"
  unfolding mapped_def by (metis domIff)

lemma mapped_upd_iff: "m x \<noteq> None \<Longrightarrow> mapped (m(x \<mapsto> b)) a n = mapped m a n"
  by (rule mapped_cong_dom) auto

lemma load_bytes_mapped: "load_bytes m a n \<noteq> None \<longleftrightarrow> mapped m a n"
  by (induction n arbitrary: a) (auto simp: mapped_Suc split: option.splits)

lemma load_bytes_eq:
  "mapped m a n \<Longrightarrow> load_bytes m a n = Some (map (\<lambda>i. the (m (a + of_nat i))) [0..<n])"
proof (induction n arbitrary: a)
  case (Suc n)
  then obtain b where b: "m a = Some b" and n: "mapped m (a + 1) n"
    by (auto simp: mapped_Suc)
  have "load_bytes m a (Suc n) = Some (b # map (\<lambda>i. the (m (a + 1 + of_nat i))) [0..<n])"
    using b Suc.IH[OF n] by simp
  also have "b # map (\<lambda>i. the (m (a + 1 + of_nat i))) [0..<n]
      = map (\<lambda>i. the (m (a + of_nat i))) [0..<Suc n]"
    using b by (simp add: map_upt_Suc algebra_simps del: upt_Suc)
  finally show ?case .
qed simp

lemma load_bytes_numeral:
  "load_bytes m a (numeral k) =
     (case m a of None \<Rightarrow> None | Some b \<Rightarrow> map_option ((#) b) (load_bytes m (a + 1) (pred_numeral k)))"
  by (simp add: numeral_eq_Suc)

lemma length_load_bytes: "load_bytes m a n = Some bs \<Longrightarrow> length bs = n"
  by (induction n arbitrary: a bs) (auto split: option.splits)

lemma load_bytes_cong:
  "(\<And>x. x \<in> addrs a n \<Longrightarrow> m x = m' x) \<Longrightarrow> n \<le> 2 ^ 64 \<Longrightarrow> load_bytes m a n = load_bytes m' a n"
proof (induction n arbitrary: a)
  case (Suc n)
  have "m a = m' a" using Suc.prems by (simp add: addrs_Suc)
  moreover have "load_bytes m (a + 1) n = load_bytes m' (a + 1) n"
    using Suc.prems by (intro Suc.IH) (auto simp: addrs_Suc)
  ultimately show ?case by (simp split: option.split)
qed simp

lemma store_bytes_mapped: "store_bytes m a bs \<noteq> None \<longleftrightarrow> mapped m a (length bs)"
proof (induction bs arbitrary: m a)
  case (Cons b bs)
  show ?case
  proof (cases "m a")
    case None
    then show ?thesis by (simp add: mapped_Suc)
  next
    case (Some c)
    then have "store_bytes m a (b # bs) = store_bytes (m(a \<mapsto> b)) (a + 1) bs" by simp
    moreover have "mapped (m(a \<mapsto> b)) (a + 1) (length bs) = mapped m (a + 1) (length bs)"
      by (rule mapped_upd_iff) (simp add: Some)
    ultimately show ?thesis using Cons.IH Some by (metis length_Cons mapped_Suc option.distinct(1))
  qed
qed simp

lemma store_bytes_SomeD: "store_bytes m a bs = Some m' \<Longrightarrow> mapped m a (length bs)"
  using store_bytes_mapped[of m a bs] by simp

text \<open>What a store leaves behind, in closed form: the range holds the bytes, the rest is kept.\<close>

lemma store_bytes_eq:
  assumes "mapped m a (length bs)" and "length bs \<le> 2 ^ 64"
  shows "store_bytes m a bs =
     Some (\<lambda>x. if unat (x - a) < length bs then Some (bs ! unat (x - a)) else m x)"
  using assms
proof (induction bs arbitrary: m a)
  case (Cons b bs)
  let ?m = "m(a \<mapsto> b)"
  have ma: "m a \<noteq> None" and mp: "mapped ?m (a + 1) (length bs)"
    using Cons.prems by (auto simp: mapped_Suc)
  then have "store_bytes m a (b # bs) = store_bytes ?m (a + 1) bs" by auto
  also have "\<dots> = Some (\<lambda>x. if unat (x - (a + 1)) < length bs
      then Some (bs ! unat (x - (a + 1))) else ?m x)"
    using Cons.prems by (intro Cons.IH mp) simp
  also have "\<dots> = Some (\<lambda>x. if unat (x - a) < length (b # bs)
      then Some ((b # bs) ! unat (x - a)) else m x)"
  proof (rule arg_cong[where f = Some], rule ext)
    fix x
    show "(if unat (x - (a + 1)) < length bs then Some (bs ! unat (x - (a + 1))) else ?m x)
        = (if unat (x - a) < length (b # bs) then Some ((b # bs) ! unat (x - a)) else m x)"
    proof (cases "x = a")
      case True
      have "unat (a - (a + 1)) = 2 ^ 64 - 1" by (simp add: unat_minus_one_word64)
      then show ?thesis using True Cons.prems by simp
    next
      case False
      then have "unat (x - a) \<noteq> 0" by (simp add: unat_eq_0)
      then obtain k where "unat (x - a) = Suc k" by (cases "unat (x - a)") auto
      then show ?thesis using False unat_diff_Suc[OF False] by auto
    qed
  qed
  finally show ?case .
qed simp


lemma store_bytes_SomeE:
  assumes "store_bytes m a bs = Some m'" and "length bs \<le> 2 ^ 64"
  shows "m' = (\<lambda>x. if unat (x - a) < length bs then Some (bs ! unat (x - a)) else m x)"
proof -
  have "Some m' = Some (\<lambda>x. if unat (x - a) < length bs then Some (bs ! unat (x - a)) else m x)"
    using store_bytes_eq[OF store_bytes_SomeD[OF assms(1)] assms(2)] unfolding assms(1) .
  then show ?thesis by (rule option.inject[THEN iffD1])
qed

lemma load_store_same:
  assumes "store_bytes m a bs = Some m'" and "length bs \<le> 2 ^ 64"
  shows "load_bytes m' a (length bs) = Some bs"
proof -
  have off: "m' (a + of_nat i) = Some (bs ! i)" if "i < length bs" for i
  proof -
    have "i < 2 ^ 64" using that assms(2) by (rule less_le_trans)
    then have "unat (a + of_nat i - a) = i" by (simp add: unat_of_nat64)
    then show ?thesis using that by (simp only: store_bytes_SomeE[OF assms] if_True)
  qed
  then have mp: "mapped m' a (length bs)" unfolding mapped_def by blast
  have "map (\<lambda>i. the (m' (a + of_nat i))) [0..<length bs] = map ((!) bs) [0..<length bs]"
    by (rule map_cong) (simp_all add: off)
  then show ?thesis unfolding load_bytes_eq[OF mp] map_nth by blast
qed

lemma store_bytes_dom:
  assumes "store_bytes m a bs = Some m'"
  shows "dom m' = dom m"
  using assms
proof (induction bs arbitrary: m a)
  case (Cons b bs)
  then have "m a \<noteq> None" and "store_bytes (m(a \<mapsto> b)) (a + 1) bs = Some m'"
    by (simp_all split: if_splits)
  with Cons.IH have "dom m' = dom (m(a \<mapsto> b))" by blast
  with \<open>m a \<noteq> None\<close> show ?case by auto
qed simp

lemma store_bytes_other:
  assumes "store_bytes m a bs = Some m'" and "length bs \<le> 2 ^ 64" and "x \<notin> addrs a (length bs)"
  shows "m' x = m x"
  using assms(3) unfolding store_bytes_SomeE[OF assms(1,2)] addrs_def by simp

lemma load_store_other:
  assumes "store_bytes m a bs = Some m'" and "addrs a (length bs) \<inter> addrs b n = {}"
    and "length bs \<le> 2 ^ 64" and "n \<le> 2 ^ 64"
  shows "load_bytes m' b n = load_bytes m b n"
  using assms by (intro load_bytes_cong) (auto intro: store_bytes_other)

lemma load64_mapped: "load64 m a \<noteq> None \<longleftrightarrow> mapped m a 8"
  using load_bytes_mapped[of m a 8] by (simp add: load64_def)

lemma store64_mapped: "store64 m a w \<noteq> None \<longleftrightarrow> mapped m a 8"
  using store_bytes_mapped[of m a "u64_bytes w"] by (simp add: store64_def)

lemma load64_store64_same: "store64 m a w = Some m' \<Longrightarrow> load64 m' a = Some w"
  using load_store_same[of m a "u64_bytes w" m'] by (simp add: store64_def load64_def)

lemma load64_store64_other:
  "store64 m a w = Some m' \<Longrightarrow> addrs a 8 \<inter> addrs b 8 = {} \<Longrightarrow> load64 m' b = load64 m b"
  using load_store_other[of m a "u64_bytes w" m' b 8] by (simp add: store64_def load64_def)

lemma store64_dom: "store64 m a w = Some m' \<Longrightarrow> dom m' = dom m"
  by (simp add: store64_def store_bytes_dom)

lemma load64_cong: "(\<And>x. x \<in> addrs a 8 \<Longrightarrow> m x = m' x) \<Longrightarrow> load64 m a = load64 m' a"
  unfolding load64_def by (subst load_bytes_cong[of a 8 m m']) simp_all

text \<open>Pointer slots are naturally aligned: two of them are equal or do not overlap.\<close>

definition aligned8 :: "u64 \<Rightarrow> bool" where
  "aligned8 a \<longleftrightarrow> unat a mod 8 = 0"

lemma aligned8_disjoint:
  assumes "aligned8 a" and "aligned8 b" and "a \<noteq> b"
  shows "addrs a 8 \<inter> addrs b 8 = {}"
proof -
  have in_block: "unat x div 8 = unat c div 8" if "x \<in> addrs c 8" and "aligned8 c" for x c
  proof -
    from that(1) obtain i where i: "i < 8" and x: "x = c + of_nat i" by (rule addrsE)
    from that(2) obtain q where q: "unat c = 8 * q" by (auto simp: aligned8_def mod_eq_0_iff_dvd)
    have "8 * q < 18446744073709551616" using unsigned_less[of c] by (simp flip: q)
    then have "8 * q + i < 18446744073709551616" using i by presburger
    then have "unat x = 8 * q + i" using i by (simp add: x unat_word_ariths unat_of_nat q)
    then show ?thesis using i q by simp
  qed
  show ?thesis
  proof (rule ccontr)
    assume "addrs a 8 \<inter> addrs b 8 \<noteq> {}"
    then obtain x where "x \<in> addrs a 8" and "x \<in> addrs b 8" by blast
    then have "unat a div 8 = unat b div 8" using in_block assms(1,2) by metis
    then have "unat a = unat b" using assms(1,2) unfolding aligned8_def
      by (metis div_mult_mod_eq)
    then show False using assms(3) by (simp add: word_unat_eq_iff)
  qed
qed

lemma bit_small: 
  fixes a :: "'a::len word" 
  assumes "bit a n" and "unat a < 2 ^ k" shows "n < k"
proof (rule ccontr)
  assume "\<not> n < k"
  have "bit (unat a) n" using assms(1) by (simp add: bit_unsigned_iff bit_imp_le_length)
  then have "odd (unat a div 2 ^ n)" by (simp add: bit_iff_odd)
  then have "unat a div 2 ^ n \<noteq> 0" by (rule contrapos_pn) simp
  then have "2 ^ n \<le> unat a" by (rule contrapos_np) simp
  moreover have "(2::nat) ^ k \<le> 2 ^ n" using \<open>\<not> n < k\<close> by simp
  ultimately show False using assms(2) by linarith
qed

lemma unat_lt64: "unat (y::u64) < 2 ^ 64"
proof -
  have "unat y < 2 ^ LENGTH(64)" by (rule unsigned_less)
  then show ?thesis by simp
qed

lemma unat_sub_of_nat: 
  assumes "n \<le> unat (y::u64)" 
  shows "unat (y - of_nat n) = unat y - n"
proof -
  have n: "n < 2 ^ 64" using assms unat_lt64 by (rule le_less_trans)
  then have "of_nat n \<le> y" using assms by (simp add: word_le_nat_alt unat_of_nat64)
  then show ?thesis using n by (simp add: unat_sub unat_of_nat64)
qed

lemma unat_sub_wrap: 
  assumes "unat (y::u64) < n" "n \<le> 2 ^ 64"
  shows "unat (y - of_nat n) = 2 ^ 64 + unat y - n"
proof -
  have "y - of_nat n = of_nat (2 ^ 64 + unat y - n)"
    using assms by (simp add: of_nat_diff)
  moreover have "2 ^ 64 + unat y - n < 2 ^ 64" using assms by linarith
  ultimately show ?thesis by (simp only: unat_of_nat64)
qed

lemma addrs_offset:
  assumes "n + k \<le> 2 ^ 64"
  shows "x \<in> addrs (p + of_nat n) k \<longleftrightarrow> n \<le> unat (x - p) \<and> unat (x - p) < n + k"
proof (cases "n \<le> unat (x - p)")
  case True
  have "unat (x - (p + of_nat n)) = unat (x - p) - n"
    using unat_sub_of_nat[OF True] by (simp add: diff_diff_eq)
  then show ?thesis using True by (auto simp: addrs_def)
next
  case False
  have "unat (x - (p + of_nat n)) = 2 ^ 64 + unat (x - p) - n"
    using unat_sub_wrap[of "x - p" n] False assms by (simp add: diff_diff_eq)
  then show ?thesis using False assms by (auto simp: addrs_def)
qed

lemma addrs_append:
  assumes "n + k \<le> 2 ^ 64"
  shows "addrs p (n + k) = addrs p n \<union> addrs (p + of_nat n) k" (is ?A)
    and "addrs p n \<inter> addrs (p + of_nat n) k = {}" (is ?B)
proof -
  note in2 = addrs_offset[OF assms]
  show ?A by (rule set_eqI) (auto simp: in2 addrs_def[of p])
  show ?B by (auto simp: in2 addrs_def[of p])
qed

lemma addrs_offset_disjoint:
  assumes "i + k \<le> 2 ^ 64" "j + l \<le> 2 ^ 64" "i + k \<le> j \<or> j + l \<le> i"
  shows "addrs (p + of_nat i) k \<inter> addrs (p + of_nat j) l = {}"
  using assms by (auto simp: addrs_offset)

lemma mapped_sub: "mapped m a n \<Longrightarrow> i + k \<le> n \<Longrightarrow> mapped m (a + of_nat i) k"
  unfolding mapped_def by (metis add.assoc nat_add_left_cancel_less of_nat_add order_less_le_trans)

lemma unat_add_small: "unat (x::u64) + unat y < 2 ^ 64 \<Longrightarrow> unat (x + y) = unat x + unat y"
  by (simp add: unat_word_ariths)

lemma unat_Suc_small: "unat (x::u64) + 1 < 2 ^ 64 \<Longrightarrow> unat (x + 1) = unat x + 1"
  by (simp add: unat_word_ariths)

lemma drop_bit_of_nat64:
  assumes "x < 2 ^ 64"
  shows "drop_bit k (of_nat x :: u64) = of_nat (x div 2 ^ k)"
proof -
  have "x div 2 ^ k < 2 ^ 64" by (rule le_less_trans[OF div_le_dividend assms])
  moreover have "unat (drop_bit k (of_nat x :: u64)) = x div 2 ^ k"
    by (simp only: unat_drop_bit_eq drop_bit_eq_div[where 'a = nat] unat_of_nat64 assms)
  ultimately show ?thesis by (simp only: word_unat_eq_iff unat_of_nat64)
qed

end
