(* ===== verification/MetaPageTable.thy ===== *)
theory MetaPageTable
  imports Prelude
begin

unbundle bit_operations_syntax

section \<open>The metadata page table (metapagetable/)\<close>

text \<open>
  \<^verbatim>\<open>metapagetable.c\<close> keeps one 64-bit entry per 4096-byte page of the address space: the
  address of the page's metadata shifted left by 8, with the granularity of that metadata
  (log2 of the bytes one metadata slot covers) in the low byte.  The table sits at a fixed
  virtual address and is mapped lazily and zeroed by \<^verbatim>\<open>mmap\<close>.  In the fixed-compression
  build the same region holds the metadata bytes themselves.

  \<^verbatim>\<open>mmap\<close> is the kernel's: it is a parameter that answers with the address of a new
  mapping of the asked length, or \<open>None\<close> for \<^verbatim>\<open>MAP_FAILED\<close>.  The build options of
  \<^verbatim>\<open>metapagetable.h.in\<close> are the record \<open>config\<close>.
\<close>

record config =
  fixedCompression :: bool
  metadataBytes :: u64
  deepMetadata :: bool
  deepMetadataBytes :: u64
  systemPageSize :: u64

record metalloc =
  pageTable :: "(u64 \<Rightarrow> u64) option"
  isPageTableAlloced :: bool
  mmem :: mem

type_synonym mmap = "u64 \<Rightarrow> u64 \<Rightarrow> mem \<Rightarrow> u64 option"

definition METALLOC_PAGESHIFT :: nat where "METALLOC_PAGESHIFT = 12"
definition METALLOC_PAGESIZE :: u64 where "METALLOC_PAGESIZE = 4096"
definition METALLOC_FIXEDSIZE :: u64 where "METALLOC_FIXEDSIZE = 8"
definition pageTable_base :: u64 where "pageTable_base = 0x400000000000"

text \<open>With 16 metadata bytes the fixed-compression size divides by zero, which C rejects at
  compile time; HOL's word division yields 0 there.\<close>

definition PAGETABLESIZE :: "config \<Rightarrow> u64" where
  "PAGETABLESIZE c =
     (if \<not> fixedCompression c then push_bit 48 1 div METALLOC_PAGESIZE
      else push_bit 48 1 div ((METALLOC_FIXEDSIZE div metadataBytes c) * 16))"

definition map_zero :: "mem \<Rightarrow> u64 \<Rightarrow> nat \<Rightarrow> mem" where
  "map_zero m a n = (\<lambda>x. if unat (x - a) < n then Some 0 else m x)"

definition unmap :: "mem \<Rightarrow> u64 \<Rightarrow> nat \<Rightarrow> mem" where
  "unmap m a n = (\<lambda>x. if unat (x - a) < n then None else m x)"

definition is_fixed_compression :: "config \<Rightarrow> bool" where
  "is_fixed_compression c = fixedCompression c"

definition page_table_init :: "config \<Rightarrow> mmap \<Rightarrow> metalloc \<Rightarrow> metalloc res" where
  "page_table_init c mm s =
     (if isPageTableAlloced s then Inr s
      else case mm pageTable_base (PAGETABLESIZE c * 8) (mmem s) of
        None \<Rightarrow> Inl Exit
      | Some a \<Rightarrow>
          Inr (s\<lparr>isPageTableAlloced := True,
                 pageTable := (if a = pageTable_base \<and> \<not> fixedCompression c
                               then Some (\<lambda>_. 0) else pageTable s),
                 mmem := (if fixedCompression c
                          then map_zero (mmem s) a (unat (PAGETABLESIZE c * 8)) else mmem s)\<rparr>))"

definition is_metapagetable_alloced :: "metalloc \<Rightarrow> bool" where
  "is_metapagetable_alloced s = isPageTableAlloced s"

text \<open>Reading or writing \<^verbatim>\<open>pageTable[page]\<close> outside the mapped table is a SIGSEGV.\<close>

definition pt_read :: "metalloc \<Rightarrow> u64 \<Rightarrow> u64 res" where
  "pt_read s page =
     (case pageTable s of None \<Rightarrow> Inl Segv
      | Some t \<Rightarrow> if unat page < 2 ^ 36 then Inr (t page) else Inl Segv)"

definition pt_write :: "metalloc \<Rightarrow> u64 \<Rightarrow> u64 \<Rightarrow> metalloc res" where
  "pt_write s page e =
     (case pageTable s of None \<Rightarrow> Inl Segv
      | Some t \<Rightarrow> if unat page < 2 ^ 36 then Inr (s\<lparr>pageTable := Some (t(page := e))\<rparr>)
                  else Inl Segv)"

definition metadataSize :: "config \<Rightarrow> u64 \<Rightarrow> u64 \<Rightarrow> u64" where
  "metadataSize c sz alignment =
     (let pageAlignOffset = systemPageSize c - 1;
          pageAlignMask = NOT (systemPageSize c - 1)
      in (drop_bit (unat alignment) (sz * metadataBytes c) + pageAlignOffset) AND pageAlignMask)"

definition allocate_metadata ::
  "config \<Rightarrow> mmap \<Rightarrow> u64 \<Rightarrow> u64 \<Rightarrow> metalloc \<Rightarrow> (u64 \<times> metalloc) res" where
  "allocate_metadata c mm sz alignment s =
     (case mm 0 (metadataSize c sz alignment) (mmem s) of
        None \<Rightarrow> Inl Exit
      | Some a \<Rightarrow> Inr (a, s\<lparr>mmem := map_zero (mmem s) a (unat (metadataSize c sz alignment))\<rparr>))"

definition deallocate_metadata ::
  "config \<Rightarrow> u64 \<Rightarrow> u64 \<Rightarrow> u64 \<Rightarrow> metalloc \<Rightarrow> metalloc res" where
  "deallocate_metadata c ptr sz alignment s =
     bindR (pt_read s (ptr div METALLOC_PAGESIZE)) (\<lambda>entry.
       let metadata = drop_bit 8 entry
       in Inr (s\<lparr>mmem := unmap (mmem s) metadata (unat (metadataSize c sz alignment))\<rparr>))"

text \<open>\<^verbatim>\<open>(pageMetaptr << 8) | (char)alignment\<close>: the \<^verbatim>\<open>char\<close> is sign extended.\<close>

definition make_entry :: "u64 \<Rightarrow> u32 \<Rightarrow> u64" where
  "make_entry pageMetaptr alignment =
     push_bit 8 pageMetaptr OR (scast (ucast alignment :: u8) :: u64)"

definition entry_value :: "config \<Rightarrow> u64 \<Rightarrow> u32 \<Rightarrow> u64 \<Rightarrow> u64" where
  "entry_value c metaptr alignment i =
     (let metaOffset = drop_bit (unat alignment) (i * METALLOC_PAGESIZE) * metadataBytes c;
          pageMetaptr = (if metaptr = 0 then 0 else metaptr + metaOffset)
      in make_entry pageMetaptr alignment)"

fun set_entries_loop ::
  "config \<Rightarrow> u64 \<Rightarrow> u64 \<Rightarrow> u32 \<Rightarrow> u64 \<Rightarrow> nat \<Rightarrow> metalloc \<Rightarrow> metalloc res" where
  "set_entries_loop c page metaptr alignment i 0 s = Inr s"
| "set_entries_loop c page metaptr alignment i (Suc k) s =
     bindR (pt_write s (page + i) (entry_value c metaptr alignment i))
       (set_entries_loop c page metaptr alignment (i + 1) k)"

definition set_metapagetable_entries ::
  "config \<Rightarrow> mmap \<Rightarrow> u64 \<Rightarrow> u64 \<Rightarrow> u64 \<Rightarrow> u32 \<Rightarrow> metalloc \<Rightarrow> metalloc res" where
  "set_metapagetable_entries c mm ptr sz metaptr alignment s =
     bindR (if isPageTableAlloced s then Inr s else page_table_init c mm s) (\<lambda>s.
       if sz mod METALLOC_PAGESIZE \<noteq> 0 then Inl Exit
       else set_entries_loop c (ptr div METALLOC_PAGESIZE) metaptr alignment 0
              (unat (sz div METALLOC_PAGESIZE)) s)"

definition get_metapagetable_entry ::
  "config \<Rightarrow> mmap \<Rightarrow> u64 \<Rightarrow> metalloc \<Rightarrow> (u64 \<times> metalloc) res" where
  "get_metapagetable_entry c mm ptr s =
     bindR (if isPageTableAlloced s then Inr s else page_table_init c mm s) (\<lambda>s.
       bindR (pt_read s (ptr div METALLOC_PAGESIZE)) (\<lambda>e. Inr (e, s)))"

text \<open>The reference-count bookkeeping is commented out in the source: both are no-ops.\<close>

definition allocate_metapagetable_entries :: "u64 \<Rightarrow> u64 \<Rightarrow> metalloc \<Rightarrow> metalloc" where
  "allocate_metapagetable_entries ptr sz s = s"

definition deallocate_metapagetable_entries :: "u64 \<Rightarrow> u64 \<Rightarrow> metalloc \<Rightarrow> metalloc" where
  "deallocate_metapagetable_entries ptr sz s = s"

definition dang_alloc_size_hook :: "u64 \<Rightarrow> u64" where
  "dang_alloc_size_hook sz = sz + 1"

subsection \<open>Entries\<close>

lemma scast_small: 
  assumes "unat (a::u32) < 2 ^ 7" shows "(scast (ucast a :: u8) :: u64) = ucast a"
proof -
  have "n < 7" if "bit a n" for n using bit_small[OF that assms] .
  then have "\<not> bit a n" if "7 \<le> n" for n using that not_le by blast
  then show ?thesis by (intro bit_word_eqI) (auto simp: bit_signed_iff bit_ucast_iff min_def)
qed

lemma drop_bit_make_entry: 
  assumes "unat a < 2 ^ 7" and "unat M < 2 ^ 56" shows "drop_bit 8 (make_entry M a) = M"
proof -
  have a: "n < 7" if "bit a n" for n using bit_small[OF that assms(1)] .
  have M: "n < 56" if "bit M n" for n using bit_small[OF that assms(2)] .
  show ?thesis unfolding make_entry_def scast_small[OF assms(1)]
  by (intro bit_word_eqI) (auto simp: bit_drop_bit_eq bit_or_iff bit_push_bit_iff bit_ucast_iff dest: a M)
qed

lemma and_make_entry: 
  assumes "unat a < 2 ^ 7" shows "make_entry M a AND 0xFF = ucast a"
proof -
  have a: "n < 7" if "bit a n" for n using bit_small[OF that assms(1)] .
  have m: "(0xFF :: u64) = mask 8" by (simp add: mask_eq_exp_minus_1)
  show ?thesis unfolding m make_entry_def scast_small[OF assms(1)]
  by (intro bit_word_eqI) (auto simp: bit_and_iff bit_mask_iff bit_or_iff bit_push_bit_iff bit_ucast_iff dest: a)
qed

lemma div_split_page:
  fixes i off a :: nat
  assumes "off < 4096"
  shows "(i * 4096) div 2 ^ a + off div 2 ^ a = (i * 4096 + off) div 2 ^ a"
proof (cases "a \<le> 12")
  case True
  then obtain b where "12 = a + b" using le_Suc_ex by blast
  then have "(2::nat) ^ 12 = 2 ^ a * 2 ^ b" by (simp flip: power_add)
  then have "(4096::nat) = 2 ^ a * 2 ^ b" by simp
  then have "i * 4096 = 2 ^ a * (2 ^ b * i)" by simp
  then show ?thesis by (simp only:) simp
next
  case False
  then obtain b where b: "a = 12 + b" using le_Suc_ex by (meson not_le less_imp_le)
  have p: "(2::nat) ^ a = 4096 * 2 ^ b" by (simp add: b power_add)
  have "(i * 4096 + off) div 2 ^ a = ((i * 4096 + off) div 4096) div 2 ^ b" by (simp add: p div_mult2_eq)
  also have "(i * 4096 + off) div 4096 = i" using assms by simp
  also have "i div 2 ^ b = (i * 4096) div 2 ^ a" by (simp add: p div_mult2_eq)
  finally have e: "(i * 4096 + off) div 2 ^ a = (i * 4096) div 2 ^ a" .
  have "off < 2 ^ a" unfolding p using assms by (rule less_le_trans) simp
  then show ?thesis by (simp add: e)
qed

lemma set_entries_loop_eq:
  assumes "pageTable s = Some t" and "unat page + unat i + k \<le> 2 ^ 36"
  shows "\<exists>t'. set_entries_loop c page M a i k s = Inr (s\<lparr>pageTable := Some t'\<rparr>) \<and>
     (\<forall>p. t' p = (if unat page + unat i \<le> unat p \<and> unat p < unat page + unat i + k
                then entry_value c M a (p - page) else t p))"
  using assms
proof (induction k arbitrary: i s t)
  case 0
  then show ?case by (intro exI[of _ t]) auto
next
  case (Suc k)
  define t1 where "t1 = t(page + i := entry_value c M a i)"
  have pi: "unat (page + i) = unat page + unat i"
    by (rule unat_add_small) (use Suc.prems(2) in simp)
  have i1: "unat (i + 1) = unat i + 1"
    by (rule unat_Suc_small) (use Suc.prems(2) in simp)
  have w: "pt_write s (page + i) (entry_value c M a i) = Inr (s\<lparr>pageTable := Some t1\<rparr>)"
    using Suc.prems pi by (simp add: pt_write_def t1_def)
  have "pageTable (s\<lparr>pageTable := Some t1\<rparr>) = Some t1" by simp
  moreover have "unat page + unat (i + 1) + k \<le> 2 ^ 36" using Suc.prems(2) i1 by simp
  ultimately obtain t' where
    run: "set_entries_loop c page M a (i + 1) k (s\<lparr>pageTable := Some t1\<rparr>)
        = Inr (s\<lparr>pageTable := Some t1\<rparr>\<lparr>pageTable := Some t'\<rparr>)" and
    t': "\<And>p. t' p = (if unat page + unat (i + 1) \<le> unat p \<and> unat p < unat page + unat (i + 1) + k
                then entry_value c M a (p - page) else t1 p)"
    using Suc.IH by blast
  have "t' p = (if unat page + unat i \<le> unat p \<and> unat p < unat page + unat i + Suc k
                then entry_value c M a (p - page) else t p)" for p
  proof -
    have "unat p = unat page + unat i \<longleftrightarrow> p = page + i" using pi by (auto simp: word_unat_eq_iff)
    then show ?thesis using i1 by (auto simp: t' t1_def)
  qed
  moreover have "set_entries_loop c page M a i (Suc k) s = Inr (s\<lparr>pageTable := Some t'\<rparr>)"
    using run w by simp
  ultimately show ?case by blast
qed

subsection \<open>Regions\<close>

text \<open>
  What a successful registration establishes: \<open>n\<close> whole pages from \<open>P\<close> on, whose metadata
  starts at \<open>M\<close> with granularity \<open>2 ^ a\<close>, all of it inside the 48-bit user address space and
  the 56 bits an entry leaves for the metadata address.
\<close>

definition region_ok :: "config \<Rightarrow> u64 \<Rightarrow> nat \<Rightarrow> u64 \<Rightarrow> u32 \<Rightarrow> bool" where
  "region_ok c P n M a \<longleftrightarrow>
     unat P mod 4096 = 0 \<and> unat P + n * 4096 \<le> 2 ^ 48 \<and> M \<noteq> 0 \<and> unat a < 31 \<and>
     unat M + (n * 4096 div 2 ^ unat a + 1) * unat (metadataBytes c) < 2 ^ 56"

definition meta_region :: "config \<Rightarrow> metalloc \<Rightarrow> u64 \<Rightarrow> nat \<Rightarrow> u64 \<Rightarrow> u32 \<Rightarrow> bool" where
  "meta_region c s P n M a \<longleftrightarrow> region_ok c P n M a \<and>
     (\<exists>t. pageTable s = Some t \<and>
        (\<forall>i<n. t (P div METALLOC_PAGESIZE + of_nat i) = entry_value c M a (of_nat i)))"

lemma unat_div_page [simp]: "unat (q div METALLOC_PAGESIZE) = unat q div 4096"
  by (simp add: METALLOC_PAGESIZE_def unat_div)

lemma unat_mod_page [simp]: "unat (q mod METALLOC_PAGESIZE) = unat q mod 4096"
  by (simp add: METALLOC_PAGESIZE_def unat_mod)

lemma set_metapagetable_entries_region:
  assumes "pageTable s = Some t" and "isPageTableAlloced s" and "region_ok c P n M a"
  shows "\<exists>s'. set_metapagetable_entries c mm P (of_nat (n * 4096)) M a s = Inr s' \<and>
     meta_region c s' P n M a \<and> mmem s' = mmem s \<and> isPageTableAlloced s' \<and>
     (\<forall>q. unat q < unat P \<or> unat P + n * 4096 \<le> unat q \<longrightarrow>
        pt_read s' (q div METALLOC_PAGESIZE) = pt_read s (q div METALLOC_PAGESIZE))"
proof -
  let ?page = "P div METALLOC_PAGESIZE"
  have P: "unat P mod 4096 = 0" and Pn: "unat P + n * 4096 \<le> 2 ^ 48"
    using assms(3) by (auto simp: region_ok_def)
  have n: "n * 4096 < 2 ^ 64" using Pn by simp
  have sz: "unat (of_nat (n * 4096) :: u64) = n * 4096" using unat_of_nat64[OF n] .
  have page: "unat ?page + unat (0::u64) + n \<le> 2 ^ 36" using P Pn by simp
  have "set_metapagetable_entries c mm P (of_nat (n * 4096)) M a s
      = set_entries_loop c ?page M a 0 n s"
    using assms(2) sz unfolding set_metapagetable_entries_def word_unat_eq_iff unat_mod_page unat_div_page
    by simp
  then obtain t' where eq: "set_metapagetable_entries c mm P (of_nat (n * 4096)) M a s
      = Inr (s\<lparr>pageTable := Some t'\<rparr>)"
    and t': "\<And>p. t' p = (if unat ?page \<le> unat p \<and> unat p < unat ?page + n
                then entry_value c M a (p - ?page) else t p)"
    using set_entries_loop_eq[OF assms(1) page, of c M a] unfolding unsigned_0 add_0_right by metis
  have ent: "t' (?page + of_nat i) = entry_value c M a (of_nat i)" if "i < n" for i
  proof -
    have i64: "unat (of_nat i :: u64) = i" using that n by (intro unat_of_nat64) linarith
    moreover have "unat ?page + i < 2 ^ 64" using page that by simp
    ultimately have "unat (?page + of_nat i) = unat ?page + i"
      using unat_add_small[of ?page "of_nat i"] by (simp only:)
    then have "unat ?page \<le> unat (?page + of_nat i) \<and> unat (?page + of_nat i) < unat ?page + n"
      using that by linarith
    then show ?thesis unfolding t'[of "?page + of_nat i"] add_diff_cancel_left' by (simp only: if_True simp_thms)
  qed
  have out: "t' (q div METALLOC_PAGESIZE) = t (q div METALLOC_PAGESIZE)"
    if "unat q < unat P \<or> unat P + n * 4096 \<le> unat q" for q
  proof -
    have k: "unat P div 4096 * 4096 = unat P" using P by (metis add_0_right div_mult_mod_eq)
    have "unat q < unat P div 4096 * 4096 \<or> (unat P div 4096 + n) * 4096 \<le> unat q"
      using that unfolding distrib_right k .
    then have "unat q div 4096 < unat P div 4096 \<or> unat P div 4096 + n \<le> unat q div 4096"
      by (simp only: div_less_iff_less_mult less_eq_div_iff_mult_less_eq zero_less_numeral)
    then have "\<not> (unat ?page \<le> unat (q div METALLOC_PAGESIZE) \<and>
        unat (q div METALLOC_PAGESIZE) < unat ?page + n)"
      unfolding unat_div_page by linarith
    then show ?thesis unfolding t'[of "q div METALLOC_PAGESIZE"] by (rule if_not_P)
  qed
  show ?thesis
    using eq ent out assms by (intro exI[of _ "s\<lparr>pageTable := Some t'\<rparr>"])
      (simp add: meta_region_def pt_read_def)
qed

text \<open>The address arithmetic of every \<^verbatim>\<open>metaget\<close> and \<^verbatim>\<open>metaset\<close> on one entry.\<close>

definition metaptr_of :: "nat \<Rightarrow> u64 \<Rightarrow> u64 \<Rightarrow> u64 \<Rightarrow> u64" where
  "metaptr_of N entry ptrInt page =
     drop_bit 8 entry +
       drop_bit (unat (entry AND 0xFF)) (ptrInt - page * METALLOC_PAGESIZE) * of_nat N"

lemma entry_value_small:
  assumes "region_ok c P n M a" and "i < n"
  shows "entry_value c M a (of_nat i) =
     make_entry (M + of_nat (i * 4096 div 2 ^ unat a * unat (metadataBytes c))) a"
proof -
  have n: "i * 4096 < 2 ^ 64" using assms by (auto simp: region_ok_def)
  have "of_nat i * METALLOC_PAGESIZE = (of_nat (i * 4096) :: u64)"
    by (simp add: METALLOC_PAGESIZE_def)
  then show ?thesis using assms(1) drop_bit_of_nat64[OF n]
    by (simp add: entry_value_def region_ok_def Let_def)
qed

lemma region_page:
  assumes ok: "region_ok c P n M a" and "unat P \<le> unat q" and "unat q < unat P + n * 4096"
  obtains i off where "i < n" and "off < 4096" and "off = unat q mod 4096"
    and "unat q - unat P = i * 4096 + off"
    and "q div METALLOC_PAGESIZE = P div METALLOC_PAGESIZE + of_nat i"
    and "unat (q div METALLOC_PAGESIZE) < 2 ^ 36"
proof -
  have P: "unat P mod 4096 = 0" and Pn: "unat P + n * 4096 \<le> 2 ^ 48"
    using ok by (auto simp: region_ok_def)
  define i where "i = (unat q - unat P) div 4096"
  define off where "off = unat q mod 4096"
  have i: "i < n" unfolding i_def by (rule less_mult_imp_div_less) (use assms(2,3) in linarith)
  have "unat P = unat P div 4096 * 4096" using P by (metis add_0_right div_mult_mod_eq)
  then have q: "unat q = (unat q - unat P) + unat P div 4096 * 4096" using assms(2) by linarith
  then have "unat q mod 4096 = (unat q - unat P) mod 4096" by (metis mod_mult_self1)
  then have d: "unat q - unat P = i * 4096 + off" unfolding i_def off_def by (metis div_mult_mod_eq)
  have pg: "unat q div 4096 = unat P div 4096 + i"
    using q unfolding i_def by (metis add.commute div_mult_self1 zero_neq_numeral)
  have page: "q div METALLOC_PAGESIZE = P div METALLOC_PAGESIZE + of_nat i"
  proof -
    have "unat P div 4096 + i < 2 ^ 64" using i Pn div_le_dividend[of "unat P" 4096] by simp
    moreover from this have "unat (of_nat i :: u64) = i" by (intro unat_of_nat64) linarith
    ultimately have "unat (P div METALLOC_PAGESIZE + of_nat i) = unat P div 4096 + i"
      using unat_add_small[of "P div METALLOC_PAGESIZE" "of_nat i"] unfolding unat_div_page by (simp only:)
    then show ?thesis unfolding word_unat_eq_iff unat_div_page pg by (simp only:)
  qed
  have "unat q div 4096 < 2 ^ 36" using assms(3) Pn by (simp add: div_less_iff_less_mult)
  then have "unat (q div METALLOC_PAGESIZE) < 2 ^ 36" unfolding unat_div_page .
  moreover have "off < 4096" by (simp add: off_def)
  ultimately show ?thesis using that i off_def d page by blast
qed

lemma page_offset:
  "q - q div METALLOC_PAGESIZE * METALLOC_PAGESIZE = of_nat (unat q mod 4096)"
proof -
  have "q = q div METALLOC_PAGESIZE * METALLOC_PAGESIZE + q mod METALLOC_PAGESIZE"
    by (simp add: word_mod_div_equality)
  then have "q - q div METALLOC_PAGESIZE * METALLOC_PAGESIZE = q mod METALLOC_PAGESIZE"
    unfolding diff_eq_eq by (simp only: add.commute)
  moreover have "unat (q mod METALLOC_PAGESIZE) = unat (of_nat (unat q mod 4096) :: u64)"
    unfolding unat_mod_page by (rule unat_of_nat64[symmetric], rule less_trans[of _ 4096]) simp_all
  ultimately show ?thesis unfolding word_unat_eq_iff by (simp only:)
qed

lemma region_entry:
  assumes ok: "region_ok c P n M a" and i: "i < n"
  shows "drop_bit 8 (entry_value c M a (of_nat i))
      = M + of_nat (i * 4096 div 2 ^ unat a * unat (metadataBytes c))" (is "?L = ?B")
    and "entry_value c M a (of_nat i) AND 0xFF = ucast a"
    and "M + of_nat (i * 4096 div 2 ^ unat a * unat (metadataBytes c)) \<noteq> 0"
proof -
  let ?N = "unat (metadataBytes c)"
  let ?k = "i * 4096 div 2 ^ unat a * ?N"
  have M0: "M \<noteq> 0" and a: "unat a < 31" and Mb: "unat M + (n * 4096 div 2 ^ unat a + 1) * ?N < 2 ^ 56"
    using ok by (auto simp: region_ok_def)
  have le: "?k \<le> (n * 4096 div 2 ^ unat a + 1) * ?N"
    using i by (intro mult_le_mono1 le_SucI[unfolded Suc_eq_plus1] div_le_mono) simp
  have k64: "unat (of_nat ?k :: u64) = ?k" using le Mb by (intro unat_of_nat64) simp
  have B: "unat ?B = unat M + ?k"
    using unat_add_small[of M "of_nat ?k"] le Mb unfolding k64 by simp
  have B56: "unat ?B < 2 ^ 56" unfolding B using le Mb by linarith
  have a7: "unat a < 2 ^ 7" using a by simp
  show "?L = ?B" unfolding entry_value_small[OF ok i] by (rule drop_bit_make_entry[OF a7 B56])
  show "entry_value c M a (of_nat i) AND 0xFF = ucast a"
    unfolding entry_value_small[OF ok i] by (rule and_make_entry[OF a7])
  have "unat M \<noteq> 0" using M0 by (simp add: unat_eq_0)
  then show "?B \<noteq> 0" using B by (auto simp: unat_eq_0)
qed

lemma region_metaptr:
  assumes "meta_region c s P n M a" and "unat P \<le> unat q" and "unat q < unat P + n * 4096"
    and N: "unat (metadataBytes c) = N"
  obtains e where "pt_read s (q div METALLOC_PAGESIZE) = Inr e" and "e AND 0xFF = ucast a"
    and "drop_bit 8 e \<noteq> 0"
    and "metaptr_of N e q (q div METALLOC_PAGESIZE) = M + of_nat ((unat q - unat P) div 2 ^ unat a * N)"
proof -
  have ok: "region_ok c P n M a" using assms(1) by (simp add: meta_region_def)
  then have a: "unat a < 31" by (simp add: region_ok_def)
  obtain i off where i: "i < n" and off: "off < 4096" "off = unat q mod 4096"
    and d: "unat q - unat P = i * 4096 + off"
    and page: "q div METALLOC_PAGESIZE = P div METALLOC_PAGESIZE + of_nat i"
    and p36: "unat (q div METALLOC_PAGESIZE) < 2 ^ 36"
    using region_page[OF ok assms(2,3)] .
  let ?page = "q div METALLOC_PAGESIZE" and ?e = "entry_value c M a (of_nat i)"
  note ent = region_entry[OF ok i, unfolded N]
  obtain t where t: "pageTable s = Some t" and ti: "t (P div METALLOC_PAGESIZE + of_nat i) = ?e"
    using assms(1) i by (auto simp: meta_region_def)
  have rd: "pt_read s ?page = Inr ?e" using t ti p36 by (simp add: pt_read_def flip: page)
  have ua: "unat (ucast a :: u64) = unat a" using a by (simp add: unsigned_ucast_eq take_bit_nat_eq_self)
  have "off < 2 ^ 64" by (rule less_trans[OF off(1)]) simp
  note dro = drop_bit_of_nat64[OF this]
  have "metaptr_of N ?e q ?page
      = M + of_nat (i * 4096 div 2 ^ unat a * N) + of_nat (off div 2 ^ unat a) * of_nat N"
    unfolding metaptr_of_def ent ua page_offset off(2)[symmetric] dro ..
  also have "\<dots> = M + of_nat ((i * 4096 div 2 ^ unat a + off div 2 ^ unat a) * N)"
    by (simp add: algebra_simps)
  also have "i * 4096 div 2 ^ unat a + off div 2 ^ unat a = (unat q - unat P) div 2 ^ unat a"
    unfolding d by (rule div_split_page[OF off(1)])
  finally show ?thesis using that[OF rd ent(2)] ent by simp
qed

end
