(* ===== verification/MetaData.thy ===== *)
theory MetaData
  imports MetaPageTable "HOL-Library.Sublist"
begin

unbundle bit_operations_syntax

section \<open>Reading and writing object metadata (staticlib/, metapagetable/*hooks.c)\<close>

text \<open>
  The functions the instrumented program and the allocator hooks call to read and write the
  metadata of an address: the \<^verbatim>\<open>CREATE_METASET*\<close> and \<^verbatim>\<open>CREATE_METAGET*\<close> macros of
  \<^verbatim>\<open>staticlib/\<close>, here with the slot size as an argument and the value as that many bytes,
  and the byte-wise \<^verbatim>\<open>set_metadata\<close> of the allocator hooks.  The main result is the round trip: what
  \<^verbatim>\<open>metaset\<close> writes over an object is what \<^verbatim>\<open>metaget\<close> reads at every address inside it,
  and nothing else changes.
\<close>

text \<open>\<^verbatim>\<open>1 << alignment\<close> is an \<^verbatim>\<open>int\<close> shift: 32 bits wide, then sign extended.\<close>

definition int_shl1 :: "u64 \<Rightarrow> u64" where
  "int_shl1 a = scast (push_bit (unat a mod 32) 1 :: u32)"

definition metasize_of :: "u64 \<Rightarrow> u64 \<Rightarrow> u64" where
  "metasize_of count alignment = drop_bit (unat alignment) (count + int_shl1 alignment - 1)"

fun metaset_loop :: "u8 list \<Rightarrow> u64 \<Rightarrow> nat \<Rightarrow> mem \<Rightarrow> mem option" where
  "metaset_loop v metaptr 0 m = Some m"
| "metaset_loop v metaptr (Suc k) m =
     (case store_bytes m metaptr v of None \<Rightarrow> None
      | Some m' \<Rightarrow> metaset_loop v (metaptr + of_nat (length v)) k m')"

definition meta_fill :: "u8 list \<Rightarrow> u64 \<Rightarrow> nat \<Rightarrow> metalloc \<Rightarrow> metalloc res" where
  "meta_fill v metaptr k s =
     bindR (of_opt Segv (metaset_loop v metaptr k (mmem s))) (\<lambda>m. Inr (s\<lparr>mmem := m\<rparr>))"

subsection \<open>metaset.c\<close>

definition metaset :: "nat \<Rightarrow> u64 \<Rightarrow> u64 \<Rightarrow> u8 list \<Rightarrow> metalloc \<Rightarrow> (u64 \<times> metalloc) res" where
  "metaset N ptrInt count value s =
     (let page = ptrInt div METALLOC_PAGESIZE in
      bindR (pt_read s page) (\<lambda>entry.
        let alignment = entry AND 0xFF;
            metaptr = metaptr_of N entry ptrInt page;
            metasize = metasize_of count alignment
        in bindR (meta_fill value metaptr (unat metasize) s) (\<lambda>s. Inr (entry, s))))"

definition metaset_alignment ::
  "bool \<Rightarrow> nat \<Rightarrow> u64 \<Rightarrow> u64 \<Rightarrow> u8 list \<Rightarrow> u64 \<Rightarrow> metalloc \<Rightarrow> (u64 \<times> metalloc) res" where
  "metaset_alignment safe N ptrInt count value alignment s =
     (let page = ptrInt div METALLOC_PAGESIZE in
      bindR (pt_read s page) (\<lambda>entry.
        if safe \<and> entry = 0 then Inr (0, s)
        else
          let metabase = drop_bit 8 entry;
              pageOffset = ptrInt - page * METALLOC_PAGESIZE;
              metaptr = metabase + drop_bit (unat alignment) pageOffset * of_nat N;
              metasize = metasize_of count alignment
          in bindR (meta_fill value metaptr (unat metasize) s) (\<lambda>s. Inr (entry, s))))"

text \<open>\<^verbatim>\<open>pageOffset\<close> is a signed \<^verbatim>\<open>long\<close> here: \<^verbatim>\<open>ptrInt\<close> may lie below the page of
  \<^verbatim>\<open>oldPtrInt\<close>, and the shift is arithmetic.\<close>

definition metaset_fast ::
  "nat \<Rightarrow> u64 \<Rightarrow> u64 \<Rightarrow> u8 list \<Rightarrow> u64 \<Rightarrow> u64 \<Rightarrow> u64 \<Rightarrow> metalloc \<Rightarrow> (u64 \<times> metalloc) res" where
  "metaset_fast N ptrInt count value alignment entry oldPtrInt s =
     (let page = oldPtrInt div METALLOC_PAGESIZE;
          metabase = drop_bit 8 entry;
          pageOffset = ptrInt - page * METALLOC_PAGESIZE;
          metaptr = metabase + signed_drop_bit (unat alignment) pageOffset * of_nat N;
          metasize = metasize_of count alignment
      in bindR (meta_fill value metaptr (unat metasize) s) (\<lambda>s. Inr (entry, s)))"

definition metaset_fixed :: "nat \<Rightarrow> u64 \<Rightarrow> u64 \<Rightarrow> u8 list \<Rightarrow> metalloc \<Rightarrow> (u64 \<times> metalloc) res" where
  "metaset_fixed N ptrInt count value s =
     (let pos = ptrInt div METALLOC_FIXEDSIZE;
          metaptr = pageTable_base + pos * of_nat N;
          metasize = (count + METALLOC_FIXEDSIZE - 1) div METALLOC_FIXEDSIZE
      in bindR (meta_fill value metaptr (unat metasize) s) (\<lambda>s. Inr (0, s)))"

subsection \<open>metaget.c\<close>

definition metabaseget :: "u64 \<Rightarrow> metalloc \<Rightarrow> u64 res" where
  "metabaseget ptrInt s = pt_read s (ptrInt div METALLOC_PAGESIZE)"

text \<open>The zero value of an unmapped page is built eight bytes at a time, so for slots of 1, 2
  and 4 bytes the loop body never runs and the local keeps the stack's bytes \<open>uninit\<close>.\<close>

definition meta_zero :: "nat \<Rightarrow> u8 list \<Rightarrow> u8 list" where
  "meta_zero N uninit = replicate (8 * (N div 8)) 0 @ drop (8 * (N div 8)) (take N uninit)"

definition metaget :: "nat \<Rightarrow> u8 list \<Rightarrow> u64 \<Rightarrow> metalloc \<Rightarrow> u8 list res" where
  "metaget N uninit ptrInt s =
     (let page = ptrInt div METALLOC_PAGESIZE in
      bindR (pt_read s page) (\<lambda>entry.
        if entry = 0 then Inr (meta_zero N uninit)
        else of_opt Segv (load_bytes (mmem s) (metaptr_of N entry ptrInt page) N)))"

definition metaget_deep :: "nat \<Rightarrow> u64 \<Rightarrow> metalloc \<Rightarrow> u8 list res" where
  "metaget_deep N ptrInt s =
     (let page = ptrInt div METALLOC_PAGESIZE in
      bindR (pt_read s page) (\<lambda>entry.
      bindR (of_opt Segv (load64 (mmem s) (metaptr_of 8 entry ptrInt page))) (\<lambda>deep.
        of_opt Segv (load_bytes (mmem s) deep N))))"

definition metaget_fixed :: "nat \<Rightarrow> u64 \<Rightarrow> metalloc \<Rightarrow> u8 list res" where
  "metaget_fixed N ptrInt s =
     (let pos = ptrInt div METALLOC_FIXEDSIZE;
          metaptr = pageTable_base + pos
      in of_opt Segv (load_bytes (mmem s) metaptr N))"

definition metaget_base :: "nat \<Rightarrow> u64 \<Rightarrow> u64 \<Rightarrow> u64 \<Rightarrow> metalloc \<Rightarrow> u8 list res" where
  "metaget_base N ptrInt entry oldPtrInt s =
     (let page = oldPtrInt div METALLOC_PAGESIZE
      in of_opt Segv (load_bytes (mmem s) (metaptr_of N entry ptrInt page) N))"

definition metaget_base_deep :: "nat \<Rightarrow> u64 \<Rightarrow> u64 \<Rightarrow> u64 \<Rightarrow> metalloc \<Rightarrow> u8 list res" where
  "metaget_base_deep N ptrInt entry oldPtrInt s =
     (let page = oldPtrInt div METALLOC_PAGESIZE in
      bindR (of_opt Segv (load64 (mmem s) (metaptr_of 8 entry ptrInt page))) (\<lambda>deep.
        of_opt Segv (load_bytes (mmem s) deep N)))"

subsection \<open>metacheck.c\<close>

definition metacheck :: "u8 list \<Rightarrow> u8 list \<Rightarrow> unit res" where
  "metacheck metadata value = (if metadata \<noteq> value then Inl Trap else Inr ())"

subsection \<open>defaulthooks.c and demohooks.c\<close>

text \<open>The two files' \<^verbatim>\<open>set_metadata\<close> differ in one guard: only the default hooks skip the deep
  metadata when there is none (\<open>nullcheck\<close>).  \<open>fill_slots\<close> and \<open>fill_slot\<close> are the outer and the inner of the two
  loops that store one byte at a time at \<^verbatim>\<open>metaptr[i * FLAGS_METALLOC_METADATABYTES + j]\<close>.\<close>

fun fill_slot :: "u8 \<Rightarrow> u64 \<Rightarrow> u64 \<Rightarrow> nat \<Rightarrow> mem \<Rightarrow> mem option" where
  "fill_slot value metaptr k 0 m = Some m"
| "fill_slot value metaptr k (Suc n) m =
     (if m (metaptr + k) = None then None else fill_slot value metaptr (k + 1) n (m(metaptr + k \<mapsto> value)))"

fun fill_slots :: "u8 \<Rightarrow> u64 \<Rightarrow> u64 \<Rightarrow> u64 \<Rightarrow> nat \<Rightarrow> mem \<Rightarrow> mem option" where
  "fill_slots value metaptr N i 0 m = Some m"
| "fill_slots value metaptr N i (Suc k) m =
     (case fill_slot value metaptr (i * N) (unat N) m of None \<Rightarrow> None
      | Some m' \<Rightarrow> fill_slots value metaptr N (i + 1) k m')"

definition byte_fill :: "u8 \<Rightarrow> u64 \<Rightarrow> u64 \<Rightarrow> nat \<Rightarrow> metalloc \<Rightarrow> metalloc res" where
  "byte_fill value metaptr N k s =
     bindR (of_opt Segv (fill_slots value metaptr N 0 k (mmem s))) (\<lambda>m. Inr (s\<lparr>mmem := m\<rparr>))"

definition set_metadata_with ::
  "bool \<Rightarrow> config \<Rightarrow> u64 \<Rightarrow> u64 \<Rightarrow> u64 \<Rightarrow> u8 \<Rightarrow> metalloc \<Rightarrow> metalloc res" where
  "set_metadata_with nullcheck c ptr deepmetadata sz value s =
     (if \<not> fixedCompression c then
        let page = ptr div METALLOC_PAGESIZE in
        bindR (pt_read s page) (\<lambda>entry.
          let alignment = entry AND 0xFF;
              metaptr = metaptr_of (unat (metadataBytes c)) entry ptr page;
              metasize = metasize_of sz alignment
          in if deepMetadata c then
               bindR (meta_fill (u64_bytes deepmetadata) metaptr (unat metasize) s) (\<lambda>s.
                 if nullcheck \<and> deepmetadata = 0 then Inr s
                 else meta_fill (u64_bytes (ucast value)) deepmetadata
                        (unat (deepMetadataBytes c div 8)) s)
             else byte_fill value metaptr (metadataBytes c) (unat metasize) s)
      else
        let pos = ptr div METALLOC_FIXEDSIZE;
            metaptr = pageTable_base + pos;
            metasize = (sz + METALLOC_FIXEDSIZE - 1) div METALLOC_FIXEDSIZE
        in byte_fill value metaptr (metadataBytes c) (unat metasize) s)"

definition set_metadata :: "config \<Rightarrow> u64 \<Rightarrow> u64 \<Rightarrow> u64 \<Rightarrow> u8 \<Rightarrow> metalloc \<Rightarrow> metalloc res" where
  "set_metadata = set_metadata_with True"

definition default_alloc_hook :: "config \<Rightarrow> u64 \<Rightarrow> u64 \<Rightarrow> u64 \<Rightarrow> u64 \<Rightarrow> metalloc \<Rightarrow> metalloc res" where
  "default_alloc_hook c ptr deepmetadata content_size allocation_size s =
     set_metadata c ptr deepmetadata allocation_size 0 s"

definition demo_set_metadata :: "config \<Rightarrow> u64 \<Rightarrow> u64 \<Rightarrow> u64 \<Rightarrow> u8 \<Rightarrow> metalloc \<Rightarrow> metalloc res" where
  "demo_set_metadata = set_metadata_with False"

definition get_deepmetadata_ptr :: "u64 \<Rightarrow> metalloc \<Rightarrow> u64 res" where
  "get_deepmetadata_ptr ptr s =
     (let page = ptr div METALLOC_PAGESIZE in
      bindR (pt_read s page) (\<lambda>entry.
        of_opt Segv (load64 (mmem s) (metaptr_of 8 entry ptr page))))"

definition demo_alloc_size_hook :: "u64 \<Rightarrow> u64" where
  "demo_alloc_size_hook sz = 2 * sz"

definition demo_alloc_hook :: "config \<Rightarrow> u64 \<Rightarrow> u64 \<Rightarrow> u64 \<Rightarrow> u64 \<Rightarrow> metalloc \<Rightarrow> metalloc res" where
  "demo_alloc_hook c ptr deepmetadata content_size allocation_size s =
     (if content_size = allocation_size then Inl Trap
      else demo_set_metadata c ptr deepmetadata allocation_size 0 s)"

definition demo_resize_hook :: "config \<Rightarrow> u64 \<Rightarrow> u64 \<Rightarrow> u64 \<Rightarrow> metalloc \<Rightarrow> metalloc res" where
  "demo_resize_hook c ptr content_size allocation_size s =
     bindR (get_deepmetadata_ptr ptr s) (\<lambda>d. demo_set_metadata c ptr d allocation_size 0 s)"

definition demo_free_hook :: "config \<Rightarrow> u64 \<Rightarrow> u64 \<Rightarrow> metalloc \<Rightarrow> metalloc res" where
  "demo_free_hook c ptr sz s =
     bindR (get_deepmetadata_ptr ptr s) (\<lambda>d. demo_set_metadata c ptr d sz 1 s)"

subsection \<open>metadata.h: which functions the passes leave alone\<close>

definition METADATAFUNCS :: "string list" where
  "METADATAFUNCS = [''metaset_1'', ''metaset_2'', ''metaset_4'', ''metaset_8'', ''metaset_16'',
    ''metaset_alignment_1'', ''metaset_alignment_2'', ''metaset_alignment_4'',
    ''metaset_alignment_8'', ''metaset_alignment_16'',
    ''metaset_alignment_safe_1'', ''metaset_alignment_safe_2'', ''metaset_alignment_safe_4'',
    ''metaset_alignment_safe_8'', ''metaset_alignment_safe_16'',
    ''metaset_fast_1'', ''metaset_fast_2'', ''metaset_fast_4'', ''metaset_fast_8'', ''metaset_fast_16'',
    ''metaset_fixed_1'', ''metaset_fixed_2'', ''metaset_fixed_4'', ''metaset_fixed_8'', ''metaset_fixed_16'',
    ''metabaseget'',
    ''metaget_1'', ''metaget_2'', ''metaget_4'', ''metaget_8'', ''metaget_16'',
    ''metaget_deep_8'', ''metaget_deep_16'', ''metaget_deep_32'',
    ''metaget_fixed_1'', ''metaget_fixed_2'', ''metaget_fixed_4'', ''metaget_fixed_8'',
    ''metaget_base_1'', ''metaget_base_2'', ''metaget_base_4'', ''metaget_base_8'', ''metaget_base_16'',
    ''metaget_base_deep_8'', ''metaget_base_deep_16'', ''metaget_base_deep_32'',
    ''metacheck_1'', ''metacheck_2'', ''metacheck_4'', ''metacheck_8'', ''metacheck_16'',
    ''initialize_global_metadata'', ''initialize_metadata'', ''unsafe_stack_alloc_meta'',
    ''unsafe_stack_free_meta'',
    ''inlinedang_init_globalobj'', ''inlinedang_registerptr'']"

text \<open>C strings are lists without the terminating NUL; \<^verbatim>\<open>cchar\<close> is what \<^verbatim>\<open>*p\<close> reads.\<close>

definition cchar :: "string \<Rightarrow> char" where
  "cchar s = (case s of [] \<Rightarrow> CHR 0x00 | ch # _ \<Rightarrow> ch)"

fun strncmp_eq :: "nat \<Rightarrow> string \<Rightarrow> string \<Rightarrow> bool" where
  "strncmp_eq 0 xs ys = True"
| "strncmp_eq (Suc n) [] ys = (ys = [])"
| "strncmp_eq (Suc n) (x # xs) [] = False"
| "strncmp_eq (Suc n) (x # xs) (y # ys) = (x = y \<and> strncmp_eq n xs ys)"

text \<open>The inner \<^verbatim>\<open>while\<close> with its \<^verbatim>\<open>break\<close>: the flag and the two pointers where it stopped.\<close>

fun name_scan :: "string \<Rightarrow> string \<Rightarrow> bool \<times> string \<times> string" where
  "name_scan (x # lhs) (y # rhs) = (if x \<noteq> y then (True, lhs, rhs) else name_scan lhs rhs)"
| "name_scan lhs rhs = (False, lhs, rhs)"

definition name_different :: "string \<Rightarrow> string \<Rightarrow> bool" where
  "name_different lhs0 rhs0 =
     (case name_scan lhs0 rhs0 of (different, lhs, rhs) \<Rightarrow>
        if cchar lhs \<noteq> cchar rhs then True else different)"

fun ismeta_loop :: "string list \<Rightarrow> string \<Rightarrow> bool" where
  "ismeta_loop [] name = False"
| "ismeta_loop (f # fs) name = (if \<not> name_different f name then True else ismeta_loop fs name)"

definition ISMETADATAFUNC :: "string \<Rightarrow> bool" where
  "ISMETADATAFUNC name =
     (if strncmp_eq 5 name ''dang_'' then True else ismeta_loop METADATAFUNCS name)"

subsection \<open>Filling slots\<close>

lemma metaset_loop_correct:
  assumes "length v = N"
  shows "mapped m p (k * N) \<Longrightarrow> k * N \<le> 2 ^ 64 \<Longrightarrow>
    \<exists>m'. metaset_loop v p k m = Some m' \<and> dom m' = dom m \<and>
      (\<forall>i<k. load_bytes m' (p + of_nat (i * N)) N = Some v) \<and>
      (\<forall>x. x \<notin> addrs p (k * N) \<longrightarrow> m' x = m x)"
proof (induction k arbitrary: m p)
  case 0
  then show ?case by simp
next
  case (Suc k)
  have len: "length v \<le> 2 ^ 64" "N + k * N \<le> 2 ^ 64" using Suc.prems(2) assms by simp_all
  note app = addrs_append[OF len(2), of p]
  have sub: "addrs p (N + k * N) \<subseteq> dom m"
    using Suc.prems mapped_iff_addrs[of "Suc k * N" m p] by simp
  have "mapped m p N" using Suc.prems(1) by (rule mapped_mono) simp
  then obtain m1 where m1: "store_bytes m p v = Some m1"
    using store_bytes_mapped[of m p v] assms by auto
  have dom1: "dom m1 = dom m" using store_bytes_dom[OF m1] .
  have "mapped m1 (p + of_nat N) (k * N)"
    using mapped_iff_addrs[of "k * N" m1] sub app(1) len(2) dom1 by auto
  moreover have "k * N \<le> 2 ^ 64" using len(2) by linarith
  ultimately obtain m' where run: "metaset_loop v (p + of_nat N) k m1 = Some m'" and dom': "dom m' = dom m1"
    and slots: "\<forall>i<k. load_bytes m' (p + of_nat N + of_nat (i * N)) N = Some v"
    and keep: "\<forall>x. x \<notin> addrs (p + of_nat N) (k * N) \<longrightarrow> m' x = m1 x"
    using Suc.IH by blast
  have "load_bytes m' p N = load_bytes m1 p N"
    by (rule load_bytes_cong) (use keep app(2) len assms in auto)
  then have first: "load_bytes m' p N = Some v" using load_store_same[OF m1 len(1)] assms by simp
  have "load_bytes m' (p + of_nat (i * N)) N = Some v" if "i < Suc k" for i
    using first slots that by (cases i) (auto simp: algebra_simps)
  moreover have "m' x = m x" if "x \<notin> addrs p (Suc k * N)" for x
    using that keep app(1) store_bytes_other[OF m1 len(1)] assms by auto
  ultimately show ?case using m1 run dom' dom1 assms by auto
qed

lemma int_shl1_pow: 
  assumes "unat a < 31" shows "int_shl1 a = 2 ^ unat a"
proof -
  have m: "unat a mod 32 = unat a" using assms by simp
  show ?thesis unfolding int_shl1_def m
    by (intro bit_word_eqI) (use assms in \<open>auto simp: bit_signed_iff bit_push_bit_iff bit_exp_iff min_def\<close>)
qed

lemma unat_pow2: "k < 64 \<Longrightarrow> unat (2 ^ k :: u64) = 2 ^ k"
proof -
  assume "k < 64"
  then have "(2::nat) ^ k < 2 ^ 64" by (rule power_strict_increasing) simp
  then show ?thesis using unat_of_nat64[of "2 ^ k"] by simp
qed

lemma unat_metasize_of:
  assumes "unat a < 31" "unat cnt < 2 ^ 63"
  shows "unat (metasize_of cnt a) = (unat cnt + 2 ^ unat a - 1) div 2 ^ unat a"
proof -
  have p31: "(2::nat) ^ unat a < 2 ^ 31" using assms(1) by (rule power_strict_increasing) simp
  have u: "unat (2 ^ unat a :: u64) = 2 ^ unat a" using assms(1) by (intro unat_pow2) simp
  have s: "unat (cnt + 2 ^ unat a) = unat cnt + 2 ^ unat a"
    using unat_add_small[of cnt "2 ^ unat a"] assms(2) p31 unfolding u by simp
  have "cnt + 2 ^ unat a \<noteq> 0" using s by (metis add_is_0 power_not_zero unsigned_0 zero_neq_numeral)
  then have "unat (cnt + 2 ^ unat a - 1) = unat cnt + 2 ^ unat a - 1"
    using unat_minus_one s by metis
  then show ?thesis unfolding metasize_of_def int_shl1_pow[OF assms(1)]
    by (simp only: unat_drop_bit_eq drop_bit_eq_div[where 'a = nat])
qed

subsection \<open>The contract of a metadata store\<close>

text \<open>
  What the clients of the metadata rely on: writing a value over an object that has metadata
  succeeds, every address inside the object then reads it, and an address whose metadata is
  apart from the object's reads what it read before.
\<close>

locale metadata_store =
  fixes get_meta :: "'s \<Rightarrow> u64 \<Rightarrow> 'v res"
    and set_meta :: "u64 \<Rightarrow> u64 \<Rightarrow> 'v \<Rightarrow> 's \<Rightarrow> 's res"
    and covers :: "'s \<Rightarrow> u64 \<Rightarrow> u64 \<Rightarrow> bool"
    and apart :: "'s \<Rightarrow> u64 \<Rightarrow> u64 \<Rightarrow> u64 \<Rightarrow> bool"
    and valid :: "'v \<Rightarrow> bool"
  assumes set_returns: "covers s p n \<Longrightarrow> valid v \<Longrightarrow> \<exists>s'. set_meta p n v s = Inr s'"
    and get_set: "covers s p n \<Longrightarrow> valid v \<Longrightarrow> set_meta p n v s = Inr s' \<Longrightarrow>
      unat p \<le> unat q \<Longrightarrow> unat q < unat p + unat n \<Longrightarrow> get_meta s' q = Inr v"
    and get_other: "covers s p n \<Longrightarrow> valid v \<Longrightarrow> set_meta p n v s = Inr s' \<Longrightarrow>
      apart s p n q \<Longrightarrow> get_meta s' q = get_meta s q"
    and covers_set: "covers s p n \<Longrightarrow> valid v \<Longrightarrow> set_meta p n v s = Inr s' \<Longrightarrow>
      covers s' p' n' = covers s p' n'"
    and apart_set: "covers s p n \<Longrightarrow> valid v \<Longrightarrow> set_meta p n v s = Inr s' \<Longrightarrow>
      apart s' p' n' q = apart s p' n' q"
begin

fun set_all :: "(u64 \<times> u64 \<times> 'v) list \<Rightarrow> 's \<Rightarrow> 's res" where
  "set_all [] s = Inr s"
| "set_all ((p, n, v) # os) s = bindR (set_meta p n v s) (set_all os)"

lemma set_all_other:
  assumes "set_all os s = Inr s'" "\<forall>(p, n, v)\<in>set os. covers s p n \<and> valid v \<and> apart s p n q"
  shows "get_meta s' q = get_meta s q"
  using assms
proof (induction os arbitrary: s)
  case (Cons x os)
  obtain p n v where x: "x = (p, n, v)" by (cases x)
  with Cons.prems obtain s1 where s1: "set_meta p n v s = Inr s1" and run: "set_all os s1 = Inr s'"
    by (auto simp: bindR_eq_Inr)
  have pc: "covers s p n" "valid v" "apart s p n q" using Cons.prems(2) x by auto
  have "\<forall>(p, n, v)\<in>set os. covers s1 p n \<and> valid v \<and> apart s1 p n q"
    using Cons.prems(2) covers_set[OF pc(1,2) s1] apart_set[OF pc(1,2) s1] by auto
  with Cons.IH[OF run] have "get_meta s' q = get_meta s1 q" by blast
  with get_other[OF pc(1,2) s1 pc(3)] show ?case by simp
qed simp

text \<open>The last value written to an object is what its addresses read, whatever is written to
  objects apart from it afterwards.\<close>

lemma set_then_others:
  assumes "covers s p n" "valid v" "set_meta p n v s = Inr s1" "set_all os s1 = Inr s'"
    and "unat p \<le> unat q" "unat q < unat p + unat n"
    and "\<forall>(p', n', v')\<in>set os. covers s p' n' \<and> valid v' \<and> apart s p' n' q"
  shows "get_meta s' q = Inr v"
proof -
  have "\<forall>(p', n', v')\<in>set os. covers s1 p' n' \<and> valid v' \<and> apart s1 p' n' q"
    using assms(7) covers_set[OF assms(1-3)] apart_set[OF assms(1-3)] by auto
  from set_all_other[OF assms(4) this] get_set[OF assms(1-3,5,6)] show ?thesis by simp
qed

end

subsection \<open>metaset and metaget meet it\<close>

definition metaptr_at :: "nat \<Rightarrow> metalloc \<Rightarrow> u64 \<Rightarrow> (u64 \<times> u64) res" where
  "metaptr_at N s q =
     bindR (pt_read s (q div METALLOC_PAGESIZE)) (\<lambda>e.
       Inr (e, metaptr_of N e q (q div METALLOC_PAGESIZE)))"

definition meta_covers :: "nat \<Rightarrow> metalloc \<Rightarrow> u64 \<Rightarrow> u64 \<Rightarrow> bool" where
  "meta_covers N s p cnt \<longleftrightarrow> (\<exists>e base k. metaptr_at N s p = Inr (e, base) \<and>
     k = unat (metasize_of cnt (e AND 0xFF)) \<and> k * N \<le> 2 ^ 64 \<and> mapped (mmem s) base (k * N) \<and>
     (\<forall>q. unat p \<le> unat q \<and> unat q < unat p + unat cnt \<longrightarrow>
        (\<exists>e' i. metaptr_at N s q = Inr (e', base + of_nat (i * N)) \<and> e' \<noteq> 0 \<and> i < k)))"

definition meta_apart :: "nat \<Rightarrow> metalloc \<Rightarrow> u64 \<Rightarrow> u64 \<Rightarrow> u64 \<Rightarrow> bool" where
  "meta_apart N s p cnt q \<longleftrightarrow> (\<exists>e base e' base'. metaptr_at N s p = Inr (e, base) \<and>
     metaptr_at N s q = Inr (e', base') \<and>
     (e' = 0 \<or> addrs base' N \<inter> addrs base (unat (metasize_of cnt (e AND 0xFF)) * N) = {}))"

definition metaset_state :: "nat \<Rightarrow> u64 \<Rightarrow> u64 \<Rightarrow> u8 list \<Rightarrow> metalloc \<Rightarrow> metalloc res" where
  "metaset_state N p cnt v s = bindR (metaset N p cnt v s) (\<lambda>(_, s'). Inr s')"

lemma metaptr_at_mmem [simp]: "metaptr_at N (s\<lparr>mmem := m\<rparr>) q = metaptr_at N s q"
  by (simp add: metaptr_at_def pt_read_def)

lemma metaget_eq:
  "metaptr_at N s q = Inr (e, b) \<Longrightarrow>
     metaget N u q s = (if e = 0 then Inr (meta_zero N u) else of_opt Segv (load_bytes (mmem s) b N))"
  by (auto simp: metaget_def metaptr_at_def bindR_eq_Inr Let_def)

lemma metaset_run:
  assumes "meta_covers N s p cnt" "length v = N"
  obtains e base k m' where "metaptr_at N s p = Inr (e, base)"
    "k = unat (metasize_of cnt (e AND 0xFF))" "k * N \<le> 2 ^ 64"
    "metaset N p cnt v s = Inr (e, s\<lparr>mmem := m'\<rparr>)" "dom m' = dom (mmem s)"
    "\<forall>i<k. load_bytes m' (base + of_nat (i * N)) N = Some v"
    "\<forall>x. x \<notin> addrs base (k * N) \<longrightarrow> m' x = mmem s x"
proof -
  obtain e base k where a: "metaptr_at N s p = Inr (e, base)"
    and k: "k = unat (metasize_of cnt (e AND 0xFF))" "k * N \<le> 2 ^ 64" "mapped (mmem s) base (k * N)"
    using assms(1) unfolding meta_covers_def by blast
  obtain m' where m': "metaset_loop v base k (mmem s) = Some m'" "dom m' = dom (mmem s)"
    "\<forall>i<k. load_bytes m' (base + of_nat (i * N)) N = Some v"
    "\<forall>x. x \<notin> addrs base (k * N) \<longrightarrow> m' x = mmem s x"
    using metaset_loop_correct[OF assms(2) k(3,2)] by blast
  have "pt_read s (p div METALLOC_PAGESIZE) = Inr e" "base = metaptr_of N e p (p div METALLOC_PAGESIZE)"
    using a by (auto simp: metaptr_at_def bindR_eq_Inr)
  then have "metaset N p cnt v s = Inr (e, s\<lparr>mmem := m'\<rparr>)"
    using m'(1) k(1) by (simp add: metaset_def meta_fill_def Let_def)
  then show ?thesis using that a k(1,2) m' by blast
qed

lemma load_bytes_apart:
  assumes "\<forall>x. x \<notin> A \<longrightarrow> m' x = m x" "addrs b N \<inter> A = {}" "N \<le> 2 ^ 64"
  shows "load_bytes m' b N = load_bytes m b N"
  by (rule load_bytes_cong) (use assms in auto)

lemma metaset_state_run:
  assumes "meta_covers N s p cnt" "length v = N" "metaset_state N p cnt v s = Inr s'"
  obtains e base k m' where "metaptr_at N s p = Inr (e, base)" "s' = s\<lparr>mmem := m'\<rparr>"
    "k = unat (metasize_of cnt (e AND 0xFF))" "k * N \<le> 2 ^ 64" "dom m' = dom (mmem s)"
    "\<forall>i<k. load_bytes m' (base + of_nat (i * N)) N = Some v"
    "\<forall>x. x \<notin> addrs base (k * N) \<longrightarrow> m' x = mmem s x"
  by (rule metaset_run[OF assms(1,2)]) (use assms(3) that in \<open>auto simp: metaset_state_def\<close>)

lemma meta_covers_dom:
  "dom m' = dom (mmem s) \<Longrightarrow> meta_covers N (s\<lparr>mmem := m'\<rparr>) p cnt = meta_covers N s p cnt"
  unfolding meta_covers_def metaptr_at_mmem using mapped_cong_dom[of m' "mmem s"] by simp

lemma metaget_metaset_same:
  assumes "meta_covers N s p cnt" "length v = N" "metaset_state N p cnt v s = Inr s'"
    and q: "unat p \<le> unat q" "unat q < unat p + unat cnt"
  shows "metaget N u q s' = Inr v"
proof -
  obtain e base k m' where r: "metaptr_at N s p = Inr (e, base)" "s' = s\<lparr>mmem := m'\<rparr>"
    "k = unat (metasize_of cnt (e AND 0xFF))"
    "\<forall>i<k. load_bytes m' (base + of_nat (i * N)) N = Some v"
    using metaset_state_run[OF assms(1-3)] by metis
  obtain e' i where "metaptr_at N s q = Inr (e', base + of_nat (i * N))" "e' \<noteq> 0" "i < k"
    using assms(1) q r(1,3) unfolding meta_covers_def by auto
  then show ?thesis using metaget_eq[of N s' q e' "base + of_nat (i * N)" u] r by simp
qed

lemma metaget_metaset_other:
  assumes "meta_covers N s p cnt" "length v = N" "metaset_state N p cnt v s = Inr s'"
    and "meta_apart N s p cnt q" "N \<le> 2 ^ 64"
  shows "metaget N u q s' = metaget N u q s"
proof -
  obtain e base k m' where r: "metaptr_at N s p = Inr (e, base)" "s' = s\<lparr>mmem := m'\<rparr>"
    "k = unat (metasize_of cnt (e AND 0xFF))"
    "\<forall>x. x \<notin> addrs base (k * N) \<longrightarrow> m' x = mmem s x"
    using metaset_state_run[OF assms(1-3)] by metis
  obtain e' b where q: "metaptr_at N s q = Inr (e', b)" "e' = 0 \<or> addrs b N \<inter> addrs base (k * N) = {}"
    using assms(4) r(1,3) unfolding meta_apart_def by auto
  have "metaptr_at N s' q = Inr (e', b)" using q(1) r(2) by simp
  then show ?thesis using metaget_eq q r(2) load_bytes_apart[OF r(4) _ assms(5)] by auto
qed

interpretation mget: metadata_store "\<lambda>s q. metaget N u q s" "metaset_state N"
    "meta_covers N" "meta_apart N" "\<lambda>v. length v = N \<and> N \<le> 2 ^ 64" for N u
proof (unfold_locales, goal_cases)
  case (1 s p n v)
  then show ?case by (elim conjE metaset_run) (auto simp: metaset_state_def)
next
  case (2 s p n v s' q)
  then show ?case using metaget_metaset_same by blast
next
  case (3 s p n v s' q)
  then show ?case using metaget_metaset_other by blast
next
  case (4 s p n v s' p' n')
  then show ?case using metaset_state_run meta_covers_dom by metis
next
  case (5 s p n v s' p' n' q)
  then show ?case by (elim conjE metaset_state_run) (auto simp: meta_apart_def)
qed

subsection \<open>Registered regions are covered\<close>

text \<open>How many metadata slots \<open>b\<close> bytes need at granularity \<open>2 ^ a\<close>.\<close>

definition slots :: "nat \<Rightarrow> u32 \<Rightarrow> nat" where
  "slots b a = (b + 2 ^ unat a - 1) div 2 ^ unat a"

lemma slots_less:
  assumes "i < b" shows "i div 2 ^ unat a < slots b a"
proof -
  have "i div 2 ^ unat a * 2 ^ unat a \<le> i" by (rule div_times_less_eq_dividend)
  then have "Suc (i div 2 ^ unat a) * 2 ^ unat a \<le> b + 2 ^ unat a - 1"
    unfolding mult_Suc using assms by linarith
  then show ?thesis unfolding slots_def by (simp add: less_eq_div_iff_mult_less_eq flip: Suc_le_eq)
qed

lemma slots_add:
  assumes "2 ^ unat a dvd d" shows "d div 2 ^ unat a + slots b a = slots (d + b) a"
proof -
  obtain x where x: "d = 2 ^ unat a * x" using assms by auto
  have "1 \<le> (2::nat) ^ unat a" by simp
  then have "d + b + 2 ^ unat a - 1 = 2 ^ unat a * x + (b + 2 ^ unat a - 1)" unfolding x by linarith
  then show ?thesis unfolding slots_def by (simp add: x)
qed

lemma slots_mono: "b \<le> b' \<Longrightarrow> slots b a \<le> slots b' a"
  unfolding slots_def by (intro div_le_mono diff_le_mono add_le_mono1)

lemma slots_le: "slots b a \<le> b div 2 ^ unat a + 1"
proof -
  have "b + 2 ^ unat a - 1 \<le> b + 2 ^ unat a" by simp
  then have "slots b a \<le> (b + 2 ^ unat a) div 2 ^ unat a" unfolding slots_def by (rule div_le_mono)
  also have "\<dots> = b div 2 ^ unat a + 1" by (rule div_add_self2) simp
  finally show ?thesis .
qed

text \<open>An object inside a registered region, starting at a granule of it.\<close>

definition in_region :: "u64 \<Rightarrow> nat \<Rightarrow> u32 \<Rightarrow> u64 \<Rightarrow> u64 \<Rightarrow> bool" where
  "in_region P n a p cnt \<longleftrightarrow> unat P \<le> unat p \<and> unat p + unat cnt \<le> unat P + n * 4096 \<and>
     unat cnt \<noteq> 0 \<and> 2 ^ unat a dvd unat p - unat P"

definition region_mapped :: "config \<Rightarrow> metalloc \<Rightarrow> u64 \<Rightarrow> nat \<Rightarrow> u64 \<Rightarrow> u32 \<Rightarrow> bool" where
  "region_mapped c s P n M a \<longleftrightarrow> meta_region c s P n M a \<and>
     mapped (mmem s) M (slots (n * 4096) a * unat (metadataBytes c))"

lemma region_metaptr_at:
  assumes "region_mapped c s P n M a" "unat P \<le> unat q" "unat q < unat P + n * 4096"
    and N: "N = unat (metadataBytes c)"
  obtains e where "metaptr_at N s q = Inr (e, M + of_nat ((unat q - unat P) div 2 ^ unat a * N))"
    and "e \<noteq> 0" and "e AND 0xFF = ucast a"
proof -
  have r: "meta_region c s P n M a" using assms(1) by (simp add: region_mapped_def)
  obtain e where e: "pt_read s (q div METALLOC_PAGESIZE) = Inr e" "e AND 0xFF = ucast a"
    "drop_bit 8 e \<noteq> 0"
    "metaptr_of N e q (q div METALLOC_PAGESIZE) = M + of_nat ((unat q - unat P) div 2 ^ unat a * N)"
    using region_metaptr[OF r assms(2,3)] N by metis
  moreover have "e \<noteq> 0" using e(3) by auto
  ultimately show ?thesis using that by (simp add: metaptr_at_def)
qed

lemma region_slots64:
  assumes "region_ok c P n M a" "b \<le> n * 4096"
  shows "slots b a * unat (metadataBytes c) < 2 ^ 56"
proof -
  have "slots b a \<le> n * 4096 div 2 ^ unat a + 1"
    using slots_mono[OF assms(2), of a] slots_le[of "n * 4096" a] by linarith
  then have "slots b a * unat (metadataBytes c) \<le> (n * 4096 div 2 ^ unat a + 1) * unat (metadataBytes c)"
    by (rule mult_le_mono1)
  then show ?thesis using assms(1) unfolding region_ok_def by linarith
qed

lemma region_metasize:
  assumes "region_ok c P n M a" "unat P + unat cnt \<le> unat P + n * 4096"
  shows "unat (metasize_of cnt (ucast a)) = slots (unat cnt) a"
proof -
  have a: "unat a < 31" and n: "unat P + n * 4096 \<le> 2 ^ 48" using assms(1) by (auto simp: region_ok_def)
  then have u: "unat (ucast a :: u64) = unat a" by (simp add: unsigned_ucast_eq take_bit_nat_eq_self)
  have "unat cnt < 2 ^ 63" using assms(2) n by simp
  then show ?thesis using unat_metasize_of[of "ucast a" cnt] a unfolding u slots_def by simp
qed

lemma region_covers:
  assumes reg: "region_mapped c s P n M a" and obj: "in_region P n a p cnt"
    and N: "N = unat (metadataBytes c)"
  shows "meta_covers N s p cnt"
proof -
  have ok: "region_ok c P n M a" using reg by (simp add: region_mapped_def meta_region_def)
  have p: "unat P \<le> unat p" "unat p + unat cnt \<le> unat P + n * 4096" "unat cnt \<noteq> 0"
    and dv: "2 ^ unat a dvd unat p - unat P" using obj by (auto simp: in_region_def)
  define d where "d = (unat p - unat P) div 2 ^ unat a"
  have "unat p < unat P + n * 4096" using p by linarith
  then obtain e where e: "metaptr_at N s p = Inr (e, M + of_nat (d * N))" "e AND 0xFF = ucast a"
    using region_metaptr_at[OF reg p(1) _ N] unfolding d_def by blast
  define k where "k = slots (unat cnt) a"
  have k: "k = unat (metasize_of cnt (e AND 0xFF))"
    using region_metasize[OF ok, of cnt] p e(2) by (simp add: k_def)
  have dk: "d + k = slots (unat p - unat P + unat cnt) a" unfolding d_def k_def by (rule slots_add[OF dv])
  have le: "(d + k) * N \<le> slots (n * 4096) a * N"
    unfolding dk using p by (intro mult_le_mono1 slots_mono) linarith
  moreover have "mapped (mmem s) M (slots (n * 4096) a * N)" using reg N by (simp add: region_mapped_def)
  ultimately have "mapped (mmem s) (M + of_nat (d * N)) (k * N)"
    by (intro mapped_sub[of _ M "slots (n * 4096) a * N"]) (simp_all add: distrib_right)
  moreover have "k * N \<le> 2 ^ 64"
    using region_slots64[OF ok, of "unat cnt"] p N unfolding k_def by simp
  moreover have "\<exists>e' i. metaptr_at N s q = Inr (e', M + of_nat (d * N) + of_nat (i * N)) \<and> e' \<noteq> 0 \<and> i < k"
    if q: "unat p \<le> unat q" "unat q < unat p + unat cnt" for q
  proof -
    have "unat P \<le> unat q" "unat q < unat P + n * 4096" using p q by linarith+
    then obtain e' where e': "metaptr_at N s q = Inr (e', M + of_nat ((unat q - unat P) div 2 ^ unat a * N))"
      "e' \<noteq> 0" using region_metaptr_at[OF reg _ _ N] by blast
    have "unat q - unat P = (unat p - unat P) + (unat q - unat p)" using p q by linarith
    then have "(unat q - unat P) div 2 ^ unat a = d + (unat q - unat p) div 2 ^ unat a"
      unfolding d_def using dv by (metis div_plus_div_distrib_dvd_left)
    moreover have "(unat q - unat p) div 2 ^ unat a < k"
      unfolding k_def by (rule slots_less) (use q in linarith)
    ultimately show ?thesis using e' by (intro exI[of _ e'] exI[of _ "(unat q - unat p) div 2 ^ unat a"])
        (simp add: algebra_simps)
  qed
  ultimately show ?thesis using e(1) k unfolding meta_covers_def by blast
qed

lemma region_apart:
  assumes reg: "region_mapped c s P n M a" and obj: "in_region P n a p cnt"
    and N: "N = unat (metadataBytes c)" and q: "unat P \<le> unat q" "unat q < unat P + n * 4096"
    and out: "unat q < unat p \<or> unat p + slots (unat cnt) a * 2 ^ unat a \<le> unat q"
  shows "meta_apart N s p cnt q"
proof -
  have ok: "region_ok c P n M a" using reg by (simp add: region_mapped_def meta_region_def)
  have p: "unat P \<le> unat p" "unat p + unat cnt \<le> unat P + n * 4096" "unat cnt \<noteq> 0"
    and dv: "2 ^ unat a dvd unat p - unat P" using obj by (auto simp: in_region_def)
  define d where "d = (unat p - unat P) div 2 ^ unat a"
  define i where "i = (unat q - unat P) div 2 ^ unat a"
  define k where "k = slots (unat cnt) a"
  have "unat p < unat P + n * 4096" using p by linarith
  then obtain e where e: "metaptr_at N s p = Inr (e, M + of_nat (d * N))" "e AND 0xFF = ucast a"
    using region_metaptr_at[OF reg p(1) _ N] unfolding d_def by blast
  obtain e' where e': "metaptr_at N s q = Inr (e', M + of_nat (i * N))"
    using region_metaptr_at[OF reg q N] unfolding i_def by blast
  have k: "k = unat (metasize_of cnt (e AND 0xFF))"
    using region_metasize[OF ok, of cnt] p e(2) by (simp add: k_def)
  have dd: "d * 2 ^ unat a = unat p - unat P" unfolding d_def using dv by simp
  have "i < d \<or> d + k \<le> i"
  proof (cases "unat q < unat p")
    case True
    then have "i < d" unfolding i_def using dd q by (simp add: div_less_iff_less_mult)
    then show ?thesis ..
  next
    case False
    then have "(d + k) * 2 ^ unat a \<le> unat q - unat P"
      using out dd p unfolding k_def distrib_right by linarith
    then have "d + k \<le> i" unfolding i_def by (simp add: less_eq_div_iff_mult_less_eq)
    then show ?thesis ..
  qed
  then have "Suc i \<le> d \<or> d + k \<le> i" by auto
  then have "i * N + N \<le> d * N \<or> d * N + k * N \<le> i * N"
    using mult_le_mono1[of "Suc i" d N] mult_le_mono1[of "d + k" i N] by (auto simp: distrib_right)
  moreover have "Suc i \<le> slots (n * 4096) a" unfolding i_def Suc_le_eq by (rule slots_less) (use q in linarith)
  then have "i * N + N \<le> 2 ^ 64"
    using region_slots64[OF ok order_refl] mult_le_mono1[of "Suc i" "slots (n * 4096) a" N] N by simp
  moreover have "d + k \<le> slots (n * 4096) a"
    unfolding d_def k_def slots_add[OF dv] by (rule slots_mono) (use p in linarith)
  then have "d * N + k * N \<le> 2 ^ 64"
    using region_slots64[OF ok order_refl] mult_le_mono1[of "d + k" "slots (n * 4096) a" N] N
    by (simp add: distrib_right)
  ultimately have "addrs (M + of_nat (i * N)) N \<inter> addrs (M + of_nat (d * N)) (k * N) = {}"
    by (intro addrs_offset_disjoint)
  then show ?thesis unfolding meta_apart_def using e e' k by blast
qed

lemma unat_page_base:
  "unat (r div METALLOC_PAGESIZE * METALLOC_PAGESIZE) = unat r div 4096 * 4096"
proof -
  have "r div METALLOC_PAGESIZE * METALLOC_PAGESIZE + r mod METALLOC_PAGESIZE = r"
    by (rule word_mod_div_equality)
  then have "r div METALLOC_PAGESIZE * METALLOC_PAGESIZE = r - r mod METALLOC_PAGESIZE"
    by (simp add: eq_diff_eq)
  moreover have "r mod METALLOC_PAGESIZE \<le> r" by (simp add: word_le_nat_alt)
  ultimately have "unat (r div METALLOC_PAGESIZE * METALLOC_PAGESIZE) = unat r - unat r mod 4096"
    by (simp add: unat_sub)
  then show ?thesis by (simp only: minus_mod_eq_div_mult)
qed

lemma region_metaptr_base:
  assumes reg: "region_mapped c s P n M a" and a12: "unat a \<le> 12"
    and N: "N = unat (metadataBytes c)"
    and old: "unat P \<le> unat r" "unat r < unat P + n * 4096"
    and q: "unat r div 4096 * 4096 \<le> unat q" "unat q < unat P + n * 4096"
    and e: "metabaseget r s = Inr e"
  shows "metaptr_of N e q (r div METALLOC_PAGESIZE) = M + of_nat ((unat q - unat P) div 2 ^ unat a * N)"
proof -
  have mr: "meta_region c s P n M a" and ok: "region_ok c P n M a"
    using reg by (simp_all add: region_mapped_def meta_region_def)
  have P: "unat P mod 4096 = 0" and Pn: "unat P + n * 4096 \<le> 2 ^ 48" and a: "unat a < 31"
    using ok by (auto simp: region_ok_def)
  obtain i off where i: "i < n" and off: "off < 4096" "off = unat r mod 4096"
    and d: "unat r - unat P = i * 4096 + off"
    and page: "r div METALLOC_PAGESIZE = P div METALLOC_PAGESIZE + of_nat i"
    and p36: "unat (r div METALLOC_PAGESIZE) < 2 ^ 36"
    using region_page[OF ok old] .
  have pg: "unat r div 4096 * 4096 = unat P + i * 4096"
    using d old off by (metis add.assoc add_diff_cancel_right' le_add_diff_inverse minus_mod_eq_div_mult)
  obtain t where t: "pageTable s = Some t" "t (P div METALLOC_PAGESIZE + of_nat i) = entry_value c M a (of_nat i)"
    using mr i by (auto simp: meta_region_def)
  have "e = entry_value c M a (of_nat i)"
    using e t p36 unfolding metabaseget_def pt_read_def page by simp
  note ent = region_entry[OF ok i, folded this N]
  let ?x = "unat q - (unat P + i * 4096)"
  have qx: "unat P + i * 4096 \<le> unat q" using q(1) pg by simp
  have "unat (r div METALLOC_PAGESIZE * METALLOC_PAGESIZE) = unat r div 4096 * 4096"
    by (rule unat_page_base)
  then have "unat (q - r div METALLOC_PAGESIZE * METALLOC_PAGESIZE) = ?x"
    using qx pg by (simp add: unat_sub word_le_nat_alt)
  then have off: "q - r div METALLOC_PAGESIZE * METALLOC_PAGESIZE = of_nat ?x"
    by (metis of_nat_unat ucast_id)
  have ua: "unat (ucast a :: u64) = unat a" using a by (simp add: unsigned_ucast_eq take_bit_nat_eq_self)
  have "?x < 2 ^ 64" using unat_lt64[of q] by linarith
  note dro = drop_bit_of_nat64[OF this]
  have dv: "(2::nat) ^ unat a dvd i * 4096"
  proof -
    have "(2::nat) ^ unat a dvd 2 ^ 12" using a12 by (rule le_imp_power_dvd)
    then show ?thesis by simp
  qed
  have "metaptr_of N e q (r div METALLOC_PAGESIZE)
      = M + of_nat (i * 4096 div 2 ^ unat a * N) + of_nat (?x div 2 ^ unat a) * of_nat N"
    unfolding metaptr_of_def ent ua off dro ..
  also have "\<dots> = M + of_nat ((i * 4096 div 2 ^ unat a + ?x div 2 ^ unat a) * N)"
    by (simp add: algebra_simps)
  also have "i * 4096 div 2 ^ unat a + ?x div 2 ^ unat a = (i * 4096 + ?x) div 2 ^ unat a"
    using dv by (rule div_plus_div_distrib_dvd_left[symmetric])
  also have "i * 4096 + ?x = unat q - unat P" using qx by linarith
  finally show ?thesis .
qed

subsection \<open>Names\<close>

definition nul_free :: "string \<Rightarrow> bool" where "nul_free s \<longleftrightarrow> CHR 0x00 \<notin> set s"

lemma name_different_iff: "nul_free f \<Longrightarrow> nul_free name \<Longrightarrow> name_different f name \<longleftrightarrow> f \<noteq> name"
proof (induction f arbitrary: name)
  case Nil
  then show ?case by (cases name) (auto simp: name_different_def cchar_def nul_free_def)
next
  case (Cons x f)
  show ?case
  proof (cases name)
    case Nil
    then show ?thesis using Cons.prems by (auto simp: name_different_def cchar_def nul_free_def)
  next
    case (Cons y ys)
    then show ?thesis using Cons.IH[of ys] Cons.prems
      by (auto simp: name_different_def nul_free_def)
  qed
qed

lemma ismeta_loop_iff:
  "nul_free name \<Longrightarrow> \<forall>f\<in>set fs. nul_free f \<Longrightarrow> ismeta_loop fs name \<longleftrightarrow> name \<in> set fs"
  by (induction fs) (auto simp: name_different_iff)

lemma strncmp_eq_prefix: "strncmp_eq (length ys) xs ys \<longleftrightarrow> prefix ys xs"
proof (induction ys arbitrary: xs)
  case (Cons y ys)
  then show ?case by (cases xs) auto
qed simp

lemma METADATAFUNCS_nul_free: "\<forall>f\<in>set METADATAFUNCS. nul_free f"
  by (simp add: METADATAFUNCS_def nul_free_def)

text \<open>C19: \<^verbatim>\<open>ISMETADATAFUNC\<close> holds exactly for the names that start with \<^verbatim>\<open>dang_\<close> and the names of the
  table; its hand-written comparison loop is string equality.\<close>

theorem ISMETADATAFUNC_iff:
  assumes "nul_free name"
  shows "ISMETADATAFUNC name \<longleftrightarrow> prefix ''dang_'' name \<or> name \<in> set METADATAFUNCS"
proof -
  have "strncmp_eq 5 name ''dang_'' \<longleftrightarrow> prefix ''dang_'' name"
    using strncmp_eq_prefix[of "''dang_''" name] by (simp add: numeral_eq_Suc)
  then show ?thesis using ismeta_loop_iff[OF assms METADATAFUNCS_nul_free]
    by (simp add: ISMETADATAFUNC_def)
qed

theorem ISMETADATAFUNC_iff_witness:
  "nul_free ''metaget_8'' \<and> ISMETADATAFUNC ''metaget_8'' \<and> \<not> ISMETADATAFUNC ''main''"
  using ISMETADATAFUNC_iff[of "''metaget_8''"] ISMETADATAFUNC_iff[of "''main''"]
  by (simp add: nul_free_def METADATAFUNCS_def)

subsection \<open>The hooks' byte loops\<close>

lemma fill_slot_eq: "fill_slot v p k n m = store_bytes m (p + k) (replicate n v)"
  by (induction n arbitrary: k m) (auto simp: add.assoc)

lemma fill_slots_eq: "fill_slots v p N i k m = metaset_loop (replicate (unat N) v) (p + i * N) k m"
  by (induction k arbitrary: i m) (auto simp: fill_slot_eq algebra_simps split: option.split)

lemma byte_fill_eq: "byte_fill v p N k s = meta_fill (replicate (unat N) v) p k s"
  by (simp add: byte_fill_def meta_fill_def fill_slots_eq)

subsection \<open>The properties of the metadata component\<close>

text \<open>C6: after \<^verbatim>\<open>set_metapagetable_entries\<close> registers a region, \<^verbatim>\<open>metaset\<close> over an object of the region that starts at
  a granule boundary returns, every address inside the object then reads the value with \<^verbatim>\<open>metaget\<close>, and
  every address of the region outside the object's granules reads what it read before.\<close>

theorem metaset_metaget_roundtrip:
  assumes "pageTable s = Some t" and "isPageTableAlloced s" and "region_ok c P n M a"
    and "N = unat (metadataBytes c)" and "mapped (mmem s) M (slots (n * 4096) a * N)"
    and "in_region P n a p cnt" and "length v = N"
  shows "\<exists>s1 e s2. set_metapagetable_entries c mm P (of_nat (n * 4096)) M a s = Inr s1 \<and>
     metaset N p cnt v s1 = Inr (e, s2) \<and>
     (\<forall>q. unat p \<le> unat q \<and> unat q < unat p + unat cnt \<longrightarrow> metaget N u q s2 = Inr v) \<and>
     (\<forall>q. unat P \<le> unat q \<and> unat q < unat P + n * 4096 \<and>
        (unat q < unat p \<or> unat p + slots (unat cnt) a * 2 ^ unat a \<le> unat q) \<longrightarrow>
        metaget N u q s2 = metaget N u q s1)"
proof -
  obtain s1 where s1: "set_metapagetable_entries c mm P (of_nat (n * 4096)) M a s = Inr s1"
    and reg: "meta_region c s1 P n M a" and "mmem s1 = mmem s"
    using set_metapagetable_entries_region[OF assms(1-3), of mm] by blast
  then have rm: "region_mapped c s1 P n M a" using assms(4,5) by (simp add: region_mapped_def)
  have cov: "meta_covers N s1 p cnt" by (rule region_covers[OF rm assms(6,4)])
  have N: "N \<le> 2 ^ 64" using assms(4) unat_lt64[of "metadataBytes c"] by simp
  obtain e s2 where s2: "metaset N p cnt v s1 = Inr (e, s2)" using metaset_run[OF cov assms(7)] by metis
  then have st: "metaset_state N p cnt v s1 = Inr s2" by (simp add: metaset_state_def)
  note get = mget.get_set[OF cov conjI[OF assms(7) N] st] mget.get_other[OF cov conjI[OF assms(7) N] st]
  show ?thesis using s1 s2 get region_apart[OF rm assms(6,4)] by blast
qed

theorem metaset_metaget_roundtrip_witness:
  "\<exists>s1 e s2. set_metapagetable_entries
       \<lparr>fixedCompression = False, metadataBytes = 16, deepMetadata = False, deepMetadataBytes = 8,
        systemPageSize = 4096\<rparr> (\<lambda>_ _ _. None) 0x10000 (of_nat (1 * 4096)) 0x20000 3
       \<lparr>pageTable = Some (\<lambda>_. 0), isPageTableAlloced = True, mmem = \<lambda>_. Some 0\<rparr> = Inr s1 \<and>
     metaset 16 0x10008 24 (replicate 16 7) s1 = Inr (e, s2) \<and>
     metaget 16 [] 0x10010 s2 = Inr (replicate 16 7)"
proof -
  let ?c = "\<lparr>fixedCompression = False, metadataBytes = 16, deepMetadata = False,
    deepMetadataBytes = 8, systemPageSize = 4096\<rparr>"
  let ?s = "\<lparr>pageTable = Some (\<lambda>_. 0), isPageTableAlloced = True, mmem = \<lambda>_. Some 0\<rparr>"
  have "region_ok ?c 0x10000 1 0x20000 3" "in_region 0x10000 1 3 0x10008 24"
    "mapped (mmem ?s) 0x20000 (slots (1 * 4096) 3 * 16)"
    by (simp_all add: region_ok_def in_region_def mapped_def)
  then show ?thesis
    using metaset_metaget_roundtrip[where s = ?s and t = "\<lambda>_. 0" and c = ?c and P = "0x10000" and n = 1
        and M = "0x20000" and a = 3 and N = 16 and p = "0x10008" and cnt = 24 and v = "replicate 16 7"
        and mm = "\<lambda>_ _ _. None" and u = "[]"] by fastforce
qed

text \<open>C17: with neither fixed compression nor deep metadata, the default allocation hook, which stores the slots byte
  by byte with a running index, has the effect of \<^verbatim>\<open>metaset\<close> of a zero slot, which stores whole slots: on an object with
  metadata it returns in the same state, and every address inside the object then reads the zero slot.\<close>

theorem default_alloc_hook_clears:
  assumes "\<not> fixedCompression c" and "\<not> deepMetadata c" and "N = unat (metadataBytes c)"
    and "meta_covers N s p cnt"
  shows "\<exists>s'. default_alloc_hook c p d content_size cnt s = Inr s' \<and>
     metaset_state N p cnt (replicate N 0) s = Inr s' \<and>
     (\<forall>q. unat p \<le> unat q \<and> unat q < unat p + unat cnt \<longrightarrow> metaget N u q s' = Inr (replicate N 0))"
proof -
  have eq: "default_alloc_hook c p d content_size cnt s = metaset_state N p cnt (replicate N 0) s"
    using assms(1-3) by (cases "pt_read s (p div METALLOC_PAGESIZE)")
      (auto simp: default_alloc_hook_def set_metadata_def set_metadata_with_def metaset_state_def
        metaset_def Let_def byte_fill_eq meta_fill_def split: option.split simp: bindR_def sum.case_eq_if)
  have N: "length (replicate N (0::u8)) = N \<and> N \<le> 2 ^ 64"
    using assms(3) unat_lt64[of "metadataBytes c"] by simp
  show ?thesis using eq mget.set_returns[OF assms(4) N] mget.get_set[OF assms(4) N] by metis
qed

theorem default_alloc_hook_clears_witness:
  "\<exists>s'. default_alloc_hook
       \<lparr>fixedCompression = False, metadataBytes = 16, deepMetadata = False, deepMetadataBytes = 8,
        systemPageSize = 4096\<rparr> 0x10008 0 24 24
       \<lparr>pageTable = Some (\<lambda>_. make_entry 0x20000 3), isPageTableAlloced = True,
        mmem = \<lambda>_. Some 1\<rparr> = Inr s' \<and> metaget 16 [] 0x10010 s' = Inr (replicate 16 0)"
proof -
  let ?c = "\<lparr>fixedCompression = False, metadataBytes = 16, deepMetadata = False,
    deepMetadataBytes = 8, systemPageSize = 4096\<rparr>"
  let ?s = "\<lparr>pageTable = Some (\<lambda>_. make_entry 0x20000 3), isPageTableAlloced = True, mmem = \<lambda>_. Some 1\<rparr>"
  have "region_mapped ?c ?s 0x10000 1 0x20000 3" "in_region 0x10000 1 3 0x10008 24"
    by (simp_all add: region_mapped_def meta_region_def region_ok_def in_region_def mapped_def
        entry_value_def)
  then have "meta_covers 16 ?s 0x10008 24" by (rule region_covers) simp
  then show ?thesis
    using default_alloc_hook_clears[where c = ?c and N = 16 and s = ?s and p = "0x10008"
      and cnt = 24 and d = 0 and content_size = 24 and u = "[]"] by fastforce
qed

text \<open>C18: the base-pointer variant \<^verbatim>\<open>metaget_base\<close>, which reuses the page-table entry of another
  address of the same region instead of looking its own up, reads the same metadata as
  \<^verbatim>\<open>metaget\<close>, provided that the granules have at most the size of a page and that the address is not below the first
  byte of the other address's page.  Below that page the unsigned offset of \<^verbatim>\<open>metaget_base\<close> wraps around.\<close>

theorem metaget_base_eq_metaget:
  assumes "region_mapped c s P n M a" and "unat a \<le> 12" and "N = unat (metadataBytes c)"
    and "unat P \<le> unat r" and "unat r < unat P + n * 4096"
    and "unat r div 4096 * 4096 \<le> unat q" and "unat q < unat P + n * 4096"
    and "metabaseget r s = Inr e"
  shows "metaget_base N q e r s = metaget N u q s"
proof -
  have "unat P mod 4096 = 0" using assms(1) by (simp add: region_mapped_def meta_region_def region_ok_def)
  then have "unat P = unat P div 4096 * 4096" by (metis add_0_right div_mult_mod_eq)
  also have "\<dots> \<le> unat r div 4096 * 4096" using assms(4) by (intro mult_le_mono1 div_le_mono)
  finally have "unat P \<le> unat q" using assms(6) by linarith
  then obtain e' where "metaptr_at N s q = Inr (e', M + of_nat ((unat q - unat P) div 2 ^ unat a * N))"
    and "e' \<noteq> 0" using region_metaptr_at[OF assms(1) _ assms(7,3)] by blast
  then show ?thesis using region_metaptr_base[OF assms] by (simp add: metaget_eq metaget_base_def Let_def)
qed

theorem metaget_base_eq_metaget_witness:
  "let s = \<lparr>pageTable = Some (\<lambda>_. make_entry 0x20000 3), isPageTableAlloced = True,
        mmem = \<lambda>_. Some 1\<rparr>
   in metaget_base 16 0x10ff8 (make_entry 0x20000 3) 0x10008 s = metaget 16 [] 0x10ff8 s"
proof -
  let ?c = "\<lparr>fixedCompression = False, metadataBytes = 16, deepMetadata = False,
    deepMetadataBytes = 8, systemPageSize = 4096\<rparr>"
  let ?s = "\<lparr>pageTable = Some (\<lambda>_. make_entry 0x20000 3), isPageTableAlloced = True, mmem = \<lambda>_. Some 1\<rparr>"
  have reg: "region_mapped ?c ?s 0x10000 1 0x20000 3"
    by (simp add: region_mapped_def meta_region_def region_ok_def mapped_def entry_value_def)
  have base: "metabaseget 0x10008 ?s = Inr (make_entry 0x20000 3)"
    by (simp add: metabaseget_def pt_read_def METALLOC_PAGESIZE_def)
  show ?thesis unfolding Let_def by (rule metaget_base_eq_metaget[OF reg _ _ _ _ _ _ base]) simp_all
qed

end
