(* ===== verification/DangSan_Log.thy ===== *)
theory DangSan_Log
  imports Prelude
begin

unbundle bit_operations_syntax

section \<open>The pointer log of an object (dang_san.h, dang_san.c)\<close>

text \<open>
  Every heap object has one log per thread that stored a pointer to it.  A log is a ring of
  64-bit slots; a slot packs up to three pointer locations that share their upper bits.
  This theory models the slot format, the lookbehind insertion \<^verbatim>\<open>dang_insertlogptr\<close>, the
  hash-node insertion \<^verbatim>\<open>dang_inserthashptr\<close>, the reclaiming walk \<^verbatim>\<open>dang_clear_objlog\<close> and the
  nullifying walk of \<^verbatim>\<open>dang_freeptr\<close> over one log, and shows them correct against the set of
  pointer locations a log stands for.

  The counters of a log are naturals: the code's \<^verbatim>\<open>unsigned long\<close>, \<^verbatim>\<open>long\<close> and \<^verbatim>\<open>int\<close> uses of
  them agree below \<open>2 ^ 31\<close> slots (16 GiB for a single log).  Slot contents, pointer locations
  and pointer values are 64-bit words.
\<close>

record objlog =
  thread_id :: u64
  next_log :: u64
  index :: nat
  end_idx :: nat
  count :: nat
  log_size :: nat
  next_growlog :: u64
  log_buf :: "u64 list"

definition DANG_NULL :: u64 where "DANG_NULL = 0x8000000000000000"

definition OBJLOG_START_IDX :: nat where "OBJLOG_START_IDX = 7"

text \<open>\<^verbatim>\<open>(unsigned long)(0.95 * size)\<close>; for the powers of two the ring needs, the double
  product truncates to the same number.\<close>

definition log_threshold :: "nat \<Rightarrow> nat" where
  "log_threshold sz = 95 * sz div 100"

text \<open>\<^verbatim>\<open>(i + 1) & (obj_loglocal->size - 1)\<close>\<close>

definition ring_next :: "objlog \<Rightarrow> nat \<Rightarrow> nat" where
  "ring_next lg i = (i + 1) AND (log_size lg - 1)"

subsection \<open>Slots\<close>

definition slot_prefix :: "u64 \<Rightarrow> u64" where "slot_prefix w = drop_bit 24 w"
definition slot_byte1 :: "u64 \<Rightarrow> u64" where "slot_byte1 w = drop_bit 16 w AND 0xFF"
definition slot_byte2 :: "u64 \<Rightarrow> u64" where "slot_byte2 w = drop_bit 8 w AND 0xFF"
definition slot_byte3 :: "u64 \<Rightarrow> u64" where "slot_byte3 w = w AND 0xFF"

definition mk_slot :: "u64 \<Rightarrow> u64 \<Rightarrow> u64 \<Rightarrow> u64 \<Rightarrow> u64" where
  "mk_slot ptr_prefix n_byte1 n_byte2 n_byte3 =
     push_bit 24 ptr_prefix OR push_bit 16 n_byte1 OR push_bit 8 n_byte2 OR n_byte3"

definition slot_ptr :: "u64 \<Rightarrow> u64 \<Rightarrow> u64" where
  "slot_ptr ptr_prefix byte = push_bit 8 ptr_prefix OR byte"

subsection \<open>dang_insertlogptr\<close>

text \<open>The loop's locals \<^verbatim>\<open>n_index\<close> and the three bytes.  \<open>None\<close> is the duplicate's
  \<^verbatim>\<open>return 0\<close>.\<close>

type_synonym ins = "nat \<times> u64 \<times> u64 \<times> u64"

definition lookbehind_step :: "u64 \<Rightarrow> u64 \<Rightarrow> u64 \<Rightarrow> nat \<Rightarrow> ins \<Rightarrow> ins option" where
  "lookbehind_step ptr_prefix ptr_byte w j st =
     (if ptr_prefix = slot_prefix w then
        (let byte1 = slot_byte1 w; byte2 = slot_byte2 w; byte3 = slot_byte3 w in
         if ptr_byte = byte1 then None
         else if ptr_byte = byte2 then
           (if ptr_byte \<noteq> 0 then None else Some (j, ptr_byte, byte1, byte3))
         else if byte2 = 0 then Some (j, byte1, ptr_byte, byte3)
         else if ptr_byte = byte3 then
           (if ptr_byte \<noteq> 0 then None else Some (j, ptr_byte, byte2, byte1))
         else if byte3 = 0 then Some (j, byte1, byte2, ptr_byte)
         else Some st)
      else Some st)"

fun lookbehind :: "u64 \<Rightarrow> u64 \<Rightarrow> u64 list \<Rightarrow> nat \<Rightarrow> nat \<Rightarrow> nat \<Rightarrow> ins \<Rightarrow> ins option" where
  "lookbehind ptr_prefix ptr_byte buf idx i 0 st = Some st"
| "lookbehind ptr_prefix ptr_byte buf idx i (Suc k) st =
     (if idx < i then Some st
      else case lookbehind_step ptr_prefix ptr_byte (buf ! (idx - i)) (idx - i) st of
             None \<Rightarrow> None
           | Some st' \<Rightarrow> lookbehind ptr_prefix ptr_byte buf idx (i + 1) k st')"

text \<open>The result is the C function's return value and the new buffer.  Every slot it touches is
  at or below \<open>idx\<close>; an \<open>idx\<close> outside the buffer is undefined behaviour.\<close>

definition dang_insertlogptr :: "nat \<Rightarrow> u64 \<Rightarrow> u64 list \<Rightarrow> nat \<Rightarrow> (nat \<times> u64 list) res" where
  "dang_insertlogptr n_lookbehind ptr_addr buf idx =
     (if length buf \<le> idx then Inl Crash
      else
        let ptr_prefix = drop_bit 8 ptr_addr;
            ptr_byte = ptr_addr AND 0xFF
        in case lookbehind ptr_prefix ptr_byte buf idx 1 n_lookbehind (idx, ptr_byte, 0, 0) of
             None \<Rightarrow> Inr (0, buf)
           | Some (n_index, n_byte1, n_byte2, n_byte3) \<Rightarrow>
               Inr (n_index, buf[n_index := mk_slot ptr_prefix n_byte1 n_byte2 n_byte3]))"

text \<open>The tail of \<^verbatim>\<open>dang_register\<close>.\<close>

definition log_insert :: "nat \<Rightarrow> u64 \<Rightarrow> objlog \<Rightarrow> objlog res" where
  "log_insert n_lookbehind ptr_addr lg =
     bindR (dang_insertlogptr n_lookbehind ptr_addr (log_buf lg) (index lg)) (\<lambda>(r, buf).
       Inr (if r = index lg
            then lg\<lparr>log_buf := buf, index := ring_next lg (index lg), count := count lg + 1\<rparr>
            else lg\<lparr>log_buf := buf\<rparr>))"

subsection \<open>dang_inserthashptr\<close>

text \<open>The bucket is a list of nodes, each the packed word \<^verbatim>\<open>ptr\<close> of a \<^verbatim>\<open>dang_hashnode\<close>.\<close>

definition hash_prefix :: "u64 \<Rightarrow> u64" where "hash_prefix w = drop_bit 32 w"
definition hash_suffix1 :: "u64 \<Rightarrow> u64" where "hash_suffix1 w = drop_bit 16 w AND 0xFFFF"
definition hash_suffix2 :: "u64 \<Rightarrow> u64" where "hash_suffix2 w = w AND 0xFFFF"

definition mk_hashnode :: "u64 \<Rightarrow> u64 \<Rightarrow> u64 \<Rightarrow> u64" where
  "mk_hashnode ptr_prefix n_suffix1 n_suffix2 =
     push_bit 32 ptr_prefix OR push_bit 16 n_suffix1 OR n_suffix2"

fun dang_inserthashptr :: "u64 \<Rightarrow> u64 list \<Rightarrow> u64 list" where
  "dang_inserthashptr ptr_addr [] =
     [mk_hashnode (drop_bit 16 ptr_addr) (ptr_addr AND 0xFFFF) 0]"
| "dang_inserthashptr ptr_addr (w # ws) =
     (let ptr_prefix = drop_bit 16 ptr_addr; ptr_suffix = ptr_addr AND 0xFFFF in
      if ptr_prefix = hash_prefix w then
        if ptr_suffix = hash_suffix1 w then w # ws
        else if ptr_suffix = hash_suffix2 w then
          (if ptr_suffix \<noteq> 0 then w # ws
           else mk_hashnode ptr_prefix ptr_suffix (hash_suffix1 w) # ws)
        else if hash_suffix2 w = 0 then mk_hashnode ptr_prefix (hash_suffix1 w) ptr_suffix # ws
        else w # dang_inserthashptr ptr_addr ws
      else w # dang_inserthashptr ptr_addr ws)"

subsection \<open>dang_clear_objlog\<close>

text \<open>\<^verbatim>\<open>dang_checkptr_value\<close>: does the location hold a pointer into the object?  A location that is
  not mapped faults, the handler jumps back, and the check counts as no.\<close>

definition dang_checkptr_value :: "mem \<Rightarrow> u64 \<Rightarrow> u64 \<Rightarrow> u64 \<Rightarrow> bool" where
  "dang_checkptr_value m ptr obj_start obj_end =
     (case load64 m ptr of None \<Rightarrow> False
      | Some ptr_value \<Rightarrow> obj_start \<le> ptr_value \<and> ptr_value < obj_end)"

text \<open>One round of the loop: \<open>True\<close> when it breaks.\<close>

definition clear_slot_breaks :: "mem \<Rightarrow> u64 \<Rightarrow> u64 \<Rightarrow> u64 \<Rightarrow> bool" where
  "clear_slot_breaks m obj_start obj_end w =
     (let ptr_prefix = slot_prefix w in
      if ptr_prefix = 0 then False
      else if dang_checkptr_value m (slot_ptr ptr_prefix (slot_byte1 w)) obj_start obj_end then True
      else if slot_byte2 w = 0 then False
      else if dang_checkptr_value m (slot_ptr ptr_prefix (slot_byte2 w)) obj_start obj_end then True
      else if slot_byte3 w \<noteq> 0
        then dang_checkptr_value m (slot_ptr ptr_prefix (slot_byte3 w)) obj_start obj_end
      else False)"

fun clear_loop :: "mem \<Rightarrow> u64 \<Rightarrow> u64 \<Rightarrow> objlog \<Rightarrow> nat \<Rightarrow> nat \<Rightarrow> (nat \<times> nat) res" where
  "clear_loop m obj_start obj_end lg e 0 = Inr (e, 0)"
| "clear_loop m obj_start obj_end lg e (Suc c) =
     (if length (log_buf lg) \<le> e then Inl Crash
      else if clear_slot_breaks m obj_start obj_end (log_buf lg ! e) then Inr (e, Suc c)
      else clear_loop m obj_start obj_end lg (ring_next lg e) c)"

definition dang_clear_objlog :: "mem \<Rightarrow> u64 \<Rightarrow> u64 \<Rightarrow> objlog \<Rightarrow> objlog res" where
  "dang_clear_objlog m obj_start obj_end lg =
     bindR (clear_loop m obj_start obj_end lg (end_idx lg) (count lg)) (\<lambda>(e, c).
       Inr (lg\<lparr>count := c, end_idx := e\<rparr>))"

subsection \<open>dang_nullifyptr and the walk of dang_freeptr over one log\<close>

text \<open>\<^verbatim>\<open>dsan_atomic_cmpxchng_once\<close> on a mapped location.\<close>

definition dsan_atomic_cmpxchng_once :: "mem \<Rightarrow> u64 \<Rightarrow> u64 \<Rightarrow> u64 \<Rightarrow> mem" where
  "dsan_atomic_cmpxchng_once m addr expected desired =
     (if load64 m addr = Some expected
      then (case store64 m addr desired of None \<Rightarrow> m | Some m' \<Rightarrow> m') else m)"

text \<open>\<open>intf\<close> is what other threads do between the load and the compare-and-swap; it is the
  identity when the walk runs alone.\<close>

definition dang_nullifyptr_with ::
  "(mem \<Rightarrow> mem) \<Rightarrow> u64 \<Rightarrow> u64 \<Rightarrow> u64 \<Rightarrow> mem \<Rightarrow> mem" where
  "dang_nullifyptr_with intf ptr obj_addr obj_end m =
     (if ptr AND DANG_NULL = 0 then
        (case load64 m ptr of None \<Rightarrow> intf m
         | Some ptr_value \<Rightarrow>
             if obj_addr \<le> ptr_value \<and> ptr_value < obj_end
             then dsan_atomic_cmpxchng_once (intf m) ptr ptr_value (ptr_value OR DANG_NULL)
             else intf m)
      else intf m)"

definition dang_nullifyptr :: "u64 \<Rightarrow> u64 \<Rightarrow> u64 \<Rightarrow> mem \<Rightarrow> mem" where
  "dang_nullifyptr = dang_nullifyptr_with id"

text \<open>The walk over a log, with the other threads running between its steps: \<open>env k\<close> is what they do to memory before the
  load of a location, \<open>env (k + 1)\<close> what they do between the load and the compare-and-swap; the walk carries \<open>k\<close>.\<close>

definition nullify_step :: "(nat \<Rightarrow> mem \<Rightarrow> mem) \<Rightarrow> u64 \<Rightarrow> u64 \<Rightarrow> u64 \<Rightarrow> nat \<times> mem \<Rightarrow> nat \<times> mem" where
  "nullify_step env obj_addr obj_end ptr km =
     (case km of (k, m) \<Rightarrow> (k + 2, dang_nullifyptr_with (env (k + 1)) ptr obj_addr obj_end (env k m)))"

definition free_slot_with :: "(nat \<Rightarrow> mem \<Rightarrow> mem) \<Rightarrow> u64 \<Rightarrow> u64 \<Rightarrow> u64 \<Rightarrow> nat \<times> mem \<Rightarrow> nat \<times> mem" where
  "free_slot_with env obj_addr obj_end w km =
     (let ptr_prefix = slot_prefix w in
      if ptr_prefix = 0 then km
      else
        let km = nullify_step env obj_addr obj_end (slot_ptr ptr_prefix (slot_byte1 w)) km in
        if slot_byte2 w = 0 then km
        else
          let km = nullify_step env obj_addr obj_end (slot_ptr ptr_prefix (slot_byte2 w)) km in
          if slot_byte3 w \<noteq> 0
          then nullify_step env obj_addr obj_end (slot_ptr ptr_prefix (slot_byte3 w)) km
          else km)"

fun free_log_loop_with :: "(nat \<Rightarrow> mem \<Rightarrow> mem) \<Rightarrow> u64 \<Rightarrow> u64 \<Rightarrow> objlog \<Rightarrow> nat \<Rightarrow> nat \<Rightarrow> nat \<times> mem \<Rightarrow> (nat \<times> mem) res" where
  "free_log_loop_with env obj_addr obj_end lg e 0 km = Inr km"
| "free_log_loop_with env obj_addr obj_end lg e (Suc c) km =
     (if length (log_buf lg) \<le> e then Inl Crash
      else free_log_loop_with env obj_addr obj_end lg (ring_next lg e) c
             (free_slot_with env obj_addr obj_end (log_buf lg ! e) km))"

definition free_log_with :: "(nat \<Rightarrow> mem \<Rightarrow> mem) \<Rightarrow> u64 \<Rightarrow> u64 \<Rightarrow> objlog \<Rightarrow> nat \<times> mem \<Rightarrow> (nat \<times> mem) res" where
  "free_log_with env obj_addr obj_end lg km =
     free_log_loop_with env obj_addr obj_end lg (end_idx lg) (count lg) km"

text \<open>The same walk when it runs alone.\<close>

definition alone :: "nat \<Rightarrow> mem \<Rightarrow> mem" where "alone k = id"

definition free_slot :: "u64 \<Rightarrow> u64 \<Rightarrow> u64 \<Rightarrow> mem \<Rightarrow> mem" where
  "free_slot obj_addr obj_end w m = snd (free_slot_with alone obj_addr obj_end w (0, m))"

definition free_log_loop :: "u64 \<Rightarrow> u64 \<Rightarrow> objlog \<Rightarrow> nat \<Rightarrow> nat \<Rightarrow> mem \<Rightarrow> mem res" where
  "free_log_loop obj_addr obj_end lg e c m =
     bindR (free_log_loop_with alone obj_addr obj_end lg e c (0, m)) (\<lambda>(_, m). Inr m)"

definition free_log :: "u64 \<Rightarrow> u64 \<Rightarrow> objlog \<Rightarrow> mem \<Rightarrow> mem res" where
  "free_log obj_addr obj_end lg m =
     free_log_loop obj_addr obj_end lg (end_idx lg) (count lg) m"

subsection \<open>Slots pack and unpack\<close>

definition byte :: "u64 \<Rightarrow> bool" where "byte b \<longleftrightarrow> unat b < 2 ^ 8"

lemma mask8: "(0xFF :: u64) = mask 8" by (simp add: mask_eq_exp_minus_1)

lemma byte_and: "byte (x AND 0xFF)"
  unfolding byte_def mask8 take_bit_eq_mask[symmetric] unsigned_take_bit_eq by (rule take_bit_nat_less_exp)

lemma byte_bit: "byte b \<Longrightarrow> bit b n \<Longrightarrow> n < 8"
  unfolding byte_def by (rule bit_small)

lemma byte_0 [simp]: "byte 0" by (simp add: byte_def)

lemma byte_slot [simp]: "byte (slot_byte1 w)" "byte (slot_byte2 w)" "byte (slot_byte3 w)"
  by (simp_all add: slot_byte1_def slot_byte2_def slot_byte3_def byte_and)

lemmas slot_bit_simps = bit_drop_bit_eq bit_or_iff bit_push_bit_iff bit_and_iff bit_mask_iff

lemma mk_slot_fields:
  assumes p: "unat p < 2 ^ 40" and b: "byte b1" "byte b2" "byte b3"
  shows "slot_prefix (mk_slot p b1 b2 b3) = p" and "slot_byte1 (mk_slot p b1 b2 b3) = b1"
    and "slot_byte2 (mk_slot p b1 b2 b3) = b2" and "slot_byte3 (mk_slot p b1 b2 b3) = b3"
proof -
  have b1: "n < 8" if "bit b1 n" for n using byte_bit[OF b(1) that] .
  have b2: "n < 8" if "bit b2 n" for n using byte_bit[OF b(2) that] .
  have b3: "n < 8" if "bit b3 n" for n using byte_bit[OF b(3) that] .
  have pb: "n < 40" if "bit p n" for n using bit_small[OF that p] .
  note unf = slot_prefix_def slot_byte1_def slot_byte2_def slot_byte3_def mk_slot_def mask8
  show "slot_prefix (mk_slot p b1 b2 b3) = p" unfolding unf
    by (intro bit_word_eqI) (auto simp: slot_bit_simps dest: b1 b2 b3 pb)
  show "slot_byte1 (mk_slot p b1 b2 b3) = b1" unfolding unf
    by (intro bit_word_eqI) (auto simp: slot_bit_simps dest: b1 b2 b3 pb)
  show "slot_byte2 (mk_slot p b1 b2 b3) = b2" unfolding unf
    by (intro bit_word_eqI) (auto simp: slot_bit_simps dest: b1 b2 b3 pb)
  show "slot_byte3 (mk_slot p b1 b2 b3) = b3" unfolding unf
    by (intro bit_word_eqI) (auto simp: slot_bit_simps dest: b1 b2 b3 pb)
qed

lemma slot_ptr_split: "slot_ptr (drop_bit 8 p) (p AND 0xFF) = p"
  unfolding slot_ptr_def mask8 by (intro bit_word_eqI) (auto simp: slot_bit_simps not_le)

text \<open>The pointer locations a slot stands for, and the shape every written slot has.\<close>

definition slot_ptrs :: "u64 \<Rightarrow> u64 set" where
  "slot_ptrs w =
     (if slot_prefix w = 0 then {}
      else insert (slot_ptr (slot_prefix w) (slot_byte1 w))
        (if slot_byte2 w = 0 then {}
         else insert (slot_ptr (slot_prefix w) (slot_byte2 w))
           (if slot_byte3 w = 0 then {} else {slot_ptr (slot_prefix w) (slot_byte3 w)})))"

definition slot_wf :: "u64 \<Rightarrow> bool" where
  "slot_wf w \<longleftrightarrow> (slot_byte2 w = 0 \<longrightarrow> slot_byte3 w = 0)"

text \<open>A pointer location in the 48-bit user address space and above the 256 bytes whose slots
  would read as empty.\<close>

definition user_loc :: "u64 \<Rightarrow> bool" where
  "user_loc p \<longleftrightarrow> 2 ^ 8 \<le> unat p \<and> unat p < 2 ^ 48"

lemma user_loc_prefix:
  assumes "user_loc p"
  shows "unat (drop_bit 8 p) < 2 ^ 40" and "drop_bit 8 p \<noteq> 0"
proof -
  have u: "unat (drop_bit 8 p) = unat p div 2 ^ 8"
    by (simp only: unat_drop_bit_eq drop_bit_eq_div[where 'a = nat])
  show "unat (drop_bit 8 p) < 2 ^ 40"
    unfolding u using assms by (intro less_mult_imp_div_less) (simp add: user_loc_def)
  have "unat p div 2 ^ 8 \<noteq> 0" using assms by (simp add: user_loc_def div_eq_0_iff)
  then show "drop_bit 8 p \<noteq> 0" unfolding u[symmetric] by auto
qed

lemma slot_ptrs_mk_slot:
  assumes "unat p < 2 ^ 40" "byte b1" "byte b2" "byte b3"
  shows "slot_ptrs (mk_slot p b1 b2 b3) =
     (if p = 0 then {} else insert (slot_ptr p b1)
        (if b2 = 0 then {} else insert (slot_ptr p b2) (if b3 = 0 then {} else {slot_ptr p b3})))"
    and "slot_wf (mk_slot p b1 b2 b3) \<longleftrightarrow> (b2 = 0 \<longrightarrow> b3 = 0)"
  unfolding slot_ptrs_def slot_wf_def mk_slot_fields[OF assms] by (rule refl)+

lemma lookbehind_step_cases:
  assumes p: "user_loc p" and wf: "slot_wf w"
    and st: "lookbehind_step (drop_bit 8 p) (p AND 0xFF) w j st = r"
  shows "r = Some st \<or> (r = None \<and> p \<in> slot_ptrs w) \<or>
    (\<exists>b1 b2 b3. r = Some (j, b1, b2, b3) \<and> byte b1 \<and> byte b2 \<and> byte b3 \<and>
       slot_ptrs (mk_slot (drop_bit 8 p) b1 b2 b3) = insert p (slot_ptrs w) \<and>
       slot_wf (mk_slot (drop_bit 8 p) b1 b2 b3))"
proof (cases "drop_bit 8 p = slot_prefix w")
  case False
  then show ?thesis using st by (simp add: lookbehind_step_def)
next
  case True
  define q where "q = slot_prefix w"
  define b where "b = p AND 0xFF"
  have q: "unat q < 2 ^ 40" "q \<noteq> 0" using user_loc_prefix[OF p] True by (simp_all add: q_def)
  have pb: "p = slot_ptr q b" using slot_ptr_split[of p] True by (simp add: q_def b_def)
  have byb: "byte b" by (simp add: b_def byte_and)
  have sp: "slot_ptrs w = insert (slot_ptr q (slot_byte1 w))
        (if slot_byte2 w = 0 then {}
         else insert (slot_ptr q (slot_byte2 w))
           (if slot_byte3 w = 0 then {} else {slot_ptr q (slot_byte3 w)}))"
    using q by (simp add: slot_ptrs_def q_def)
  note mk = slot_ptrs_mk_slot[OF q(1)]
  show ?thesis unfolding st[symmetric] lookbehind_step_def Let_def True
      q_def[symmetric] b_def[symmetric] sp unfolding pb
    using wf[unfolded slot_wf_def] q(2) byb by (auto simp: mk)
qed


definition placed :: "u64 \<Rightarrow> u64 list \<Rightarrow> nat \<Rightarrow> nat \<Rightarrow> ins \<Rightarrow> bool" where
  "placed p buf idx n st \<longleftrightarrow>
     st = (idx, p AND 0xFF, 0, 0) \<or>
     (\<exists>j b1 b2 b3. st = (j, b1, b2, b3) \<and> j < idx \<and> idx - j \<le> n \<and>
        slot_ptrs (mk_slot (drop_bit 8 p) b1 b2 b3) = insert p (slot_ptrs (buf ! j)) \<and>
        slot_wf (mk_slot (drop_bit 8 p) b1 b2 b3))"

lemma placedI:
  assumes "j < idx" "idx - j \<le> n"
    "slot_ptrs (mk_slot (drop_bit 8 p) b1 b2 b3) = insert p (slot_ptrs (buf ! j))"
    "slot_wf (mk_slot (drop_bit 8 p) b1 b2 b3)"
  shows "placed p buf idx n (j, b1, b2, b3)"
  using assms unfolding placed_def by blast

lemma lookbehind_cases:
  assumes p: "user_loc p" and wf: "\<forall>j<idx. slot_wf (buf ! j)"
  shows "placed p buf idx n st \<Longrightarrow> 1 \<le> i \<Longrightarrow> i + k \<le> Suc n \<Longrightarrow>
     (case lookbehind (drop_bit 8 p) (p AND 0xFF) buf idx i k st of
        None \<Rightarrow> (\<exists>j<idx. idx - j \<le> n \<and> p \<in> slot_ptrs (buf ! j))
      | Some st' \<Rightarrow> placed p buf idx n st')"
proof (induction k arbitrary: i st)
  case 0
  then show ?case by simp
next
  case (Suc k)
  show ?case
  proof (cases "idx < i")
    case True
    then show ?thesis using Suc.prems by simp
  next
    case False
    let ?j = "idx - i"
    have j: "?j < idx" "idx - ?j \<le> n" using False Suc.prems by auto
    have w: "slot_wf (buf ! ?j)" using wf j(1) by blast
    let ?r = "lookbehind_step (drop_bit 8 p) (p AND 0xFF) (buf ! ?j) ?j st"
    consider (same) "?r = Some st" | (dup) "?r = None" "p \<in> slot_ptrs (buf ! ?j)"
      | (new) st' where "?r = Some st'" "placed p buf idx n st'"
      using lookbehind_step_cases[OF p w refl, of ?j st] placedI[OF j] by metis
    then show ?thesis
    proof cases
      case same
      then show ?thesis using Suc.IH[of st "i + 1"] Suc.prems False by simp
    next
      case dup
      then show ?thesis using False j by auto
    next
      case new
      then show ?thesis using Suc.IH[of st' "i + 1"] Suc.prems False by simp
    qed
  qed
qed

lemma dang_insertlogptr_cases:
  assumes p: "user_loc p" and wf: "\<forall>j<idx. slot_wf (buf ! j)" and idx: "idx < length buf"
  obtains (dup) j where "dang_insertlogptr n p buf idx = Inr (0, buf)" "j < idx" "idx - j \<le> n"
      "p \<in> slot_ptrs (buf ! j)"
    | (merge) j w where "dang_insertlogptr n p buf idx = Inr (j, buf[j := w])" "j < idx" "idx - j \<le> n"
      "slot_ptrs w = insert p (slot_ptrs (buf ! j))" "slot_wf w"
    | (append) w where "dang_insertlogptr n p buf idx = Inr (idx, buf[idx := w])"
      "slot_ptrs w = {p}" "slot_wf w"
proof -
  let ?st = "(idx, p AND 0xFF, 0, 0)"
  let ?w = "mk_slot (drop_bit 8 p) (p AND 0xFF) 0 0"
  note pre = user_loc_prefix[OF p]
  have new: "slot_ptrs ?w = {p}" "slot_wf ?w"
    using slot_ptrs_mk_slot[OF pre(1) byte_and byte_0 byte_0, of p] pre(2) slot_ptr_split[of p] by auto
  note run = dang_insertlogptr_def[of n p buf idx]
  have "placed p buf idx n ?st" by (simp add: placed_def)
  from lookbehind_cases[OF p wf this, of 1 n]
  have "case lookbehind (drop_bit 8 p) (p AND 0xFF) buf idx 1 n ?st of
        None \<Rightarrow> (\<exists>j<idx. idx - j \<le> n \<and> p \<in> slot_ptrs (buf ! j))
      | Some st' \<Rightarrow> placed p buf idx n st'" by simp
  then show ?thesis
  proof (cases "lookbehind (drop_bit 8 p) (p AND 0xFF) buf idx 1 n ?st")
    case None
    then have "dang_insertlogptr n p buf idx = Inr (0, buf)" using idx by (simp add: run)
    moreover obtain j where "j < idx" "idx - j \<le> n" "p \<in> slot_ptrs (buf ! j)"
      using lookbehind_cases[OF p wf \<open>placed p buf idx n ?st\<close>, of 1 n] None by auto
    ultimately show ?thesis by (rule dup)
  next
    case (Some st')
    then have "placed p buf idx n st'"
      using lookbehind_cases[OF p wf \<open>placed p buf idx n ?st\<close>, of 1 n] by simp
    then consider "st' = ?st" | j b1 b2 b3 where "st' = (j, b1, b2, b3)" "j < idx" "idx - j \<le> n"
        "slot_ptrs (mk_slot (drop_bit 8 p) b1 b2 b3) = insert p (slot_ptrs (buf ! j))"
        "slot_wf (mk_slot (drop_bit 8 p) b1 b2 b3)"
      unfolding placed_def by blast
    then show ?thesis
    proof cases
      case 1
      then show ?thesis using append new Some idx by (simp add: run)
    next
      case 2
      then show ?thesis using merge Some idx by (simp add: run)
    qed
  qed
qed

subsection \<open>What a log stands for\<close>

text \<open>The ring positions between \<^verbatim>\<open>end\<close> and \<^verbatim>\<open>index\<close> are live; the pointer locations of their
  slots are what the log tracks.\<close>

definition ring :: "nat \<Rightarrow> nat \<Rightarrow> nat \<Rightarrow> nat set" where
  "ring s e c = (\<lambda>k. (e + k) mod s) ` {..<c}"

definition live :: "objlog \<Rightarrow> nat set" where
  "live lg = ring (log_size lg) (end_idx lg) (count lg)"

definition log_ptrs :: "objlog \<Rightarrow> u64 set" where
  "log_ptrs lg = (\<Union>j\<in>live lg. slot_ptrs (log_buf lg ! j))"

definition log_wf :: "objlog \<Rightarrow> bool" where
  "log_wf lg \<longleftrightarrow>
     (\<exists>n<31. log_size lg = 2 ^ n) \<and> length (log_buf lg) = log_size lg \<and>
     end_idx lg < log_size lg \<and> count lg \<le> log_size lg \<and>
     index lg = (end_idx lg + count lg) mod log_size lg \<and>
     (\<forall>j<index lg. slot_wf (log_buf lg ! j)) \<and> (\<forall>j\<in>live lg. slot_wf (log_buf lg ! j))"

text \<open>The slots the lookbehind reads are all live.  This holds until \<^verbatim>\<open>dang_clear_objlog\<close> moves
  \<^verbatim>\<open>end\<close> into the window: it leaves the slots it drops in place.\<close>

definition window_live :: "nat \<Rightarrow> objlog \<Rightarrow> bool" where
  "window_live n lg \<longleftrightarrow> min n (index lg) \<le> count lg"

lemma log_wf_pos: "log_wf lg \<Longrightarrow> 0 < log_size lg"
  by (auto simp: log_wf_def)

lemma log_wf_index: "log_wf lg \<Longrightarrow> index lg < length (log_buf lg)"
  by (auto simp: log_wf_def)

lemma and_pow2_minus1: "(x::nat) AND (2 ^ n - 1) = x mod 2 ^ n"
  by (metis mask_eq_exp_minus_1 take_bit_eq_mask take_bit_eq_mod)

lemma ring_next_mod: "log_wf lg \<Longrightarrow> ring_next lg i = (i + 1) mod log_size lg"
  unfolding ring_next_def log_wf_def using and_pow2_minus1 by auto

lemma live_less: "log_wf lg \<Longrightarrow> j \<in> live lg \<Longrightarrow> j < log_size lg"
  using log_wf_pos by (auto simp: live_def ring_def)

lemma mod_add_cancel_nat:
  fixes a b k s :: nat
  assumes "(a + k) mod s = (b + k) mod s"
  shows "a mod s = b mod s"
proof (cases "a \<le> b")
  case True
  then show ?thesis using assms mod_eq_dvd_iff_nat[of "a + k" "b + k" s] mod_eq_dvd_iff_nat[of a b s] by simp
next
  case False
  then show ?thesis using assms mod_eq_dvd_iff_nat[of "b + k" "a + k" s] mod_eq_dvd_iff_nat[of b a s] by simp
qed

lemma ring_inj:
  fixes e k k' s :: nat
  assumes "(e + k) mod s = (e + k') mod s" "k < s" "k' < s"
  shows "k = k'"
proof -
  have "k mod s = k' mod s" using assms(1) mod_add_cancel_nat[of k e s k'] by (simp add: add.commute)
  then show ?thesis using assms by simp
qed


lemma ring_Suc: "e < s \<Longrightarrow> ring s e (Suc c) = insert e (ring s ((e + 1) mod s) c)"
  unfolding ring_def by (auto simp: lessThan_Suc_eq_insert_0 image_image mod_simps)

lemma index_not_live:
  assumes "log_wf lg" "count lg < log_size lg" shows "index lg \<notin> live lg"
proof
  assume "index lg \<in> live lg"
  then obtain k where "k < count lg" "(end_idx lg + count lg) mod log_size lg = (end_idx lg + k) mod log_size lg"
    using assms(1) by (auto simp: live_def ring_def log_wf_def)
  with ring_inj[OF this(2) assms(2)] assms(2) show False by simp
qed

lemma window_is_live:
  assumes wf: "log_wf lg" and i: "j < index lg" "index lg - j \<le> count lg"
  shows "j \<in> live lg"
proof -
  let ?i = "index lg - j" and ?s = "log_size lg"
  have ix: "index lg = (end_idx lg + count lg) mod ?s" using wf by (simp add: log_wf_def)
  have "(end_idx lg + (count lg - ?i)) + ?i = end_idx lg + count lg" using i by simp
  then have "((end_idx lg + (count lg - ?i)) + ?i) mod ?s = (j + ?i) mod ?s"
    using i ix by simp
  then have "(end_idx lg + (count lg - ?i)) mod ?s = j mod ?s" by (rule mod_add_cancel_nat)
  moreover have "index lg < ?s" using log_wf_index[OF wf] wf by (simp add: log_wf_def)
  ultimately have "(end_idx lg + (count lg - ?i)) mod ?s = j" using i(1) by simp
  moreover have "count lg - ?i < count lg" using i by simp
  ultimately show ?thesis unfolding live_def ring_def by (metis imageI lessThan_iff)
qed

lemma UN_update:
  assumes "j < length buf" "f w = insert p (f (buf ! j))"
  shows "(\<Union>i\<in>L. f (buf[j := w] ! i)) =
     (if j \<in> L then insert p (\<Union>i\<in>L. f (buf ! i)) else (\<Union>i\<in>L. f (buf ! i)))"
  using assms by (auto simp: nth_list_update split: if_splits)

lemma log_insert_correct:
  assumes wf: "log_wf lg" and p: "user_loc p" and room: "count lg < log_size lg"
  shows "\<exists>lg'. log_insert n p lg = Inr lg' \<and> log_wf lg' \<and> log_size lg' = log_size lg \<and>
     thread_id lg' = thread_id lg \<and> next_log lg' = next_log lg \<and> next_growlog lg' = next_growlog lg \<and>
     log_ptrs lg \<subseteq> log_ptrs lg' \<and> log_ptrs lg' \<subseteq> insert p (log_ptrs lg) \<and>
     (window_live n lg \<longrightarrow> p \<in> log_ptrs lg' \<and> window_live n lg')"
proof -
  let ?buf = "log_buf lg" and ?idx = "index lg"
  have idx: "?idx < length ?buf" using log_wf_index[OF wf] .
  have wfs: "\<forall>j<?idx. slot_wf (?buf ! j)" using wf by (simp add: log_wf_def)
  have win: "j \<in> live lg" if "j < ?idx" "?idx - j \<le> n" "window_live n lg" for j
    using window_is_live[OF wf that(1)] that by (simp add: window_live_def ring_def)
  from p wfs idx show ?thesis
  proof (cases rule: dang_insertlogptr_cases[where n = n])
    case (dup j)
    then have "log_insert n p lg = Inr lg" by (simp add: log_insert_def)
    then show ?thesis using dup win wf by (auto simp: log_ptrs_def)
  next
    case (merge j w)
    define lg' where "lg' = lg\<lparr>log_buf := ?buf[j := w]\<rparr>"
    have j: "j < length ?buf" using merge(2) idx by simp
    have run: "log_insert n p lg = Inr lg'" using merge by (simp add: log_insert_def lg'_def)
    have live': "live lg' = live lg" by (simp add: live_def ring_def lg'_def)
    have ptrs: "log_ptrs lg' = (if j \<in> live lg then insert p (log_ptrs lg) else log_ptrs lg)"
      unfolding log_ptrs_def live' using UN_update[OF j, of slot_ptrs w p "live lg"] merge(4)
      by (simp add: lg'_def)
    have "log_wf lg'" using wf merge(5) j unfolding log_wf_def live'
      by (simp add: lg'_def nth_list_update)
    moreover have "window_live n lg \<longrightarrow> p \<in> log_ptrs lg' \<and> window_live n lg'"
      using win[OF merge(2,3)] ptrs by (auto simp: window_live_def ring_def lg'_def)
    ultimately show ?thesis using run ptrs by (auto simp: lg'_def)
  next
    case (append w)
    define lg' where "lg' = lg\<lparr>log_buf := ?buf[?idx := w], index := ring_next lg ?idx, count := count lg + 1\<rparr>"
    have run: "log_insert n p lg = Inr lg'" using append by (simp add: log_insert_def lg'_def)
    have ix: "?idx = (end_idx lg + count lg) mod log_size lg" using wf by (simp add: log_wf_def)
    have live': "live lg' = insert ?idx (live lg)"
      unfolding live_def ring_def ix by (simp add: lg'_def lessThan_Suc)
    have nl: "?idx \<notin> live lg" using index_not_live[OF wf room] .
    have ptrs: "log_ptrs lg' = insert p (log_ptrs lg)"
      unfolding log_ptrs_def live' using nl idx append(2)
      by (auto simp: lg'_def nth_list_update split: if_splits)
    have rn: "ring_next lg ?idx = (?idx + 1) mod log_size lg" by (rule ring_next_mod[OF wf])
    have le: "ring_next lg ?idx \<le> Suc ?idx" unfolding rn by (metis Suc_eq_plus1 mod_less_eq_dividend)
    have wfw: "slot_wf (log_buf lg' ! j)" if "j \<le> ?idx \<or> j \<in> live lg" for j
      using that wf append(3) idx by (cases "j = ?idx") (auto simp: lg'_def log_wf_def)
    have "index lg' = (end_idx lg' + count lg') mod log_size lg'"
      unfolding lg'_def by (simp add: rn) (simp add: ix mod_simps)
    then have "log_wf lg'" using wf room wfw le live' unfolding log_wf_def
      by (auto simp: lg'_def simp del: nth_list_update_eq)
    moreover have "window_live n lg \<longrightarrow> p \<in> log_ptrs lg' \<and> window_live n lg'"
      using ptrs le unfolding window_live_def ring_def lg'_def by (auto simp: min_le_iff_disj)
    ultimately show ?thesis using run ptrs by (auto simp: lg'_def)
  qed
qed

subsection \<open>Reclaiming\<close>

lemma clear_slot_breaks_iff:
  "clear_slot_breaks m os oe w \<longleftrightarrow> (\<exists>p\<in>slot_ptrs w. dang_checkptr_value m p os oe)"
  unfolding clear_slot_breaks_def slot_ptrs_def Let_def by auto

lemma clear_loop_correct:
  assumes wf: "log_wf lg"
  shows "e < log_size lg \<Longrightarrow>
    \<exists>e' c'. clear_loop m os oe lg e c = Inr (e', c') \<and> e' < log_size lg \<and> c' \<le> c \<and>
      (e' + c') mod log_size lg = (e + c) mod log_size lg \<and>
      ring (log_size lg) e' c' \<subseteq> ring (log_size lg) e c \<and>
      (\<forall>j\<in>ring (log_size lg) e c - ring (log_size lg) e' c'.
         \<not> clear_slot_breaks m os oe (log_buf lg ! j)) \<and>
      (c' = 0 \<or> clear_slot_breaks m os oe (log_buf lg ! e'))"
proof (induction c arbitrary: e)
  case 0
  then show ?case by auto
next
  case (Suc c)
  let ?s = "log_size lg" and ?brk = "\<lambda>j. clear_slot_breaks m os oe (log_buf lg ! j)"
  have e: "\<not> length (log_buf lg) \<le> e" using Suc.prems wf by (simp add: log_wf_def)
  show ?case
  proof (cases "?brk e")
    case True
    then show ?thesis using e Suc.prems by auto
  next
    case False
    have "ring_next lg e < ?s" using ring_next_mod[OF wf] log_wf_pos[OF wf] by simp
    from Suc.IH[OF this] obtain e' c' where *:
      "clear_loop m os oe lg (ring_next lg e) c = Inr (e', c')" "e' < ?s" "c' \<le> c"
      "(e' + c') mod ?s = (ring_next lg e + c) mod ?s"
      "ring ?s e' c' \<subseteq> ring ?s (ring_next lg e) c"
      "\<forall>j\<in>ring ?s (ring_next lg e) c - ring ?s e' c'. \<not> ?brk j"
      "c' = 0 \<or> ?brk e'" by blast
    have r: "ring ?s e (Suc c) = insert e (ring ?s (ring_next lg e) c)"
      using ring_Suc[OF Suc.prems] ring_next_mod[OF wf] by simp
    have "(ring_next lg e + c) mod ?s = (e + Suc c) mod ?s"
      by (simp add: ring_next_mod[OF wf] mod_simps)
    then have "(e' + c') mod ?s = (e + Suc c) mod ?s" using *(4) by simp
    then show ?thesis using * e False r by (intro exI[of _ e'] exI[of _ c']) auto
  qed
qed

lemma dang_clear_objlog_correct:
  assumes wf: "log_wf lg"
  shows "\<exists>lg'. dang_clear_objlog m os oe lg = Inr lg' \<and> log_wf lg' \<and>
     lg' = lg\<lparr>count := count lg', end_idx := end_idx lg'\<rparr> \<and> count lg' \<le> count lg \<and>
     log_ptrs lg' \<subseteq> log_ptrs lg \<and>
     (\<forall>p\<in>log_ptrs lg - log_ptrs lg'. \<not> dang_checkptr_value m p os oe) \<and>
     (count lg' = 0 \<or> (\<exists>p\<in>slot_ptrs (log_buf lg ! end_idx lg'). dang_checkptr_value m p os oe))"
proof -
  have "end_idx lg < log_size lg" using wf by (simp add: log_wf_def)
  from clear_loop_correct[OF wf this, of m os oe "count lg"] obtain e' c' where *:
    "clear_loop m os oe lg (end_idx lg) (count lg) = Inr (e', c')" "e' < log_size lg"
    "c' \<le> count lg" "(e' + c') mod log_size lg = (end_idx lg + count lg) mod log_size lg"
    "ring (log_size lg) e' c' \<subseteq> live lg"
    "\<forall>j\<in>live lg - ring (log_size lg) e' c'. \<not> clear_slot_breaks m os oe (log_buf lg ! j)"
    "c' = 0 \<or> clear_slot_breaks m os oe (log_buf lg ! e')"
    unfolding live_def by blast
  define lg' where "lg' = lg\<lparr>count := c', end_idx := e'\<rparr>"
  have run: "dang_clear_objlog m os oe lg = Inr lg'"
    using *(1) by (simp add: dang_clear_objlog_def lg'_def)
  have live': "live lg' = ring (log_size lg) e' c'" by (simp add: live_def lg'_def)
  have "log_wf lg'" using wf * live' unfolding log_wf_def by (auto simp: lg'_def)
  moreover have "log_ptrs lg' \<subseteq> log_ptrs lg"
    unfolding log_ptrs_def live' using *(5) by (auto simp: lg'_def)
  moreover have "\<forall>p\<in>log_ptrs lg - log_ptrs lg'. \<not> dang_checkptr_value m p os oe"
    using *(6) unfolding log_ptrs_def live' clear_slot_breaks_iff by (auto simp: lg'_def)
  moreover have "count lg' = 0 \<or> (\<exists>p\<in>slot_ptrs (log_buf lg ! end_idx lg'). dang_checkptr_value m p os oe)"
    using *(7) unfolding clear_slot_breaks_iff by (simp add: lg'_def)
  ultimately show ?thesis using run *(3) by (intro exI[of _ lg']) (simp add: lg'_def)
qed

subsection \<open>Nullification\<close>

text \<open>\<open>nullified oa oe P m m'\<close>: from \<open>m\<close> to \<open>m'\<close>, exactly the locations \<open>P\<close> that hold a pointer
  into the object got the \<^verbatim>\<open>DANG_NULL\<close> bit, and no other byte changed.\<close>

definition nulled :: "u64 \<Rightarrow> u64 \<Rightarrow> u64 \<Rightarrow> u64" where
  "nulled oa oe v = (if oa \<le> v \<and> v < oe then v OR DANG_NULL else v)"

definition nullified :: "u64 \<Rightarrow> u64 \<Rightarrow> u64 set \<Rightarrow> mem \<Rightarrow> mem \<Rightarrow> bool" where
  "nullified oa oe P m m' \<longleftrightarrow> dom m' = dom m \<and>
     (\<forall>p\<in>P. load64 m' p = map_option (nulled oa oe) (load64 m p)) \<and>
     (\<forall>x. x \<notin> (\<Union>p\<in>P. addrs p 8) \<longrightarrow> m' x = m x)"

definition ptr_locs :: "u64 set \<Rightarrow> bool" where
  "ptr_locs P \<longleftrightarrow> (\<forall>p\<in>P. user_loc p \<and> aligned8 p)"

lemma ptr_locs_simps [simp]:
  "ptr_locs {}" "ptr_locs (insert p P) \<longleftrightarrow> user_loc p \<and> aligned8 p \<and> ptr_locs P"
  "ptr_locs (P \<union> Q) \<longleftrightarrow> ptr_locs P \<and> ptr_locs Q"
  by (auto simp: ptr_locs_def)

lemma ptr_locs_mono: "ptr_locs P \<Longrightarrow> Q \<subseteq> P \<Longrightarrow> ptr_locs Q"
  by (auto simp: ptr_locs_def)

lemma nulled_idem: "oe \<le> DANG_NULL \<Longrightarrow> nulled oa oe (nulled oa oe v) = nulled oa oe v"
proof -
  assume oe: "oe \<le> DANG_NULL"
  have "DANG_NULL \<le> v OR DANG_NULL" by (rule le_word_or1)
  then have "\<not> v OR DANG_NULL < oe" using oe by (meson leD le_less_trans order_trans)
  then show ?thesis by (simp add: nulled_def)
qed

lemma nullified_empty [simp]: "nullified oa oe {} m m"
  by (simp add: nullified_def)

lemma nullified_other:
  assumes "nullified oa oe P m m'" "ptr_locs P" "aligned8 q" "q \<notin> P"
  shows "load64 m' q = load64 m q"
proof (rule load64_cong)
  fix x assume x: "x \<in> addrs q 8"
  have "x \<notin> addrs p 8" if "p \<in> P" for p
    using aligned8_disjoint[of p q] that assms x by (auto simp: ptr_locs_def)
  then show "m' x = m x" using assms(1) by (auto simp: nullified_def)
qed

lemma nullified_comp:
  assumes n1: "nullified oa oe P m m1" and n2: "nullified oa oe Q m1 m2"
    and P: "ptr_locs P" and Q: "ptr_locs Q" and oe: "oe \<le> DANG_NULL"
  shows "nullified oa oe (P \<union> Q) m m2"
proof -
  have "load64 m2 p = map_option (nulled oa oe) (load64 m p)" if p: "p \<in> P \<union> Q" for p
  proof -
    have al: "aligned8 p" using p P Q by (auto simp: ptr_locs_def)
    consider (both) "p \<in> P" "p \<in> Q" | (l) "p \<in> P" "p \<notin> Q" | (r) "p \<notin> P" "p \<in> Q" using p by auto
    then show ?thesis
    proof cases
      case both
      then have "load64 m1 p = map_option (nulled oa oe) (load64 m p)"
        and "load64 m2 p = map_option (nulled oa oe) (load64 m1 p)"
        using n1 n2 by (simp_all add: nullified_def)
      then show ?thesis using nulled_idem[OF oe] by (simp add: option.map_comp o_def)
    next
      case l
      then show ?thesis using nullified_other[OF n2 Q al] n1 by (simp add: nullified_def)
    next
      case r
      then show ?thesis using nullified_other[OF n1 P al] n2 by (simp add: nullified_def)
    qed
  qed
  then show ?thesis using n1 n2 unfolding nullified_def by auto
qed

lemma bit_DANG_NULL: "bit DANG_NULL n \<longleftrightarrow> n = 63"
proof -
  have d: "DANG_NULL = push_bit 63 1" by (simp add: DANG_NULL_def)
  show ?thesis unfolding d bit_push_bit_iff by auto
qed

lemma user_loc_not_null:
  assumes "user_loc p" shows "p AND DANG_NULL = 0"
proof -
  have "\<not> bit p 63" using bit_small[of p 63 48] assms by (auto simp: user_loc_def)
  then show ?thesis by (intro bit_word_eqI) (auto simp: bit_and_iff bit_DANG_NULL)
qed

lemma dang_nullifyptr_nullified:
  assumes "user_loc p"
  shows "nullified oa oe {p} m (dang_nullifyptr p oa oe m)"
proof (cases "load64 m p")
  case None
  then show ?thesis using user_loc_not_null[OF assms]
    by (simp add: dang_nullifyptr_def dang_nullifyptr_with_def nullified_def)
next
  case (Some v)
  show ?thesis
  proof (cases "oa \<le> v \<and> v < oe")
    case False
    then show ?thesis using Some user_loc_not_null[OF assms]
      by (auto simp: dang_nullifyptr_def dang_nullifyptr_with_def nullified_def nulled_def)
  next
    case True
    have "mapped m p 8" using load64_mapped[of m p] Some by simp
    then obtain m' where st: "store64 m p (v OR DANG_NULL) = Some m'"
      using store64_mapped[of m p "v OR DANG_NULL"] by auto
    then have "dang_nullifyptr p oa oe m = m'" using True Some user_loc_not_null[OF assms]
      by (simp add: dang_nullifyptr_def dang_nullifyptr_with_def dsan_atomic_cmpxchng_once_def)
    moreover have "m' x = m x" if "x \<notin> addrs p 8" for x
      using store_bytes_other[of m p "u64_bytes (v OR DANG_NULL)" m' x] st that
      by (simp add: store64_def)
    ultimately show ?thesis using Some True load64_store64_same[OF st] store64_dom[OF st]
      by (simp add: nullified_def nulled_def)
  qed
qed

lemma nullify_step_alone [simp]: "nullify_step alone oa oe p (k, m) = (k + 2, dang_nullifyptr p oa oe m)"
  by (simp add: nullify_step_def dang_nullifyptr_def alone_def)

lemma free_slot_eq:
  "free_slot oa oe w m =
     (let ptr_prefix = slot_prefix w in
      if ptr_prefix = 0 then m
      else
        let m = dang_nullifyptr (slot_ptr ptr_prefix (slot_byte1 w)) oa oe m in
        if slot_byte2 w = 0 then m
        else
          let m = dang_nullifyptr (slot_ptr ptr_prefix (slot_byte2 w)) oa oe m in
          if slot_byte3 w \<noteq> 0 then dang_nullifyptr (slot_ptr ptr_prefix (slot_byte3 w)) oa oe m else m)"
  by (simp add: free_slot_def free_slot_with_def Let_def)

lemma free_slot_with_alone: "snd (free_slot_with alone oa oe w (k, m)) = free_slot oa oe w m"
  by (simp add: free_slot_def free_slot_with_def Let_def)

lemma free_log_loop_alone:
  "bindR (free_log_loop_with alone oa oe lg e c km) (\<lambda>(_, m). Inr m) = free_log_loop oa oe lg e c (snd km)"
proof (induction c arbitrary: e km)
  case (Suc c)
  obtain k m where km: "km = (k, m)" by fastforce
  show ?case using Suc[of "ring_next lg e" "free_slot_with alone oa oe (log_buf lg ! e) (k, m)"]
      Suc[of "ring_next lg e" "free_slot_with alone oa oe (log_buf lg ! e) (0, m)"]
    by (simp add: km free_slot_with_alone free_log_loop_def)
qed (simp add: free_log_loop_def split_beta)

lemma free_log_loop_simps [simp]:
  "free_log_loop oa oe lg e 0 m = Inr m"
  "free_log_loop oa oe lg e (Suc c) m =
     (if length (log_buf lg) \<le> e then Inl Crash
      else free_log_loop oa oe lg (ring_next lg e) c (free_slot oa oe (log_buf lg ! e) m))"
  using free_log_loop_alone[of oa oe lg "ring_next lg e" c "free_slot_with alone oa oe (log_buf lg ! e) (0, m)"]
  by (simp_all add: free_log_loop_def free_slot_with_alone)

lemma nullified_insert:
  assumes "nullified oa oe P m m1" "ptr_locs P" "user_loc p" "aligned8 p" "oe \<le> DANG_NULL"
  shows "nullified oa oe (insert p P) m (dang_nullifyptr p oa oe m1)"
proof -
  have "ptr_locs {p}" using assms by simp
  from nullified_comp[OF assms(1) dang_nullifyptr_nullified[OF assms(3)] assms(2) this assms(5)]
  show ?thesis by simp
qed

lemma free_slot_nullified:
  assumes "ptr_locs (slot_ptrs w)" and oe: "oe \<le> DANG_NULL"
  shows "nullified oa oe (slot_ptrs w) m (free_slot oa oe w m)"
proof (cases "slot_prefix w = 0")
  case True
  then show ?thesis by (simp add: slot_ptrs_def free_slot_eq)
next
  case False
  let ?p = "slot_ptr (slot_prefix w)"
  define p1 p2 p3 where p: "p1 = ?p (slot_byte1 w)" "p2 = ?p (slot_byte2 w)" "p3 = ?p (slot_byte3 w)"
  define m1 m2 where m: "m1 = dang_nullifyptr p1 oa oe m" "m2 = dang_nullifyptr p2 oa oe m1"
  have l1: "user_loc p1" "aligned8 p1" using assms(1) False by (simp_all add: slot_ptrs_def p)
  have n1: "nullified oa oe {p1} m m1"
    unfolding m by (rule nullified_insert[OF nullified_empty _ l1 oe]) simp
  show ?thesis
  proof (cases "slot_byte2 w = 0")
    case True
    then show ?thesis using False n1 by (simp add: slot_ptrs_def free_slot_eq Let_def p m)
  next
    case b2: False
    then have l2: "user_loc p2" "aligned8 p2" using assms(1) False by (simp_all add: slot_ptrs_def p)
    have n2: "nullified oa oe {p2, p1} m m2"
      unfolding m(2) by (rule nullified_insert[OF n1 _ l2 oe]) (simp add: l1)
    show ?thesis
    proof (cases "slot_byte3 w = 0")
      case True
      then show ?thesis using False b2 n2 by (simp add: slot_ptrs_def free_slot_eq Let_def p m insert_commute)
    next
      case b3: False
      then have l3: "user_loc p3" "aligned8 p3" using assms(1) False b2 by (simp_all add: slot_ptrs_def p)
      have "nullified oa oe {p3, p2, p1} m (dang_nullifyptr p3 oa oe m2)"
        by (rule nullified_insert[OF n2 _ l3 oe]) (simp add: l1 l2)
      moreover have "slot_ptrs w = {p3, p2, p1}" using False b2 b3 by (auto simp: slot_ptrs_def p)
      ultimately show ?thesis using False b2 b3 by (simp add: free_slot_eq Let_def p m)
    qed
  qed
qed

lemma free_log_loop_correct:
  assumes wf: "log_wf lg" and oe: "oe \<le> DANG_NULL"
  shows "e < log_size lg \<Longrightarrow> ptr_locs (\<Union>j\<in>ring (log_size lg) e c. slot_ptrs (log_buf lg ! j)) \<Longrightarrow>
    \<exists>m'. free_log_loop oa oe lg e c m = Inr m' \<and>
      nullified oa oe (\<Union>j\<in>ring (log_size lg) e c. slot_ptrs (log_buf lg ! j)) m m'"
proof (induction c arbitrary: e m)
  case 0
  then show ?case by (simp add: ring_def)
next
  case (Suc c)
  let ?s = "log_size lg" and ?w = "log_buf lg ! e"
  let ?U = "\<lambda>e c. \<Union>j\<in>ring ?s e c. slot_ptrs (log_buf lg ! j)"
  have e: "\<not> length (log_buf lg) \<le> e" using Suc.prems wf by (simp add: log_wf_def)
  have "?U e (Suc c) = slot_ptrs ?w \<union> ?U (ring_next lg e) c"
    using ring_Suc[OF Suc.prems(1)] ring_next_mod[OF wf] by simp
  moreover from this have w: "ptr_locs (slot_ptrs ?w)" and r: "ptr_locs (?U (ring_next lg e) c)"
    using Suc.prems(2) by simp_all
  moreover have "ring_next lg e < ?s" using ring_next_mod[OF wf] log_wf_pos[OF wf] by simp
  from Suc.IH[OF this r, of "free_slot oa oe ?w m"] obtain m' where
    "free_log_loop oa oe lg (ring_next lg e) c (free_slot oa oe ?w m) = Inr m'"
    "nullified oa oe (?U (ring_next lg e) c) (free_slot oa oe ?w m) m'" by blast
  ultimately show ?case
    using nullified_comp[OF free_slot_nullified[OF w oe] _ w r oe] e by auto
qed

lemma free_log_correct:
  assumes "log_wf lg" "oe \<le> DANG_NULL" "ptr_locs (log_ptrs lg)"
  shows "\<exists>m'. free_log oa oe lg m = Inr m' \<and> nullified oa oe (log_ptrs lg) m m'"
  using free_log_loop_correct[OF assms(1,2), of "end_idx lg" "count lg" oa m] assms
  unfolding free_log_def log_ptrs_def live_def by (simp add: log_wf_def)

subsection \<open>Hash nodes\<close>

definition hash_ptr :: "u64 \<Rightarrow> u64 \<Rightarrow> u64" where
  "hash_ptr ptr_prefix suffix = push_bit 16 ptr_prefix OR suffix"

definition hash_ptrs :: "u64 \<Rightarrow> u64 set" where
  "hash_ptrs w = insert (hash_ptr (hash_prefix w) (hash_suffix1 w))
     (if hash_suffix2 w = 0 then {} else {hash_ptr (hash_prefix w) (hash_suffix2 w)})"

lemma mask16: "(0xFFFF :: u64) = mask 16" by (simp add: mask_eq_exp_minus_1)

lemma short_and: "unat (x AND (0xFFFF :: u64)) < 2 ^ 16"
  unfolding mask16 take_bit_eq_mask[symmetric] unsigned_take_bit_eq by (rule take_bit_nat_less_exp)

lemma mk_hashnode_fields:
  assumes "unat p < 2 ^ 32" "unat s1 < 2 ^ 16" "unat s2 < 2 ^ 16"
  shows "hash_prefix (mk_hashnode p s1 s2) = p" and "hash_suffix1 (mk_hashnode p s1 s2) = s1"
    and "hash_suffix2 (mk_hashnode p s1 s2) = s2"
proof -
  have p: "n < 32" if "bit p n" for n using bit_small[OF that assms(1)] .
  have s1: "n < 16" if "bit s1 n" for n using bit_small[OF that assms(2)] .
  have s2: "n < 16" if "bit s2 n" for n using bit_small[OF that assms(3)] .
  note unf = hash_prefix_def hash_suffix1_def hash_suffix2_def mk_hashnode_def mask16
  show "hash_prefix (mk_hashnode p s1 s2) = p" unfolding unf
    by (intro bit_word_eqI) (auto simp: slot_bit_simps dest: p s1 s2)
  show "hash_suffix1 (mk_hashnode p s1 s2) = s1" unfolding unf
    by (intro bit_word_eqI) (auto simp: slot_bit_simps dest: p s1 s2)
  show "hash_suffix2 (mk_hashnode p s1 s2) = s2" unfolding unf
    by (intro bit_word_eqI) (auto simp: slot_bit_simps dest: p s1 s2)
qed

lemma hash_ptr_split: "hash_ptr (drop_bit 16 p) (p AND 0xFFFF) = p"
  unfolding hash_ptr_def mask16 by (intro bit_word_eqI) (auto simp: slot_bit_simps not_le)

lemma hash_ptrs_mk:
  assumes "unat p < 2 ^ 32" "unat s1 < 2 ^ 16" "unat s2 < 2 ^ 16"
  shows "hash_ptrs (mk_hashnode p s1 s2) =
     insert (hash_ptr p s1) (if s2 = 0 then {} else {hash_ptr p s2})"
  unfolding hash_ptrs_def mk_hashnode_fields[OF assms] ..

lemma dang_inserthashptr_ptrs:
  assumes "unat p < 2 ^ 48"
  shows "(\<Union>w\<in>set (dang_inserthashptr p ws). hash_ptrs w) = insert p (\<Union>w\<in>set ws. hash_ptrs w)"
proof (induction ws)
  have "unat (drop_bit 16 p) = unat p div 2 ^ 16"
    by (simp only: unat_drop_bit_eq drop_bit_eq_div[where 'a = nat])
  then have pre: "unat (drop_bit 16 p) < 2 ^ 32"
    using assms less_mult_imp_div_less[of "unat p" "2 ^ 32" "2 ^ 16"] by simp
  note mk = hash_ptrs_mk[OF pre]
  have suf: "unat (hash_suffix1 w) < 2 ^ 16" "unat (hash_suffix2 w) < 2 ^ 16" for w
    by (simp_all only: hash_suffix1_def hash_suffix2_def short_and)
  {
    case Nil
    show ?case using mk[OF short_and, of 0 p] hash_ptr_split[of p] by simp
  next
    case (Cons w ws)
    show ?case
    proof (cases "drop_bit 16 p = hash_prefix w")
      case False
      then show ?thesis using Cons.IH by (auto simp: Let_def)
    next
      case True
      define s where "s = p AND 0xFFFF"
      have p: "p = hash_ptr (hash_prefix w) s" using hash_ptr_split[of p] by (simp add: True s_def)
      have s: "unat s < 2 ^ 16" unfolding s_def by (rule short_and)
      have w: "hash_ptrs w = insert (hash_ptr (hash_prefix w) (hash_suffix1 w))
        (if hash_suffix2 w = 0 then {} else {hash_ptr (hash_prefix w) (hash_suffix2 w)})"
        by (simp add: hash_ptrs_def)
      note mks = mk[OF s suf(1)[of w]] mk[OF suf(1)[of w] s]
      show ?thesis using Cons.IH mks w p unfolding dang_inserthashptr.simps Let_def True
          s_def[symmetric] by auto
    qed
  }
qed

end
