(* ===== verification/DangSan.thy ===== *)
theory DangSan
  imports MetaData DangSan_Log
begin

unbundle bit_operations_syntax

section \<open>Registering pointers and freeing objects (dang_san.c, dsan_common.h)\<close>

text \<open>
  The run-time of the sanitizer in the configuration the build scripts select:
  \<^verbatim>\<open>DANG_THREAD_ENABLE\<close> and \<^verbatim>\<open>TC_ALLOC\<close>.  The state holds the metadata component, the log
  buffers by address, the flags that keep the sanitizer from tracking its own allocations, and
  the identity of the running thread.  \<^verbatim>\<open>OBJLOG_MAX_PTRS\<close>, \<^verbatim>\<open>N_LOOKBEHIND\<close> and \<^verbatim>\<open>TRACK_ALL_PTRS\<close>
  are build options.

  The log buffers come from the process allocator: \<open>sys_malloc\<close> and \<open>sys_realloc\<close> are
  parameters that answer with an address (0 on failure), the words a new buffer happens to
  hold, and the metadata state the allocator leaves.  A buffer that was freed is not in \<open>logs\<close>
  any more, and reaching it is the fault \<open>Crash\<close>.  The pointer-chasing loops take fuel; the
  theorems give the amount that is enough.
\<close>

record dsan =
  meta :: metalloc
  logs :: "u64 \<Rightarrow> objlog option"
  malloc_flag :: bool
  free_flag :: bool
  threadglobal_id :: u64
  threadlocal_id :: u64
  dang_stack_start :: u64
  dang_stack_end :: u64
  dang_global_start :: u64
  dang_global_end :: u64

record dparams =
  OBJLOG_MAX_PTRS :: nat
  N_LOOKBEHIND :: nat
  TRACK_ALL_PTRS :: bool
  sys_malloc :: "nat \<Rightarrow> dsan \<Rightarrow> u64 \<times> u64 list \<times> metalloc"
  sys_realloc :: "u64 \<Rightarrow> nat \<Rightarrow> dsan \<Rightarrow> u64 \<times> u64 list \<times> metalloc"

definition OBJLOG_SIZE :: "dparams \<Rightarrow> nat" where
  "OBJLOG_SIZE pr = (OBJLOG_MAX_PTRS pr + OBJLOG_START_IDX) * 8"

subsection \<open>The 16-byte metadata of an object\<close>

definition meta16_a :: "u8 list \<Rightarrow> u64" where "meta16_a bs = bytes_u64 (take 8 bs)"
definition meta16_b :: "u8 list \<Rightarrow> u64" where "meta16_b bs = bytes_u64 (drop 8 bs)"

definition mk_meta16 :: "u64 \<Rightarrow> u64 \<Rightarrow> u8 list" where
  "mk_meta16 a b = u64_bytes a @ u64_bytes b"

definition metaget_16 :: "u64 \<Rightarrow> dsan \<Rightarrow> u8 list res" where
  "metaget_16 p s = metaget 16 [] p (meta s)"

definition metaset_16 :: "u64 \<Rightarrow> u64 \<Rightarrow> u8 list \<Rightarrow> dsan \<Rightarrow> dsan res" where
  "metaset_16 p cnt v s = bindR (metaset 16 p cnt v (meta s)) (\<lambda>(_, m). Inr (s\<lparr>meta := m\<rparr>))"

definition obj_start_of :: "u64 \<Rightarrow> u64 \<Rightarrow> u64" where
  "obj_start_of obj_addr obj_bounds = (obj_addr AND 0xFFFFFFFF00000000) OR drop_bit 32 obj_bounds"

definition obj_size_of :: "u64 \<Rightarrow> u64" where
  "obj_size_of obj_bounds = obj_bounds AND 0xFFFFFFFF"

definition pack_bounds :: "u64 \<Rightarrow> u64 \<Rightarrow> u64" where
  "pack_bounds obj_addr sz = push_bit 32 (obj_addr AND 0xFFFFFFFF) OR sz"

subsection \<open>dsan_common.h: allocation of log buffers\<close>

text \<open>\<^verbatim>\<open>DANG_MALLOC\<close> raises \<^verbatim>\<open>malloc_flag\<close>; the allocator's post-hook, \<^verbatim>\<open>dang_init_heapobj\<close>, sees
  the flag, lowers it and returns.\<close>

definition DANG_MALLOC :: "dparams \<Rightarrow> nat \<Rightarrow> dsan \<Rightarrow> u64 \<times> u64 list \<times> dsan" where
  "DANG_MALLOC pr sz s =
     (case sys_malloc pr sz (s\<lparr>malloc_flag := True\<rparr>) of
        (a, garbage, mt) \<Rightarrow> (a, garbage, s\<lparr>meta := mt, malloc_flag := False\<rparr>))"

definition DANG_REALLOC :: "dparams \<Rightarrow> u64 \<Rightarrow> nat \<Rightarrow> dsan \<Rightarrow> u64 \<times> u64 list \<times> dsan" where
  "DANG_REALLOC pr old sz s =
     (case sys_realloc pr old sz (s\<lparr>malloc_flag := True, free_flag := True\<rparr>) of
        (a, garbage, mt) \<Rightarrow>
          (a, garbage, s\<lparr>meta := mt, malloc_flag := False, free_flag := False\<rparr>))"

definition DANG_FREE :: "u64 \<Rightarrow> dsan \<Rightarrow> dsan" where
  "DANG_FREE a s = s\<lparr>logs := (logs s)(a := None), free_flag := False\<rparr>"

definition get_log :: "dsan \<Rightarrow> u64 \<Rightarrow> objlog res" where
  "get_log s a = of_opt Crash (logs s a)"

definition put_log :: "u64 \<Rightarrow> objlog \<Rightarrow> dsan \<Rightarrow> dsan" where
  "put_log a lg s = s\<lparr>logs := (logs s)(a \<mapsto> lg)\<rparr>"

subsection \<open>dsan_atomics.h\<close>

text \<open>The retry loops, with what the other threads do to the cell before each compare-and-swap as
  a list of functions; after the list the cell is left alone, so the loop ends.  The result
  is the returned value, the cell when the swap has succeeded, and the part of the list that has not run yet.\<close>

fun dsan_atomic_add_loop :: "(u64 \<Rightarrow> u64) list \<Rightarrow> u64 \<Rightarrow> u64 \<Rightarrow> u64 \<Rightarrow> u64 \<times> u64 \<times> (u64 \<Rightarrow> u64) list" where
  "dsan_atomic_add_loop [] val expected cell =
     (if cell = expected then (expected + val, expected + val, []) else (cell + val, cell + val, []))"
| "dsan_atomic_add_loop (f # fs) val expected cell =
     (let cell = f cell; desired = expected + val in
      if cell = expected then (desired, desired, fs)
      else dsan_atomic_add_loop fs val cell cell)"

definition dsan_atomic_add :: "(u64 \<Rightarrow> u64) list \<Rightarrow> u64 \<Rightarrow> u64 \<Rightarrow> u64 \<times> u64 \<times> (u64 \<Rightarrow> u64) list" where
  "dsan_atomic_add fs val cell = dsan_atomic_add_loop fs val cell cell"

fun dsan_atomic_cmpxchng :: "(u64 \<Rightarrow> u64) list \<Rightarrow> u64 \<Rightarrow> u64 \<Rightarrow> u64 \<times> u64 \<times> (u64 \<Rightarrow> u64) list" where
  "dsan_atomic_cmpxchng [] desired cell = (cell, desired, [])"
| "dsan_atomic_cmpxchng (f # fs) desired cell =
     (let expected = cell; cell = f cell in
      if cell = expected then (expected, desired, fs) else dsan_atomic_cmpxchng fs desired cell)"

lemma dsan_atomic_add_alone [simp]: "dsan_atomic_add [] v c = (c + v, c + v, [])"
  by (simp add: dsan_atomic_add_def)

subsection \<open>dang_alloc_threadlog\<close>

definition new_log :: "dparams \<Rightarrow> u64 \<Rightarrow> u64 list \<Rightarrow> objlog" where
  "new_log pr tid garbage =
     \<lparr>thread_id = tid, next_log = 0, index = 0, end_idx = 0, count = 0,
      log_size = OBJLOG_MAX_PTRS pr, next_growlog = 0, log_buf = garbage\<rparr>"

text \<open>The exchange \<^verbatim>\<open>dsan_atomic_cmpxchng\<close> stores the new log in \<^verbatim>\<open>prev_log->next_log\<close> and returns
  what was there.\<close>

definition dang_alloc_threadlog :: "dparams \<Rightarrow> u64 \<Rightarrow> dsan \<Rightarrow> (u64 \<times> dsan) res" where
  "dang_alloc_threadlog pr prev_log s =
     (case DANG_MALLOC pr (OBJLOG_SIZE pr) s of
        (a, garbage, s) \<Rightarrow>
          if a = 0 then Inl Segv
          else
            let lg = new_log pr (threadlocal_id s) garbage in
            if prev_log \<noteq> 0 then
              bindR (get_log s prev_log) (\<lambda>pl.
                case dsan_atomic_cmpxchng [] a (next_log pl) of (expected, cell, _) \<Rightarrow>
                  Inr (a, put_log a (lg\<lparr>next_log := expected\<rparr>)
                            (put_log prev_log (pl\<lparr>next_log := cell\<rparr>) s)))
            else Inr (a, put_log a lg s))"

subsection \<open>dang_register\<close>

text \<open>The global counter is incremented by one run of \<^verbatim>\<open>dsan_atomic_add\<close>, which is atomic under interference.\<close>

definition init_thread :: "dsan \<Rightarrow> dsan" where
  "init_thread s =
     (if threadlocal_id s = 0
      then case dsan_atomic_add [] 1 (threadglobal_id s) of (desired, cell, _) \<Rightarrow>
             s\<lparr>threadglobal_id := cell, threadlocal_id := desired\<rparr>
      else s)"

fun find_threadlog :: "nat \<Rightarrow> dsan \<Rightarrow> u64 \<Rightarrow> u64 \<Rightarrow> (u64 \<times> u64) res" where
  "find_threadlog 0 s prev cur = Inl Diverge"
| "find_threadlog (Suc fuel) s prev cur =
     (if cur = 0 then Inr (prev, 0)
      else bindR (get_log s cur) (\<lambda>lg.
        if thread_id lg = threadlocal_id s then Inr (prev, cur)
        else find_threadlog fuel s cur (next_log lg)))"

text \<open>The log is full even after reclaiming: the first time a second buffer is chained, later that
  buffer is doubled.\<close>

definition grow_log :: "dparams \<Rightarrow> u64 \<Rightarrow> u64 \<Rightarrow> dsan \<Rightarrow> (u64 \<times> dsan) res" where
  "grow_log pr base loc s =
     bindR (get_log s base) (\<lambda>bl.
       bindR
         (if next_growlog bl = 0 then dang_alloc_threadlog pr 0 s
          else
            bindR (get_log s loc) (\<lambda>lg.
              case DANG_REALLOC pr loc ((OBJLOG_START_IDX + 2 * log_size lg) * 8) s of
                (a, garbage, s) \<Rightarrow>
                  if a = 0 then Inl Trap
                  else Inr (a, put_log a
                         (lg\<lparr>index := log_size lg, end_idx := 0, log_size := 2 * log_size lg,
                            log_buf := log_buf lg @ garbage\<rparr>)
                         (s\<lparr>logs := (logs s)(loc := None)\<rparr>))))
         (\<lambda>(a, s). bindR (get_log s base) (\<lambda>bl.
            Inr (a, put_log base (bl\<lparr>next_growlog := a\<rparr>) s))))"

definition reclaim_log :: "dparams \<Rightarrow> u64 \<Rightarrow> u64 \<Rightarrow> u64 \<Rightarrow> u64 \<Rightarrow> dsan \<Rightarrow> (u64 \<times> dsan) res" where
  "reclaim_log pr obj_addr obj_bounds base loc s =
     bindR (get_log s loc) (\<lambda>lg.
       let obj_start = obj_start_of obj_addr obj_bounds;
           obj_end = obj_start + obj_size_of obj_bounds
       in bindR (dang_clear_objlog (mmem (meta s)) obj_start obj_end lg) (\<lambda>lg.
            let s = put_log loc lg s in
            if log_size lg \<le> count lg then grow_log pr base loc s else Inr (loc, s)))"

text \<open>From the thread's log on: pick the buffer in use, make room, insert.\<close>

definition register_at :: "dparams \<Rightarrow> u64 \<Rightarrow> u64 \<Rightarrow> u64 \<Rightarrow> u64 \<Rightarrow> dsan \<Rightarrow> dsan res" where
  "register_at pr ptr_addr obj_addr obj_bounds base s =
     bindR (get_log s base) (\<lambda>bl.
     let loc = (if next_growlog bl \<noteq> 0 then next_growlog bl else base) in
     bindR (get_log s loc) (\<lambda>lg.
     bindR (if log_threshold (log_size lg) \<le> count lg
            then reclaim_log pr obj_addr obj_bounds base loc s else Inr (loc, s)) (\<lambda>(loc, s).
     bindR (get_log s loc) (\<lambda>lg.
     bindR (log_insert (N_LOOKBEHIND pr) ptr_addr lg) (\<lambda>lg.
       Inr (put_log loc lg s))))))"

definition dang_register ::
  "dparams \<Rightarrow> nat \<Rightarrow> u64 \<Rightarrow> u64 \<Rightarrow> u64 \<Rightarrow> u64 \<Rightarrow> dsan \<Rightarrow> dsan res" where
  "dang_register pr fuel ptr_addr obj_addr obj_log obj_bounds s0 =
     (let s = init_thread s0 in
      bindR (find_threadlog fuel s 0 obj_log) (\<lambda>(obj_logprev, obj_logtemp).
      bindR (if obj_logtemp = 0 then dang_alloc_threadlog pr obj_logprev s
             else Inr (obj_logtemp, s)) (\<lambda>(base, s).
      register_at pr ptr_addr obj_addr obj_bounds base s)))"

subsection \<open>inlinedang_registerptr\<close>

definition inlinedang_registerptr :: "dparams \<Rightarrow> nat \<Rightarrow> u64 \<Rightarrow> u64 \<Rightarrow> dsan \<Rightarrow> dsan res" where
  "inlinedang_registerptr pr fuel ptr_addr obj_addr s =
     (if obj_addr = 0 \<or> obj_addr AND DANG_NULL \<noteq> 0 then Inr s
      else if (dang_stack_start s \<le> obj_addr \<and> obj_addr \<le> dang_stack_end s) \<or>
              (dang_global_start s \<le> obj_addr \<and> obj_addr \<le> dang_global_end s) then Inr s
      else
        bindR (metaget_16 obj_addr s) (\<lambda>obj_metadata.
          if meta16_a obj_metadata = 0 then Inr s
          else if \<not> TRACK_ALL_PTRS pr \<and>
              ((dang_stack_start s \<le> ptr_addr \<and> ptr_addr \<le> dang_stack_end s) \<or>
               (dang_global_start s \<le> ptr_addr \<and> ptr_addr \<le> dang_global_end s)) then Inr s
          else
            let obj_start = obj_start_of obj_addr (meta16_b obj_metadata);
                obj_end = obj_start + obj_size_of (meta16_b obj_metadata)
            in bindR (of_opt Segv (load64 (mmem (meta s)) ptr_addr)) (\<lambda>obj_oldaddr.
                 if obj_start \<le> obj_oldaddr \<and> obj_oldaddr < obj_end then Inr s
                 else dang_register pr fuel ptr_addr obj_addr (meta16_a obj_metadata)
                        (meta16_b obj_metadata) s)))"

subsection \<open>dang_freeptr\<close>

fun free_growlogs :: "nat \<Rightarrow> u64 \<Rightarrow> u64 \<Rightarrow> u64 \<Rightarrow> dsan \<Rightarrow> dsan res" where
  "free_growlogs 0 obj_addr obj_end cur s = Inl Diverge"
| "free_growlogs (Suc fuel) obj_addr obj_end cur s =
     (if cur = 0 then Inr s
      else bindR (get_log s cur) (\<lambda>lg.
        bindR (free_log obj_addr obj_end lg (mmem (meta s))) (\<lambda>m.
          free_growlogs fuel obj_addr obj_end (next_growlog lg)
            (DANG_FREE cur (s\<lparr>meta := (meta s)\<lparr>mmem := m\<rparr>\<rparr>)))))"

fun free_threadlogs :: "nat \<Rightarrow> nat \<Rightarrow> u64 \<Rightarrow> u64 \<Rightarrow> u64 \<Rightarrow> dsan \<Rightarrow> dsan res" where
  "free_threadlogs 0 gfuel obj_addr obj_end cur s = Inl Diverge"
| "free_threadlogs (Suc fuel) gfuel obj_addr obj_end cur s =
     (if cur = 0 then Inr s
      else bindR (get_log s cur) (\<lambda>lg.
        bindR (free_growlogs gfuel obj_addr obj_end cur s)
          (free_threadlogs fuel gfuel obj_addr obj_end (next_log lg))))"

definition dang_freeptr :: "nat \<Rightarrow> u64 \<Rightarrow> u64 \<Rightarrow> dsan \<Rightarrow> dsan res" where
  "dang_freeptr fuel obj_addr sz s =
     (if free_flag s then Inr (s\<lparr>free_flag := False\<rparr>)
      else bindR (metaget_16 obj_addr s) (\<lambda>metadata.
        bindR (free_threadlogs fuel fuel obj_addr (obj_addr + sz) (meta16_a metadata) s)
          (metaset_16 obj_addr sz (mk_meta16 0 0))))"

subsection \<open>dang_init_heapobj\<close>

definition dang_init_heapobj :: "dparams \<Rightarrow> u64 \<Rightarrow> u64 \<Rightarrow> dsan \<Rightarrow> dsan res" where
  "dang_init_heapobj pr obj_addr sz s =
     (if malloc_flag s then Inr (s\<lparr>malloc_flag := False\<rparr>)
      else
        case DANG_MALLOC pr (OBJLOG_SIZE pr) (init_thread s) of
          (a, garbage, s) \<Rightarrow>
            if a = 0 then Inl Segv
            else metaset_16 obj_addr sz (mk_meta16 a (pack_bounds obj_addr sz))
                   (put_log a (new_log pr (threadlocal_id s) garbage) s))"

end
