(* ===== verification/DangSan_Proofs.thy ===== *)
theory DangSan_Proofs
  imports DangSan
begin

unbundle bit_operations_syntax

section \<open>The logs of an object: freeing and registering\<close>

text \<open>
  The chain of an object's logs, and what \<^verbatim>\<open>dang_freeptr\<close> and \<^verbatim>\<open>dang_register\<close> do to it.  Freeing
  walks the chain, nullifies every registered location that points into the object and releases
  the buffers; registering finds or appends the thread's log, reclaims or grows it and
  inserts.  Each is shown against the set of locations the chain tracks.
\<close>

subsection \<open>The logs of an object\<close>

text \<open>An object's logs are the chain of its threads' logs, each with its chain of grown buffers.\<close>

fun grow_chain :: "(u64 \<Rightarrow> objlog option) \<Rightarrow> u64 \<Rightarrow> u64 list \<Rightarrow> bool" where
  "grow_chain L a [] = (a = 0)"
| "grow_chain L a (x # xs) =
     (a = x \<and> x \<noteq> 0 \<and> (case L x of None \<Rightarrow> False | Some lg \<Rightarrow> grow_chain L (next_growlog lg) xs))"

fun thread_chain :: "(u64 \<Rightarrow> objlog option) \<Rightarrow> u64 \<Rightarrow> u64 list list \<Rightarrow> bool" where
  "thread_chain L a [] = (a = 0)"
| "thread_chain L a (gs # gss) =
     (gs \<noteq> [] \<and> grow_chain L a gs \<and>
      (case L a of None \<Rightarrow> False | Some lg \<Rightarrow> thread_chain L (next_log lg) gss))"

definition logs_ptrs :: "(u64 \<Rightarrow> objlog option) \<Rightarrow> u64 list \<Rightarrow> u64 set" where
  "logs_ptrs L xs = (\<Union>x\<in>set xs. log_ptrs (the (L x)))"

definition logs_wf :: "(u64 \<Rightarrow> objlog option) \<Rightarrow> u64 list \<Rightarrow> bool" where
  "logs_wf L xs \<longleftrightarrow> distinct xs \<and> (\<forall>x\<in>set xs. log_wf (the (L x)))"

lemma grow_chain_cong: "(\<And>x. x \<in> set xs \<Longrightarrow> L x = L' x) \<Longrightarrow> grow_chain L a xs = grow_chain L' a xs"
  by (induction xs arbitrary: a) (auto split: option.splits)

lemma thread_chain_hd: "thread_chain L a (gs # gss) \<Longrightarrow> a \<in> set gs \<and> a \<noteq> 0"
  by (cases gs) auto

lemma thread_chain_cong:
  "(\<And>x. x \<in> set (concat gss) \<Longrightarrow> L x = L' x) \<Longrightarrow> thread_chain L a gss = thread_chain L' a gss"
proof (induction gss arbitrary: a)
  case (Cons gs gss)
  have g: "grow_chain L a gs = grow_chain L' a gs" by (rule grow_chain_cong) (use Cons.prems in auto)
  have t: "thread_chain L b gss = thread_chain L' b gss" for b by (rule Cons.IH) (use Cons.prems in auto)
  show ?case
  proof (cases "a \<in> set gs")
    case True
    then have "L a = L' a" using Cons.prems by simp
    then show ?thesis by (simp add: g t split: option.split)
  next
    case False
    then show ?thesis using thread_chain_hd[of L a gs gss] thread_chain_hd[of L' a gs gss] by metis
  qed
qed simp

lemma logs_ptrs_cong: "(\<And>x. x \<in> set xs \<Longrightarrow> L x = L' x) \<Longrightarrow> logs_ptrs L xs = logs_ptrs L' xs"
  by (simp add: logs_ptrs_def)

lemma logs_wf_cong: "(\<And>x. x \<in> set xs \<Longrightarrow> L x = L' x) \<Longrightarrow> logs_wf L xs = logs_wf L' xs"
  by (simp add: logs_wf_def)

definition freed :: "dsan \<Rightarrow> mem \<Rightarrow> u64 list \<Rightarrow> dsan" where
  "freed s m xs = s\<lparr>meta := (meta s)\<lparr>mmem := m\<rparr>, logs := (logs s) |` (- set xs)\<rparr>"

lemma freed_simps [simp]:
  "logs (freed s m xs) = (logs s) |` (- set xs)" "mmem (meta (freed s m xs)) = m"
  "free_flag (freed s m xs) = free_flag s"
  by (simp_all add: freed_def)

lemma restrict_UNIV [simp]: "m |` UNIV = m"
  by (rule ext) simp

lemma freed_Nil [simp]: "freed s (mmem (meta s)) [] = s"
  by (simp add: freed_def)

lemma freed_freed: "freed (freed s m xs) m' ys = freed s m' (xs @ ys)"
  by (simp add: freed_def restrict_restrict)

lemma DANG_FREE_freed:
  assumes "\<not> free_flag s"
  shows "DANG_FREE x (s\<lparr>meta := (meta s)\<lparr>mmem := m\<rparr>\<rparr>) = freed s m [x]"
proof -
  have "(logs s)(x := None) = (logs s) |` (- {x})" by (auto simp: restrict_map_def)
  then show ?thesis using assms by (cases s) (simp add: DANG_FREE_def freed_def)
qed

lemma free_growlogs_correct:
  assumes oe: "oe \<le> DANG_NULL"
  shows "grow_chain (logs s) cur gs \<Longrightarrow> logs_wf (logs s) gs \<Longrightarrow> ptr_locs (logs_ptrs (logs s) gs) \<Longrightarrow>
    \<not> free_flag s \<Longrightarrow> length gs < fuel \<Longrightarrow>
    \<exists>m'. free_growlogs fuel oa oe cur s = Inr (freed s m' gs) \<and>
      nullified oa oe (logs_ptrs (logs s) gs) (mmem (meta s)) m'"
proof (induction gs arbitrary: cur s fuel)
  case Nil
  then show ?case by (cases fuel) (auto simp: logs_ptrs_def intro: exI[of _ "mmem (meta s)"])
next
  case (Cons x gs)
  obtain f where f: "fuel = Suc f" "length gs < f" using Cons.prems(5) by (cases fuel) auto
  obtain lg where lg: "logs s x = Some lg" and x: "cur = x" "x \<noteq> 0"
    and ch: "grow_chain (logs s) (next_growlog lg) gs"
    using Cons.prems(1) by (auto split: option.splits)
  have wf: "log_wf lg" and xgs: "x \<notin> set gs" "logs_wf (logs s) gs"
    using Cons.prems(2) lg by (auto simp: logs_wf_def)
  have ptrs: "logs_ptrs (logs s) (x # gs) = log_ptrs lg \<union> logs_ptrs (logs s) gs"
    using lg by (simp add: logs_ptrs_def)
  then have p1: "ptr_locs (log_ptrs lg)" and p2: "ptr_locs (logs_ptrs (logs s) gs)"
    using Cons.prems(3) by simp_all
  obtain m1 where m1: "free_log oa oe lg (mmem (meta s)) = Inr m1"
    "nullified oa oe (log_ptrs lg) (mmem (meta s)) m1"
    using free_log_correct[OF wf oe p1] by blast
  define s1 where "s1 = freed s m1 [x]"
  have same: "logs s1 y = logs s y" if "y \<in> set gs" for y using that xgs by (auto simp: s1_def restrict_map_def)
  have "grow_chain (logs s1) (next_growlog lg) gs" using ch grow_chain_cong[OF same] by simp
  moreover have "logs_wf (logs s1) gs" using xgs(2) logs_wf_cong[of gs "logs s1" "logs s"] same by simp
  moreover have pe: "logs_ptrs (logs s1) gs = logs_ptrs (logs s) gs" by (rule logs_ptrs_cong) (rule same)
  moreover have "\<not> free_flag s1" using Cons.prems(4) by (simp add: s1_def)
  ultimately obtain m' where m': "free_growlogs f oa oe (next_growlog lg) s1 = Inr (freed s1 m' gs)"
    "nullified oa oe (logs_ptrs (logs s) gs) (mmem (meta s1)) m'"
    using Cons.IH[of s1 "next_growlog lg" f] p2 f(2) by auto
  have "free_growlogs fuel oa oe cur s = Inr (freed s m' (x # gs))"
    using m1(1) m'(1) lg x DANG_FREE_freed[OF Cons.prems(4)] freed_freed[of s m1 "[x]" m' gs]
    by (simp add: f(1) get_log_def s1_def)
  then show ?case using nullified_comp[OF m1(2) _ p1 p2 oe, of m'] m'(2) ptrs
    by (intro exI[of _ m']) (simp add: s1_def)
qed

lemma free_threadlogs_correct:
  assumes oe: "oe \<le> DANG_NULL"
  shows "thread_chain (logs s) cur gss \<Longrightarrow> logs_wf (logs s) (concat gss) \<Longrightarrow>
    ptr_locs (logs_ptrs (logs s) (concat gss)) \<Longrightarrow> \<not> free_flag s \<Longrightarrow> length gss < fuel \<Longrightarrow>
    \<forall>gs\<in>set gss. length gs < gfuel \<Longrightarrow>
    \<exists>m'. free_threadlogs fuel gfuel oa oe cur s = Inr (freed s m' (concat gss)) \<and>
      nullified oa oe (logs_ptrs (logs s) (concat gss)) (mmem (meta s)) m'"
proof (induction gss arbitrary: cur s fuel)
  case Nil
  then show ?case by (cases fuel) (auto simp: logs_ptrs_def intro: exI[of _ "mmem (meta s)"])
next
  case (Cons gs gss)
  obtain f where f: "fuel = Suc f" "length gss < f" using Cons.prems(5) by (cases fuel) auto
  obtain lg where lg: "logs s cur = Some lg" and ch: "grow_chain (logs s) cur gs"
    and th: "thread_chain (logs s) (next_log lg) gss" and c0: "cur \<noteq> 0"
    using Cons.prems(1) thread_chain_hd by (auto split: option.splits)
  have w: "logs_wf (logs s) gs" "logs_wf (logs s) (concat gss)" "set gs \<inter> set (concat gss) = {}"
    using Cons.prems(2) by (auto simp: logs_wf_def)
  have ptrs: "logs_ptrs (logs s) (concat (gs # gss)) = logs_ptrs (logs s) gs \<union> logs_ptrs (logs s) (concat gss)"
    by (auto simp: logs_ptrs_def)
  then have p1: "ptr_locs (logs_ptrs (logs s) gs)" and p2: "ptr_locs (logs_ptrs (logs s) (concat gss))"
    using Cons.prems(3) by simp_all
  have g: "length gs < gfuel" using Cons.prems(6) by simp
  obtain m1 where m1: "free_growlogs gfuel oa oe cur s = Inr (freed s m1 gs)"
    "nullified oa oe (logs_ptrs (logs s) gs) (mmem (meta s)) m1"
    using free_growlogs_correct[OF oe ch w(1) p1 Cons.prems(4) g] by blast
  define s1 where "s1 = freed s m1 gs"
  have same: "logs s1 y = logs s y" if "y \<in> set (concat gss)" for y using that w(3) by (auto simp: s1_def restrict_map_def)
  have "thread_chain (logs s1) (next_log lg) gss" using th thread_chain_cong[OF same] by simp
  moreover have "logs_wf (logs s1) (concat gss)" using w(2) logs_wf_cong[of "concat gss" "logs s1" "logs s"] same by simp
  moreover have pe: "logs_ptrs (logs s1) (concat gss) = logs_ptrs (logs s) (concat gss)"
    by (rule logs_ptrs_cong) (rule same)
  moreover have "\<not> free_flag s1" using Cons.prems(4) by (simp add: s1_def)
  ultimately obtain m' where m': "free_threadlogs f gfuel oa oe (next_log lg) s1 = Inr (freed s1 m' (concat gss))"
    "nullified oa oe (logs_ptrs (logs s) (concat gss)) (mmem (meta s1)) m'"
    using Cons.IH[of s1 "next_log lg" f] p2 f(2) Cons.prems(6) by auto
  have "free_threadlogs fuel gfuel oa oe cur s = Inr (freed s m' (concat (gs # gss)))"
    using m1(1) m'(1) lg c0 freed_freed[of s m1 gs m' "concat gss"]
    by (simp add: f(1) get_log_def s1_def)
  then show ?case using nullified_comp[OF m1(2) _ p1 p2 oe, of m'] m'(2) ptrs
    by (intro exI[of _ m']) (simp add: s1_def)
qed

definition meta_span :: "dsan \<Rightarrow> u64 \<Rightarrow> u64 \<Rightarrow> u64 set" where
  "meta_span s p cnt =
     (case metaptr_at 16 (meta s) p of Inl _ \<Rightarrow> {}
      | Inr (e, base) \<Rightarrow> addrs base (unat (metasize_of cnt (e AND 0xFF)) * 16))"

lemma length_mk_meta16 [simp]: "length (mk_meta16 a b) = 16"
  by (simp add: mk_meta16_def)

lemma meta16_mk [simp]: "meta16_a (mk_meta16 a b) = a" "meta16_b (mk_meta16 a b) = b"
  by (simp_all add: mk_meta16_def meta16_a_def meta16_b_def)

text \<open>\<^verbatim>\<open>metaset_16\<close> on an object with metadata: what it leaves in memory and what is read back.\<close>

lemma metaset_16_run:
  assumes cov: "meta_covers 16 (meta s) p cnt"
  obtains m' where "metaset_16 p cnt (mk_meta16 a b) s = Inr (s\<lparr>meta := (meta s)\<lparr>mmem := m'\<rparr>\<rparr>)"
    "dom m' = dom (mmem (meta s))" "\<forall>x. x \<notin> meta_span s p cnt \<longrightarrow> m' x = mmem (meta s) x"
    "\<forall>q. unat p \<le> unat q \<and> unat q < unat p + unat cnt \<longrightarrow>
       metaget 16 [] q ((meta s)\<lparr>mmem := m'\<rparr>) = Inr (mk_meta16 a b)"
proof -
  let ?v = "mk_meta16 a b"
  obtain e base k m' where r: "metaptr_at 16 (meta s) p = Inr (e, base)"
    "k = unat (metasize_of cnt (e AND 0xFF))"
    "metaset 16 p cnt ?v (meta s) = Inr (e, (meta s)\<lparr>mmem := m'\<rparr>)" "dom m' = dom (mmem (meta s))"
    "\<forall>x. x \<notin> addrs base (k * 16) \<longrightarrow> m' x = mmem (meta s) x"
    using metaset_run[OF cov length_mk_meta16, of a b] by metis
  have st: "metaset_state 16 p cnt ?v (meta s) = Inr ((meta s)\<lparr>mmem := m'\<rparr>)"
    using r(3) by (simp add: metaset_state_def)
  have "\<forall>x. x \<notin> meta_span s p cnt \<longrightarrow> m' x = mmem (meta s) x"
    using r(1,2,5) by (simp add: meta_span_def)
  moreover have "metaset_16 p cnt ?v s = Inr (s\<lparr>meta := (meta s)\<lparr>mmem := m'\<rparr>\<rparr>)"
    using r(3) by (simp add: metaset_16_def)
  ultimately show ?thesis using that r(4) metaget_metaset_same[OF cov length_mk_meta16 st] by blast
qed

lemma meta_span_freed [simp]: "meta_span (freed s m xs) p cnt = meta_span s p cnt"
  by (simp add: meta_span_def freed_def)

lemma freeptr_run:
  assumes "\<not> free_flag s" and "metaget_16 obj s = Inr md"
    and "thread_chain (logs s) (meta16_a md) gss" and "logs_wf (logs s) (concat gss)"
    and "P = logs_ptrs (logs s) (concat gss)" and "ptr_locs P"
    and "obj + sz \<le> DANG_NULL" and "meta_covers 16 (meta s) obj sz"
    and "\<forall>p\<in>P. addrs p 8 \<inter> meta_span s obj sz = {}"
    and "length gss < fuel" and "\<forall>gs\<in>set gss. length gs < fuel"
  shows "\<exists>s'. dang_freeptr fuel obj sz s = Inr s' \<and>
     (\<forall>p\<in>P. load64 (mmem (meta s')) p = map_option (nulled obj (obj + sz)) (load64 (mmem (meta s)) p)) \<and>
     (\<forall>x. x \<notin> (\<Union>p\<in>P. addrs p 8) \<and> x \<notin> meta_span s obj sz \<longrightarrow> mmem (meta s') x = mmem (meta s) x) \<and>
     logs s' = (logs s) |` (- set (concat gss)) \<and>
     (\<forall>q. unat obj \<le> unat q \<and> unat q < unat obj + unat sz \<longrightarrow> metaget_16 q s' = Inr (mk_meta16 0 0))"
proof -
  obtain m1 where run: "free_threadlogs fuel fuel obj (obj + sz) (meta16_a md) s = Inr (freed s m1 (concat gss))"
    and nul: "nullified obj (obj + sz) P (mmem (meta s)) m1"
    using free_threadlogs_correct[OF assms(7,3,4) _ assms(1,10,11)] assms(5,6) by blast
  define s1 where "s1 = freed s m1 (concat gss)"
  have "meta s1 = (meta s)\<lparr>mmem := m1\<rparr>" by (simp add: s1_def freed_def)
  then have cov: "meta_covers 16 (meta s1) obj sz"
    using meta_covers_dom[of m1 "meta s"] nul assms(8) by (simp add: nullified_def)
  obtain m' where m': "metaset_16 obj sz (mk_meta16 0 0) s1 = Inr (s1\<lparr>meta := (meta s1)\<lparr>mmem := m'\<rparr>\<rparr>)"
    "\<forall>x. x \<notin> meta_span s1 obj sz \<longrightarrow> m' x = mmem (meta s1) x"
    "\<forall>q. unat obj \<le> unat q \<and> unat q < unat obj + unat sz \<longrightarrow>
       metaget 16 [] q ((meta s1)\<lparr>mmem := m'\<rparr>) = Inr (mk_meta16 0 0)"
    using metaset_16_run[OF cov] by metis
  define s' where "s' = s1\<lparr>meta := (meta s1)\<lparr>mmem := m'\<rparr>\<rparr>"
  have frame: "m' x = m1 x" if "x \<notin> meta_span s obj sz" for x using m'(2) that by (simp add: s1_def)
  have "dang_freeptr fuel obj sz s = Inr s'"
    using assms(1,2) run m'(1) by (simp add: dang_freeptr_def s1_def s'_def)
  moreover have "load64 m' p = load64 m1 p" if "p \<in> P" for p
    by (rule load64_cong) (use frame assms(9) that in blast)
  then have "\<forall>p\<in>P. load64 (mmem (meta s')) p = map_option (nulled obj (obj + sz)) (load64 (mmem (meta s)) p)"
    using nul by (simp add: s'_def nullified_def)
  moreover have "\<forall>x. x \<notin> (\<Union>p\<in>P. addrs p 8) \<and> x \<notin> meta_span s obj sz \<longrightarrow> mmem (meta s') x = mmem (meta s) x"
    using frame nul by (simp add: s'_def nullified_def)
  moreover have "logs s' = (logs s) |` (- set (concat gss))" by (simp add: s'_def s1_def)
  moreover have "\<forall>q. unat obj \<le> unat q \<and> unat q < unat obj + unat sz \<longrightarrow> metaget_16 q s' = Inr (mk_meta16 0 0)"
    using m'(3) by (simp add: metaget_16_def s'_def)
  ultimately show ?thesis by blast
qed

subsection \<open>Registering\<close>

text \<open>What is relied on of the process allocator, for the states with the buffers of \<open>s\<close>: a new block
  is not a buffer in use, has the size asked for, and a moved block is new too.\<close>

definition alloc_ok :: "dparams \<Rightarrow> dsan \<Rightarrow> bool" where
  "alloc_ok pr s \<longleftrightarrow> (\<forall>s'. dom (logs s') = dom (logs s) \<longrightarrow>
     (case sys_malloc pr (OBJLOG_SIZE pr) s' of (a, g, _) \<Rightarrow>
        a \<noteq> 0 \<and> logs s a = None \<and> length g = OBJLOG_MAX_PTRS pr) \<and>
     (\<forall>loc n. case sys_realloc pr loc ((OBJLOG_START_IDX + 2 * n) * 8) s' of (a, g, _) \<Rightarrow>
        a \<noteq> 0 \<and> (a = loc \<or> logs s a = None) \<and> length g = n))"

text \<open>One thread's buffers for an object: its log and at most one grown buffer.\<close>

definition thread_logs :: "(u64 \<Rightarrow> objlog option) \<Rightarrow> u64 \<Rightarrow> u64 list \<Rightarrow> bool" where
  "thread_logs L b gs \<longleftrightarrow> grow_chain L b gs \<and> gs \<noteq> [] \<and> length gs \<le> 2 \<and> logs_wf L gs"

lemma thread_logs_cases:
  assumes "thread_logs L b gs"
  obtains (one) lg where "gs = [b]" "b \<noteq> 0" "L b = Some lg" "next_growlog lg = 0" "log_wf lg"
  | (two) g bl lg where "gs = [b, g]" "b \<noteq> 0" "g \<noteq> 0" "b \<noteq> g" "L b = Some bl" "next_growlog bl = g"
      "L g = Some lg" "next_growlog lg = 0" "log_wf bl" "log_wf lg"
proof -
  obtain x xs where gs: "gs = x # xs" using assms by (cases gs) (auto simp: thread_logs_def)
  show ?thesis
  proof (cases xs)
    case Nil
    then show ?thesis using assms gs that(1)
      by (auto simp: thread_logs_def logs_wf_def split: option.splits)
  next
    case (Cons y ys)
    then have "ys = []" using assms gs by (cases ys) (auto simp: thread_logs_def)
    then show ?thesis using assms gs Cons that(2)
      by (auto simp: thread_logs_def logs_wf_def split: option.splits)
  qed
qed

lemma thread_logs_one: "b \<noteq> 0 \<Longrightarrow> L b = Some lg \<Longrightarrow> next_growlog lg = 0 \<Longrightarrow> log_wf lg \<Longrightarrow>
    thread_logs L b [b]"
  by (simp add: thread_logs_def logs_wf_def)

lemma thread_logs_two: "b \<noteq> 0 \<Longrightarrow> g \<noteq> 0 \<Longrightarrow> b \<noteq> g \<Longrightarrow> L b = Some bl \<Longrightarrow> next_growlog bl = g \<Longrightarrow>
    L g = Some lg \<Longrightarrow> next_growlog lg = 0 \<Longrightarrow> log_wf bl \<Longrightarrow> log_wf lg \<Longrightarrow> thread_logs L b [b, g]"
  by (simp add: thread_logs_def logs_wf_def)

lemma log_wf_links [simp]:
  "log_wf (lg\<lparr>next_log := a\<rparr>) = log_wf lg" "log_wf (lg\<lparr>next_growlog := a\<rparr>) = log_wf lg"
  "log_ptrs (lg\<lparr>next_log := a\<rparr>) = log_ptrs lg" "log_ptrs (lg\<lparr>next_growlog := a\<rparr>) = log_ptrs lg"
  by (simp_all add: log_wf_def live_def log_ptrs_def)

lemma new_log_wf:
  assumes "OBJLOG_MAX_PTRS pr = 2 ^ k" "k < 31" "length g = OBJLOG_MAX_PTRS pr"
  shows "log_wf (new_log pr tid g)" "log_ptrs (new_log pr tid g) = {}"
  using assms by (auto simp: new_log_def log_wf_def live_def ring_def log_ptrs_def)

text \<open>Doubling a full ring keeps every slot.\<close>

definition doubled :: "objlog \<Rightarrow> u64 list \<Rightarrow> objlog" where
  "doubled lg g = lg\<lparr>index := log_size lg, end_idx := 0, log_size := 2 * log_size lg,
     log_buf := log_buf lg @ g\<rparr>"

lemma full_ring_live:
  assumes "log_wf lg" "count lg = log_size lg" shows "live lg = {..<log_size lg}"
proof -
  let ?f = "\<lambda>k. (end_idx lg + k) mod log_size lg"
  have "inj_on ?f {..<log_size lg}" by (rule inj_onI) (use ring_inj in blast)
  then have "card (?f ` {..<log_size lg}) = log_size lg" by (simp add: card_image)
  moreover have "?f ` {..<log_size lg} \<subseteq> {..<log_size lg}" using log_wf_pos[OF assms(1)] by auto
  ultimately have "?f ` {..<log_size lg} = {..<log_size lg}" by (intro card_subset_eq) simp_all
  then show ?thesis by (simp add: live_def ring_def assms(2))
qed

lemma doubled_wf:
  assumes wf: "log_wf lg" and full: "count lg = log_size lg" and g: "length g = log_size lg"
    and b: "log_size lg < 2 ^ 30"
  shows "log_wf (doubled lg g)" and "log_ptrs (doubled lg g) = log_ptrs lg"
proof -
  obtain n where n: "log_size lg = 2 ^ n" using wf by (auto simp: log_wf_def)
  then have "(2::nat) ^ n < 2 ^ 30" using b by simp
  then have n30: "n < 30" using power_less_imp_less_exp[of "2::nat" n 30] by simp
  have lv: "live lg = {..<log_size lg}" by (rule full_ring_live[OF wf full])
  have len: "length (log_buf lg) = log_size lg" using wf by (simp add: log_wf_def)
  have lv': "live (doubled lg g) = {..<log_size lg}"
    using full log_wf_pos[OF wf] by (auto simp: live_def ring_def doubled_def)
  have "\<forall>j<log_size lg. slot_wf (log_buf lg ! j)" using wf lv by (auto simp: log_wf_def)
  then have wfs: "\<forall>j<log_size lg. slot_wf ((log_buf lg @ g) ! j)" by (simp add: nth_append len)
  have "\<exists>m<31. 2 * log_size lg = 2 ^ m" using n n30 by (intro exI[of _ "Suc n"]) simp
  then show "log_wf (doubled lg g)" unfolding log_wf_def lv'
    using full g len wfs log_wf_pos[OF wf] by (simp add: doubled_def)
  show "log_ptrs (doubled lg g) = log_ptrs lg"
    unfolding log_ptrs_def lv lv' by (auto simp: doubled_def nth_append len)
qed

lemma log_simps [simp]:
  "logs (put_log a lg s) = (logs s)(a \<mapsto> lg)" "meta (put_log a lg s) = meta s"
  "threadlocal_id (put_log a lg s) = threadlocal_id s"
  "logs s a = Some lg \<Longrightarrow> get_log s a = Inr lg"
  by (simp_all add: put_log_def get_log_def)

lemma alloc_ok_dom:
  assumes "dom (logs s') = dom (logs s)" and ok: "alloc_ok pr s" shows "alloc_ok pr s'"
proof -
  have "logs s' a = None \<longleftrightarrow> logs s a = None" for a using assms(1) by (metis domIff)
  then show ?thesis using ok assms(1) unfolding alloc_ok_def by simp
qed

lemma DANG_MALLOC_ok:
  assumes "alloc_ok pr s"
  obtains a g mt where "DANG_MALLOC pr (OBJLOG_SIZE pr) s = (a, g, s\<lparr>meta := mt, malloc_flag := False\<rparr>)"
    "a \<noteq> 0" "logs s a = None" "length g = OBJLOG_MAX_PTRS pr"
proof -
  obtain a g mt where r: "sys_malloc pr (OBJLOG_SIZE pr) (s\<lparr>malloc_flag := True\<rparr>) = (a, g, mt)"
    by (cases "sys_malloc pr (OBJLOG_SIZE pr) (s\<lparr>malloc_flag := True\<rparr>)")
  have "a \<noteq> 0 \<and> logs s a = None \<and> length g = OBJLOG_MAX_PTRS pr"
    using conjunct1[OF mp[OF spec[OF assms[unfolded alloc_ok_def], of "s\<lparr>malloc_flag := True\<rparr>"]]]
    unfolding r prod.case by simp
  then show ?thesis using that r by (simp add: DANG_MALLOC_def)
qed

lemma DANG_REALLOC_ok:
  assumes "alloc_ok pr s"
  obtains a g mt where "DANG_REALLOC pr loc ((OBJLOG_START_IDX + 2 * n) * 8) s
      = (a, g, s\<lparr>meta := mt, malloc_flag := False, free_flag := False\<rparr>)"
    "a \<noteq> 0" "a = loc \<or> logs s a = None" "length g = n"
proof -
  let ?s = "s\<lparr>malloc_flag := True, free_flag := True\<rparr>"
  obtain a g mt where r: "sys_realloc pr loc ((OBJLOG_START_IDX + 2 * n) * 8) ?s = (a, g, mt)"
    by (cases "sys_realloc pr loc ((OBJLOG_START_IDX + 2 * n) * 8) ?s")
  have d: "dom (logs ?s) = dom (logs s)" by simp
  note ok = conjunct2[OF mp[OF spec[OF assms[unfolded alloc_ok_def], of ?s] d]]
  have "a \<noteq> 0 \<and> (a = loc \<or> logs s a = None) \<and> length g = n"
    using spec[OF spec[OF ok, of loc], of n] unfolding r prod.case .
  then show ?thesis using that r by (simp add: DANG_REALLOC_def)
qed

text \<open>One thread's buffers before and after a step: no location that points into the object is
  lost, the place in the chain of threads is kept, and no other buffer changes.\<close>

definition advanced :: "(u64 \<Rightarrow> bool) \<Rightarrow> u64 set \<Rightarrow> (u64 \<Rightarrow> objlog option) \<Rightarrow> (u64 \<Rightarrow> objlog option) \<Rightarrow>
    u64 \<Rightarrow> u64 list \<Rightarrow> u64 list \<Rightarrow> bool" where
  "advanced pts Q L L' b gs gs' \<longleftrightarrow> thread_logs L' b gs' \<and>
     next_log (the (L' b)) = next_log (the (L b)) \<and> thread_id (the (L' b)) = thread_id (the (L b)) \<and>
     (\<forall>x. x \<notin> set gs \<and> x \<notin> set gs' \<longrightarrow> L' x = L x) \<and> (\<forall>x\<in>set gs'. x \<in> set gs \<or> L x = None) \<and>
     (\<forall>p\<in>logs_ptrs L gs. pts p \<longrightarrow> p \<in> logs_ptrs L' gs') \<and>
     logs_ptrs L' gs' \<subseteq> Q \<union> logs_ptrs L gs"

lemma advanced_refl: "thread_logs L b gs \<Longrightarrow> advanced pts Q L L b gs gs"
  by (auto simp: advanced_def)

lemma advanced_trans_l:
  "advanced pts Q L L1 b gs gs \<Longrightarrow> advanced pts Q L1 L2 b gs gs2 \<Longrightarrow> advanced pts Q L L2 b gs gs2"
  unfolding advanced_def by (intro conjI; (blast | metis))

lemma advanced_trans_r:
  "advanced pts Q L L1 b gs gs1 \<Longrightarrow> advanced pts Q L1 L2 b gs1 gs1 \<Longrightarrow> advanced pts Q L L2 b gs gs1"
  unfolding advanced_def by (intro conjI; (blast | metis))

lemma advanced_weaken: "advanced (\<lambda>_. True) Q L L' b gs gs' \<Longrightarrow> advanced pts Q L L' b gs gs'"
  by (auto simp: advanced_def)

text \<open>Replacing the buffer in use by one with the same links.\<close>

lemma advanced_upd:
  assumes tl: "thread_logs L b gs" and lg: "L (last gs) = Some lg" and wf: "log_wf lg'"
    and links: "next_log lg' = next_log lg" "thread_id lg' = thread_id lg" "next_growlog lg' = next_growlog lg"
    and ptrs: "\<And>p. p \<in> log_ptrs lg \<Longrightarrow> pts p \<Longrightarrow> p \<in> log_ptrs lg'" "log_ptrs lg' \<subseteq> Q \<union> log_ptrs lg"
  shows "advanced pts Q L (L(last gs \<mapsto> lg')) b gs gs"
  using tl
proof (cases rule: thread_logs_cases)
  case (one bl)
  then show ?thesis using lg wf links ptrs by (auto simp: advanced_def logs_ptrs_def thread_logs_def logs_wf_def)
next
  case (two g bl gl)
  then show ?thesis using lg wf links ptrs by (auto simp: advanced_def logs_ptrs_def thread_logs_def logs_wf_def)
qed

lemma grow_log_correct:
  assumes tl: "thread_logs (logs s) b gs" and al: "alloc_ok pr s"
    and mx: "OBJLOG_MAX_PTRS pr = 2 ^ k" "k < 31"
    and lg: "logs s (last gs) = Some lg" and full: "count lg = log_size lg" and bnd: "log_size lg < 2 ^ 30"
  shows "\<exists>s' gs' lg'. grow_log pr b (last gs) s = Inr (last gs', s') \<and>
     advanced (\<lambda>_. True) Q (logs s) (logs s') b gs gs' \<and> 
     logs s' (last gs') = Some lg' \<and> count lg' < log_size lg' \<and> window_live n lg'"
  using tl
proof (cases rule: thread_logs_cases)
  case (one bl)
  obtain a g mt where m: "DANG_MALLOC pr (OBJLOG_SIZE pr) s = (a, g, s\<lparr>meta := mt, malloc_flag := False\<rparr>)"
    "a \<noteq> 0" "logs s a = None" "length g = OBJLOG_MAX_PTRS pr" using DANG_MALLOC_ok[OF al] .
  have ab: "a \<noteq> b" using m(3) one by auto
  let ?new = "new_log pr (threadlocal_id s) g"
  note nw = new_log_wf[OF mx m(4), of "threadlocal_id s"]
  define s' where "s' = put_log b (bl\<lparr>next_growlog := a\<rparr>) (put_log a ?new (s\<lparr>meta := mt, malloc_flag := False\<rparr>))"
  have run: "grow_log pr b (last gs) s = Inr (a, s')"
    using one m ab by (simp add: grow_log_def dang_alloc_threadlog_def Let_def s'_def)
  have L': "logs s' = (logs s)(a \<mapsto> ?new, b \<mapsto> bl\<lparr>next_growlog := a\<rparr>)" by (simp add: s'_def)
  have "thread_logs (logs s') b [b, a]" unfolding L'
    by (rule thread_logs_two[where bl = "bl\<lparr>next_growlog := a\<rparr>" and lg = ?new]) (use one m ab nw in \<open>simp_all add: new_log_def\<close>)
  moreover have "logs_ptrs (logs s) gs = logs_ptrs (logs s') [b, a]"
    using one ab nw by (simp add: logs_ptrs_def L')
  ultimately have "advanced (\<lambda>_. True) Q (logs s) (logs s') b gs [b, a]"
    using one m ab unfolding advanced_def by (auto simp: L')
  moreover have "logs s' a = Some ?new" using ab by (simp add: L')
  ultimately show ?thesis using run mx
    by (intro exI[of _ s'] exI[of _ "[b, a]"] exI[of _ ?new]) (simp add: new_log_def window_live_def)
next
  case (two g0 bl gl)
  have gl: "gl = lg" using lg two by simp
  obtain a g mt where m: "DANG_REALLOC pr g0 ((OBJLOG_START_IDX + 2 * log_size lg) * 8) s
      = (a, g, s\<lparr>meta := mt, malloc_flag := False, free_flag := False\<rparr>)"
    "a \<noteq> 0" "a = g0 \<or> logs s a = None" "length g = log_size lg" using DANG_REALLOC_ok[OF al] .
  have ab: "a \<noteq> b" using m(3) two by auto
  have dw: "log_wf (doubled lg g)" "log_ptrs (doubled lg g) = log_ptrs lg"
    using doubled_wf[OF _ full m(4) bnd] two gl by auto
  define s0 where "s0 = s\<lparr>meta := mt, malloc_flag := False, free_flag := False, logs := (logs s)(g0 := None)\<rparr>"
  define s' where "s' = put_log b (bl\<lparr>next_growlog := a\<rparr>) (put_log a (doubled lg g) s0)"
  have run: "grow_log pr b (last gs) s = Inr (a, s')"
    using two m ab gl by (simp add: grow_log_def doubled_def Let_def s'_def s0_def)
  have L': "logs s' = (logs s)(g0 := None, a \<mapsto> doubled lg g, b \<mapsto> bl\<lparr>next_growlog := a\<rparr>)"
    by (simp add: s'_def s0_def)
  have "thread_logs (logs s') b [b, a]" unfolding L'
    by (rule thread_logs_two[where bl = "bl\<lparr>next_growlog := a\<rparr>" and lg = "doubled lg g"]) (use two m ab dw gl in \<open>simp_all add: doubled_def\<close>)
  moreover have "logs_ptrs (logs s) gs = logs_ptrs (logs s') [b, a]"
    using two ab dw gl by (simp add: logs_ptrs_def L')
  ultimately have "advanced (\<lambda>_. True) Q (logs s) (logs s') b gs [b, a]"
    using two m ab unfolding advanced_def by (auto simp: L')
  moreover have "logs s' a = Some (doubled lg g)" using ab by (simp add: L')
  ultimately show ?thesis using run full log_wf_pos[of lg] two gl
    by (intro exI[of _ s'] exI[of _ "[b, a]"] exI[of _ "doubled lg g"]) (simp add: doubled_def window_live_def)
qed

lemma thread_logs_last:
  assumes "thread_logs L b gs" "L (last gs) = Some lg" shows "log_wf lg" "last gs \<in> set gs"
proof -
  show l: "last gs \<in> set gs" using assms(1) by (simp add: thread_logs_def)
  have "log_wf (the (L (last gs)))" using assms(1) l unfolding thread_logs_def logs_wf_def by blast
  then show "log_wf lg" using assms(2) by simp
qed

lemma reclaim_log_correct:
  assumes tl: "thread_logs (logs s) b gs" and al: "alloc_ok pr s"
    and mx: "OBJLOG_MAX_PTRS pr = 2 ^ k" "k < 31"
    and lg: "logs s (last gs) = Some lg" and bnd: "log_size lg < 2 ^ 30"
    and os: "os = obj_start_of oa bd" and oe: "oe = os + obj_size_of bd"
  shows "\<exists>s' gs' lg'. reclaim_log pr oa bd b (last gs) s = Inr (last gs', s') \<and>
     advanced (\<lambda>q. dang_checkptr_value (mmem (meta s)) q os oe) Q (logs s) (logs s') b gs gs' \<and>
     logs s' (last gs') = Some lg' \<and> count lg' < log_size lg'"
proof -
  let ?pts = "\<lambda>q. dang_checkptr_value (mmem (meta s)) q os oe"
  have wf: "log_wf lg" by (rule thread_logs_last[OF tl lg])
  obtain lg1 where c: "dang_clear_objlog (mmem (meta s)) os oe lg = Inr lg1" "log_wf lg1"
    "lg1 = lg\<lparr>count := count lg1, end_idx := end_idx lg1\<rparr>" "log_ptrs lg1 \<subseteq> log_ptrs lg"
    "\<forall>p\<in>log_ptrs lg - log_ptrs lg1. \<not> ?pts p"
    using dang_clear_objlog_correct[OF wf, of "mmem (meta s)" os oe] by blast
  have links: "next_log lg1 = next_log lg" "thread_id lg1 = thread_id lg" "next_growlog lg1 = next_growlog lg"
    "log_size lg1 = log_size lg" by (subst c(3), simp)+
  define s1 where "s1 = put_log (last gs) lg1 s"
  have adv: "advanced ?pts Q (logs s) (logs s1) b gs gs"
    unfolding s1_def log_simps by (rule advanced_upd[OF tl lg c(2) links(1-3)]) (use c in auto)
  have run: "reclaim_log pr oa bd b (last gs) s =
      (if log_size lg1 \<le> count lg1 then grow_log pr b (last gs) s1 else Inr (last gs, s1))"
    using lg c(1) os oe by (simp add: reclaim_log_def Let_def s1_def)
  show ?thesis
  proof (cases "log_size lg1 \<le> count lg1")
    case False
    then show ?thesis using run adv by (intro exI[of _ s1] exI[of _ gs] exI[of _ lg1]) (simp add: s1_def)
  next
    case True
    have full: "count lg1 = log_size lg1" using c(2) True by (simp add: log_wf_def)
    have tl1: "thread_logs (logs s1) b gs" using adv by (simp add: advanced_def)
    have al1: "alloc_ok pr s1" by (rule alloc_ok_dom[OF _ al]) (use lg in \<open>auto simp: s1_def\<close>)
    have lg1: "logs s1 (last gs) = Some lg1" by (simp add: s1_def)
    obtain s' gs' lg' where g: "grow_log pr b (last gs) s1 = Inr (last gs', s')"
      "advanced (\<lambda>_. True) Q (logs s1) (logs s') b gs gs'"
      "logs s' (last gs') = Some lg'" "count lg' < log_size lg'"
      using grow_log_correct[OF tl1 al1 mx lg1 full] bnd links(4) by metis
    then show ?thesis using run True advanced_trans_l[OF adv advanced_weaken[OF g(2)]] by auto
  qed
qed

lemma log_threshold_le: "log_threshold n \<le> n"
  by (simp add: log_threshold_def)

lemma logs_ptrs_upd:
  assumes "x \<in> set xs" "L x = Some lg" "log_ptrs lg' = insert p (log_ptrs lg)"
  shows "logs_ptrs (L(x \<mapsto> lg')) xs = insert p (logs_ptrs L xs)"
proof -
  have xs: "set xs = insert x (set xs - {x})" using assms(1) by auto
  have "(\<Union>y\<in>set xs - {x}. log_ptrs (the ((L(x \<mapsto> lg')) y))) = (\<Union>y\<in>set xs - {x}. log_ptrs (the (L y)))"
    by simp
  then show ?thesis unfolding logs_ptrs_def
    by (subst (1 2) xs) (simp only: UN_insert, simp add: assms)
qed

lemma register_at_correct:
  assumes tl: "thread_logs (logs s) b gs" and al: "log_threshold (log_size lg) \<le> count lg \<longrightarrow> alloc_ok pr s"
    and mx: "OBJLOG_MAX_PTRS pr = 2 ^ k" "k < 31" and p: "user_loc p"
    and lg: "logs s (last gs) = Some lg" and bnd: "log_size lg < 2 ^ 30"
    and os: "os = obj_start_of oa bd" and oe: "oe = os + obj_size_of bd"
  shows "\<exists>s' gs'. register_at pr p oa bd b s = Inr s' \<and>
     advanced (\<lambda>q. dang_checkptr_value (mmem (meta s)) q os oe) {p} (logs s) (logs s') b gs gs' \<and>
     (window_live (N_LOOKBEHIND pr) lg \<and> count lg < log_threshold (log_size lg) \<longrightarrow>
        logs_ptrs (logs s') gs' = insert p (logs_ptrs (logs s) gs))"
proof -
  let ?pts = "\<lambda>q. dang_checkptr_value (mmem (meta s)) q os oe" and ?n = "N_LOOKBEHIND pr"
  obtain bl where bl: "logs s b = Some bl" "last gs = (if next_growlog bl \<noteq> 0 then next_growlog bl else b)"
    using tl by (cases rule: thread_logs_cases) auto
  let ?room = "if log_threshold (log_size lg) \<le> count lg then reclaim_log pr oa bd b (last gs) s else Inr (last gs, s)"
  have "\<exists>s1 gs1 lg1. ?room = Inr (last gs1, s1) \<and> advanced ?pts {p} (logs s) (logs s1) b gs gs1 \<and>
      logs s1 (last gs1) = Some lg1 \<and> count lg1 < log_size lg1 \<and>
      (count lg < log_threshold (log_size lg) \<longrightarrow> s1 = s \<and> gs1 = gs \<and> lg1 = lg)"
  proof (cases "log_threshold (log_size lg) \<le> count lg")
    case True
    then show ?thesis using reclaim_log_correct[OF tl mp[OF al True] mx lg bnd os oe] by (simp add: not_less)
  next
    case False
    then have "count lg < log_size lg" using log_threshold_le[of "log_size lg"] by linarith
    then show ?thesis using False advanced_refl[OF tl] lg by auto
  qed
  then obtain s1 gs1 lg1 where room: "?room = Inr (last gs1, s1)"
    and adv: "advanced ?pts {p} (logs s) (logs s1) b gs gs1"
    and lg1: "logs s1 (last gs1) = Some lg1" "count lg1 < log_size lg1"
    and low: "count lg < log_threshold (log_size lg) \<Longrightarrow> s1 = s \<and> gs1 = gs \<and> lg1 = lg" by blast
  have tl1: "thread_logs (logs s1) b gs1" using adv by (simp add: advanced_def)
  note wf1 = thread_logs_last(1)[OF tl1 lg1(1)] and last1 = thread_logs_last(2)[OF tl1 lg1(1)]
  obtain lg2 where i: "log_insert ?n p lg1 = Inr lg2" "log_wf lg2" "thread_id lg2 = thread_id lg1"
    "next_log lg2 = next_log lg1" "next_growlog lg2 = next_growlog lg1"
    "log_ptrs lg1 \<subseteq> log_ptrs lg2" "log_ptrs lg2 \<subseteq> insert p (log_ptrs lg1)"
    "window_live ?n lg1 \<longrightarrow> p \<in> log_ptrs lg2"
    using log_insert_correct[OF wf1 p lg1(2)] by blast
  define s' where "s' = put_log (last gs1) lg2 s1"
  have adv': "advanced ?pts {p} (logs s1) (logs s') b gs1 gs1"
    unfolding s'_def log_simps by (rule advanced_upd[OF tl1 lg1(1) i(2,4,3,5)]) (use i in auto)
  have run: "register_at pr p oa bd b s = Inr s'"
    unfolding register_at_def log_simps(4)[OF bl(1)] bindR_Inr Let_def bl(2)[symmetric]
      log_simps(4)[OF lg] room prod.case log_simps(4)[OF lg1(1)] i(1) s'_def ..
  have "logs_ptrs (logs s') gs' = insert p (logs_ptrs (logs s) gs')"
    if "window_live ?n lg" "count lg < log_threshold (log_size lg)" "gs' = gs1" for gs'
  proof -
    have e: "s1 = s" "gs1 = gs" "lg1 = lg" using low[OF that(2)] by auto
    have "log_ptrs lg2 = insert p (log_ptrs lg)" using i(6-8) that(1) e by auto
    then show ?thesis using logs_ptrs_upd[of "last gs1" gs1 "logs s1" lg1 lg2 p] last1 lg1(1) that(3) e by (simp add: s'_def)
  qed
  then show ?thesis using run advanced_trans_r[OF adv adv'] low by metis
qed

lemma thread_chain_hd_eq: "thread_chain L a (gs # gss) \<Longrightarrow> a = hd gs"
  by (cases gs) auto

lemma thread_chain_splice:
  "thread_chain L a (gss1 @ gs # gss2) \<Longrightarrow> (\<And>x. x \<in> set (concat gss1) \<Longrightarrow> L' x = L x) \<Longrightarrow>
   thread_chain L' (hd gs) (gs' # gss3) \<Longrightarrow> thread_chain L' a (gss1 @ gs' # gss3)"
proof (induction gss1 arbitrary: a)
  case Nil
  then have "a = hd gs" using thread_chain_hd_eq by fastforce
  then show ?case using Nil(3) by simp
next
  case (Cons g gss1)
  have a: "a \<in> set g" using thread_chain_hd[of L a g "gss1 @ gs # gss2"] Cons.prems(1) by simp
  then have "L' a = L a" using Cons.prems(2) by simp
  moreover have "grow_chain L' a g = grow_chain L a g"
    by (rule grow_chain_cong) (use Cons.prems(2) in simp)
  ultimately show ?case using Cons by (auto split: option.splits)
qed

lemma thread_chain_mid:
  "thread_chain L a (gss1 @ gs # gss2) \<Longrightarrow> thread_chain L (hd gs) (gs # gss2)"
proof (induction gss1 arbitrary: a)
  case Nil
  then show ?case using thread_chain_hd_eq by fastforce
next
  case (Cons g gss1)
  obtain lg where "L a = Some lg" and "thread_chain L (next_log lg) (gss1 @ gs # gss2)"
    using Cons.prems by (cases "L a") auto
  then show ?case by (intro Cons.IH)
qed

lemma find_threadlog_correct:
  "thread_chain (logs s) cur gss \<Longrightarrow> length gss < fuel \<Longrightarrow>
   (\<exists>gss1 gs gss2 prev'. gss = gss1 @ gs # gss2 \<and> find_threadlog fuel s prev cur = Inr (prev', hd gs) \<and> hd gs \<noteq> 0) \<or>
   find_threadlog fuel s prev cur = Inr (if gss = [] then prev else hd (last gss), 0)"
proof (induction gss arbitrary: cur prev fuel)
  case Nil
  then show ?case by (cases fuel) auto
next
  case (Cons gs gss)
  obtain f where f: "fuel = Suc f" "length gss < f" using Cons.prems(2) by (cases fuel) auto
  obtain lg where lg: "logs s cur = Some lg" "thread_chain (logs s) (next_log lg) gss"
    using Cons.prems(1) by (auto split: option.splits)
  have c: "cur \<noteq> 0" "cur = hd gs" using thread_chain_hd[OF Cons.prems(1)] thread_chain_hd_eq[OF Cons.prems(1)] by auto
  show ?case
  proof (cases "thread_id lg = threadlocal_id s")
    case True
    then have "find_threadlog fuel s prev cur = Inr (prev, hd gs)" using c lg f by (simp add: get_log_def)
    then show ?thesis using c
      by (intro disjI1 exI[of _ "[]"] exI[of _ gs] exI[of _ gss] exI[of _ prev]) simp
  next
    case False
    then have run: "find_threadlog fuel s prev cur = find_threadlog f s cur (next_log lg)"
      using c lg f by (simp add: get_log_def)
    from Cons.IH[OF lg(2) f(2), of cur] show ?thesis
    proof
      assume "\<exists>gss1 gs' gss2 prev'. gss = gss1 @ gs' # gss2 \<and>
        find_threadlog f s cur (next_log lg) = Inr (prev', hd gs') \<and> hd gs' \<noteq> 0"
      then obtain gss1 gs' gss2 prev' where "gs # gss = (gs # gss1) @ gs' # gss2"
        "find_threadlog f s cur (next_log lg) = Inr (prev', hd gs')" "hd gs' \<noteq> 0" by auto
      then show ?thesis unfolding run by blast
    next
      assume "find_threadlog f s cur (next_log lg) = Inr (if gss = [] then cur else hd (last gss), 0)"
      then show ?thesis unfolding run using c(2) by auto
    qed
  qed
qed

text \<open>The invariant of an object's logs, and a step on it.\<close>

definition obj_logs :: "(u64 \<Rightarrow> objlog option) \<Rightarrow> u64 \<Rightarrow> u64 list list \<Rightarrow> bool" where
  "obj_logs L a gss \<longleftrightarrow> thread_chain L a gss \<and> logs_wf L (concat gss) \<and> (\<forall>gs\<in>set gss. length gs \<le> 2)"

lemma logs_wf_append: "logs_wf L (xs @ ys) \<longleftrightarrow> logs_wf L xs \<and> logs_wf L ys \<and> set xs \<inter> set ys = {}"
  by (auto simp: logs_wf_def)

lemma obj_logs_thread:
  assumes "obj_logs L a (gss1 @ gs # gss2)"
  shows "thread_logs L (hd gs) gs" and "logs_wf L (concat gss1)" and "logs_wf L (concat gss2)"
    and "set gs \<inter> set (concat gss1) = {}" and "set gs \<inter> set (concat gss2) = {}"
    and "set (concat gss1) \<inter> set (concat gss2) = {}"
proof -
  have w: "logs_wf L (concat gss1 @ gs @ concat gss2)" using assms by (simp add: obj_logs_def)
  have c: "thread_chain L (hd gs) (gs # gss2)"
    by (rule thread_chain_mid[of L a gss1]) (use assms in \<open>simp add: obj_logs_def\<close>)
  show "thread_logs L (hd gs) gs"
    using w c assms by (simp add: thread_logs_def obj_logs_def logs_wf_append)
  show "logs_wf L (concat gss1)" "logs_wf L (concat gss2)" "set gs \<inter> set (concat gss1) = {}"
    "set gs \<inter> set (concat gss2) = {}" "set (concat gss1) \<inter> set (concat gss2) = {}"
    using w by (auto simp: logs_wf_append)
qed

lemma grow_chain_dom: "grow_chain L b ys \<Longrightarrow> x \<in> set ys \<Longrightarrow> L x \<noteq> None"
  by (induction ys arbitrary: b) (auto split: option.splits)

lemma thread_chain_dom: "thread_chain L a gss \<Longrightarrow> x \<in> set (concat gss) \<Longrightarrow> L x \<noteq> None"
proof (induction gss arbitrary: a)
  case (Cons gs gss)
  obtain lg where lg: "L a = Some lg" "grow_chain L a gs" "thread_chain L (next_log lg) gss"
    using Cons.prems(1) by (cases "L a") auto
  show ?case
  proof (cases "x \<in> set gs")
    case True
    then show ?thesis by (rule grow_chain_dom[OF lg(2)])
  next
    case False
    then show ?thesis using Cons.IH[OF lg(3)] Cons.prems(2) by simp
  qed
qed simp

lemma obj_logs_advanced:
  assumes ol: "obj_logs L a (gss1 @ gs # gss2)" and adv: "advanced pts Q L L' (hd gs) gs gs'"
  shows "obj_logs L' a (gss1 @ gs' # gss2)"
    and "\<forall>x. L x \<noteq> None \<and> x \<notin> set gs \<longrightarrow> L' x = L x"
    and "\<forall>p\<in>logs_ptrs L (concat (gss1 @ gs # gss2)). pts p \<longrightarrow> p \<in> logs_ptrs L' (concat (gss1 @ gs' # gss2))"
    and "logs_ptrs L' (concat (gss1 @ gs' # gss2)) \<subseteq> Q \<union> logs_ptrs L (concat (gss1 @ gs # gss2))"
    and "logs_ptrs L' gs' = insert p (logs_ptrs L gs) \<Longrightarrow>
      logs_ptrs L' (concat (gss1 @ gs' # gss2)) = insert p (logs_ptrs L (concat (gss1 @ gs # gss2)))"
proof -
  note th = obj_logs_thread[OF ol]
  have tc: "thread_chain L a (gss1 @ gs # gss2)" using ol by (simp add: obj_logs_def)
  have tl': "thread_logs L' (hd gs) gs'" and nl: "next_log (the (L' (hd gs))) = next_log (the (L (hd gs)))"
    and fr: "\<forall>x. x \<notin> set gs \<and> x \<notin> set gs' \<longrightarrow> L' x = L x"
    and nw: "\<forall>x\<in>set gs'. x \<in> set gs \<or> L x = None"
    and keep: "\<forall>p\<in>logs_ptrs L gs. pts p \<longrightarrow> p \<in> logs_ptrs L' gs'"
    and sub: "logs_ptrs L' gs' \<subseteq> Q \<union> logs_ptrs L gs"
    using adv by (auto simp: advanced_def)
  have other: "x \<notin> set gs \<and> x \<notin> set gs'" if "x \<in> set (concat gss1) \<union> set (concat gss2)" for x
  proof -
    have "x \<notin> set gs" using that th(4,5) by blast
    moreover have "L x \<noteq> None" by (rule thread_chain_dom[OF tc]) (use that in auto)
    ultimately show ?thesis using nw by metis
  qed
  have same: "L' x = L x" if "x \<in> set (concat gss1) \<union> set (concat gss2)" for x
    using other[OF that] fr by blast
  show "\<forall>x. L x \<noteq> None \<and> x \<notin> set gs \<longrightarrow> L' x = L x" using nw fr by metis
  have mid: "thread_chain L (hd gs) (gs # gss2)" by (rule thread_chain_mid[OF tc])
  then obtain lg where lg: "L (hd gs) = Some lg" "thread_chain L (next_log lg) gss2" by (auto split: option.splits)
  have "grow_chain L' (hd gs) gs'" "gs' \<noteq> []" "length gs' \<le> 2" "logs_wf L' gs'"
    using tl' by (simp_all add: thread_logs_def)
  moreover obtain lg' where lg': "L' (hd gs) = Some lg'" using tl' by (cases rule: thread_logs_cases) auto
  moreover have "thread_chain L' (next_log lg') gss2"
    using lg lg' nl thread_chain_cong[of gss2 L' L] same by simp
  ultimately have "thread_chain L' (hd gs) (gs' # gss2)" by simp
  then have "thread_chain L' a (gss1 @ gs' # gss2)"
    using thread_chain_splice[OF tc] same by blast
  moreover have "logs_wf L' (concat gss1)" "logs_wf L' (concat gss2)"
    using th(2,3) logs_wf_cong[of "concat gss1" L' L] logs_wf_cong[of "concat gss2" L' L] same by auto
  then have "logs_wf L' (concat (gss1 @ gs' # gss2))"
    unfolding concat_append concat.simps logs_wf_append set_append
    using \<open>logs_wf L' gs'\<close> th(6) other by blast
  ultimately show "obj_logs L' a (gss1 @ gs' # gss2)"
    using ol \<open>length gs' \<le> 2\<close> by (simp add: obj_logs_def)
  have pt: "logs_ptrs L'' (concat (gss1 @ ys # gss2)) =
      logs_ptrs L'' (concat gss1) \<union> logs_ptrs L'' ys \<union> logs_ptrs L'' (concat gss2)" for L'' ys
    by (auto simp: logs_ptrs_def)
  have pe: "logs_ptrs L' (concat gss1) = logs_ptrs L (concat gss1)"
    "logs_ptrs L' (concat gss2) = logs_ptrs L (concat gss2)"
    by (rule logs_ptrs_cong, use same in blast)+
  show "\<forall>p\<in>logs_ptrs L (concat (gss1 @ gs # gss2)). pts p \<longrightarrow> p \<in> logs_ptrs L' (concat (gss1 @ gs' # gss2))"
    unfolding pt pe using keep by auto
  show "logs_ptrs L' (concat (gss1 @ gs' # gss2)) \<subseteq> Q \<union> logs_ptrs L (concat (gss1 @ gs # gss2))"
    unfolding pt pe using sub by auto
  show "logs_ptrs L' gs' = insert p (logs_ptrs L gs) \<Longrightarrow>
      logs_ptrs L' (concat (gss1 @ gs' # gss2)) = insert p (logs_ptrs L (concat (gss1 @ gs # gss2)))"
    unfolding pt pe by auto
qed

lemma thread_chain_end: "thread_chain L a (gss @ [gl]) \<Longrightarrow> L (hd gl) = Some pl \<Longrightarrow> next_log pl = 0"
  using thread_chain_mid[of L a gss gl "[]"] by simp

lemma grow_chain_links:
  "grow_chain L a xs \<Longrightarrow> (\<And>x lg. x \<in> set xs \<Longrightarrow> L x = Some lg \<Longrightarrow>
     \<exists>lg'. L' x = Some lg' \<and> next_growlog lg' = next_growlog lg) \<Longrightarrow> grow_chain L' a xs"
proof (induction xs arbitrary: a)
  case (Cons x xs)
  obtain lg where lg: "L x = Some lg" "a = x" "x \<noteq> 0" "grow_chain L (next_growlog lg) xs"
    using Cons.prems(1) by (cases "L x") auto
  obtain lg' where "L' x = Some lg'" "next_growlog lg' = next_growlog lg"
    using Cons.prems(2)[of x lg] lg(1) by auto
  moreover have "grow_chain L' (next_growlog lg) xs" by (rule Cons.IH[OF lg(4)]) (use Cons.prems(2) in auto)
  ultimately show ?case using lg by simp
qed simp

lemma alloc_threadlog_append:
  assumes ol: "obj_logs (logs s) a gss" and ne: "gss \<noteq> []" and al: "alloc_ok pr s"
    and mx: "OBJLOG_MAX_PTRS pr = 2 ^ k" "k < 31"
  obtains b s1 lg where "dang_alloc_threadlog pr (hd (last gss)) s = Inr (b, s1)"
    "obj_logs (logs s1) a (gss @ [[b]])" "b \<noteq> 0" "logs s1 b = Some lg" "count lg = 0" "index lg = 0"
    "log_size lg = OBJLOG_MAX_PTRS pr" "logs_ptrs (logs s1) (concat (gss @ [[b]])) = logs_ptrs (logs s) (concat gss)"
    "\<forall>x. logs s x \<noteq> None \<and> x \<notin> set (concat gss) \<longrightarrow> logs s1 x = logs s x" "logs s b = None"
proof -
  define gi gl where g: "gi = butlast gss" "gl = last gss"
  have gss: "gss = gi @ [gl]" using ne by (simp add: g)
  have ol': "obj_logs (logs s) a (gi @ gl # [])" using ol gss by simp
  have tc: "thread_chain (logs s) a (gi @ gl # [])" using ol' by (simp add: obj_logs_def)
  have tl: "thread_logs (logs s) (hd gl) gl" by (rule obj_logs_thread(1)[OF ol'])
  have hs: "hd gl \<in> set gl" using tl by (simp add: thread_logs_def)
  obtain pl where pl: "logs s (hd gl) = Some pl" "hd gl \<noteq> 0"
    using tl by (cases rule: thread_logs_cases) auto
  obtain b gb mt where m: "DANG_MALLOC pr (OBJLOG_SIZE pr) s = (b, gb, s\<lparr>meta := mt, malloc_flag := False\<rparr>)"
    "b \<noteq> 0" "logs s b = None" "length gb = OBJLOG_MAX_PTRS pr" using DANG_MALLOC_ok[OF al] .
  let ?new = "new_log pr (threadlocal_id s) gb"
  note nw = new_log_wf[OF mx m(4), of "threadlocal_id s"]
  have n0: "next_log pl = 0" using thread_chain_end[OF tc pl(1)] .
  have nn: "?new\<lparr>next_log := 0\<rparr> = ?new" by (simp add: new_log_def)
  define s1 where "s1 = put_log b ?new (put_log (hd gl) (pl\<lparr>next_log := b\<rparr>)
    (s\<lparr>meta := mt, malloc_flag := False\<rparr>))"
  have run: "dang_alloc_threadlog pr (hd (last gss)) s = Inr (b, s1)"
    using m pl n0 nn by (simp add: dang_alloc_threadlog_def Let_def s1_def flip: g)
  have bx: "b \<noteq> x" if "x \<in> set (concat gss)" for x
    using thread_chain_dom[OF tc, of x] that m(3) gss by auto
  have L1: "logs s1 = (logs s)(hd gl \<mapsto> pl\<lparr>next_log := b\<rparr>, b \<mapsto> ?new)" by (simp add: s1_def)
  have hb: "hd gl \<noteq> b" using pl(1) m(3) by auto
  have wfx: "log_wf (the (logs s1 x)) \<and> log_ptrs (the (logs s1 x)) = log_ptrs (the (logs s x))"
    if "x \<in> set (concat gss)" for x
  proof -
    have "log_wf (the (logs s x))" using ol that unfolding obj_logs_def logs_wf_def by blast
    then show ?thesis using bx[OF that] pl(1) unfolding L1 by (cases "x = hd gl") auto
  qed
  have "grow_chain (logs s) (hd gl) gl" using tl by (simp add: thread_logs_def)
  then have "grow_chain (logs s1) (hd gl) gl"
    by (rule grow_chain_links) (use pl(1) bx gss in \<open>auto simp: L1\<close>)
  then have "thread_chain (logs s1) (hd gl) (gl # [[b]])"
    using tl hb m(2) by (simp add: L1 thread_logs_def new_log_def)
  then have "thread_chain (logs s1) a (gi @ gl # [[b]])"
    by (rule thread_chain_splice[OF tc, rotated])
      (use bx gss obj_logs_thread(4)[OF ol'] hs in \<open>auto simp: L1\<close>)
  then have "thread_chain (logs s1) a (gss @ [[b]])" using gss by simp
  moreover have "logs_wf (logs s1) (concat (gss @ [[b]]))"
    using ol bx wfx nw(1) unfolding obj_logs_def logs_wf_def by (auto simp: L1)
  ultimately have "obj_logs (logs s1) a (gss @ [[b]])" using ol by (auto simp: obj_logs_def)
  moreover have "logs_ptrs (logs s1) (concat (gss @ [[b]])) = logs_ptrs (logs s) (concat gss)"
    using wfx nw(2) unfolding logs_ptrs_def by (auto simp: L1)
  moreover have "\<forall>x. logs s x \<noteq> None \<and> x \<notin> set (concat gss) \<longrightarrow> logs s1 x = logs s x"
    using hs gss m(3) by (auto simp: L1)
  moreover have "logs s1 b = Some ?new" by (simp add: L1)
  ultimately show ?thesis using that[OF run, of ?new] m by (simp add: new_log_def)
qed

lemma init_thread_simps [simp]: "logs (init_thread s) = logs s" "meta (init_thread s) = meta s"
  by (simp_all add: init_thread_def)

lemma log_threshold_pos: "1 \<le> k \<Longrightarrow> 0 < log_threshold (2 ^ k)"
proof -
  assume "1 \<le> k"
  then have "(2::nat) ^ 1 \<le> 2 ^ k" by (rule power_increasing) simp
  then show ?thesis by (simp add: log_threshold_def div_greater_zero_iff)
qed

lemma register_existing:
  assumes ol: "obj_logs (logs s) a (gss1 @ gs # gss2)"
    and al: "log_threshold (log_size lg) \<le> count lg \<longrightarrow> alloc_ok pr s"
    and mx: "OBJLOG_MAX_PTRS pr = 2 ^ k" "k < 31" and p: "user_loc p"
    and bnd: "log_size lg < 2 ^ 30"
    and os: "os = obj_start_of oa bd" and oe: "oe = os + obj_size_of bd"
    and gss: "gss = gss1 @ gs # gss2" and lg: "lg = the (logs s (last gs))"
  shows "\<exists>s' gss'. register_at pr p oa bd (hd gs) s = Inr s' \<and> obj_logs (logs s') a gss' \<and>
     (\<forall>x. logs s x \<noteq> None \<and> x \<notin> set (concat gss) \<longrightarrow> logs s' x = logs s x) \<and>
     (\<forall>q\<in>logs_ptrs (logs s) (concat gss). dang_checkptr_value (mmem (meta s)) q os oe \<longrightarrow>
        q \<in> logs_ptrs (logs s') (concat gss')) \<and>
     logs_ptrs (logs s') (concat gss') \<subseteq> insert p (logs_ptrs (logs s) (concat gss)) \<and>
     (window_live (N_LOOKBEHIND pr) lg \<and> count lg < log_threshold (log_size lg) \<longrightarrow>
        logs_ptrs (logs s') (concat gss') = insert p (logs_ptrs (logs s) (concat gss)))"
proof -
  have tl: "thread_logs (logs s) (hd gs) gs" by (rule obj_logs_thread[OF ol])
  have "logs s (last gs) \<noteq> None"
    by (rule grow_chain_dom[of _ "hd gs" gs]) (use tl in \<open>simp_all add: thread_logs_def\<close>)
  then have lg': "logs s (last gs) = Some lg" using lg by auto
  obtain s' gs' where r: "register_at pr p oa bd (hd gs) s = Inr s'"
    "advanced (\<lambda>q. dang_checkptr_value (mmem (meta s)) q os oe) {p} (logs s) (logs s') (hd gs) gs gs'"
    "window_live (N_LOOKBEHIND pr) lg \<and> count lg < log_threshold (log_size lg) \<longrightarrow>
        logs_ptrs (logs s') gs' = insert p (logs_ptrs (logs s) gs)"
    using register_at_correct[OF tl al mx p lg' bnd os oe] by blast
  note adv = obj_logs_advanced[OF ol r(2)]
  have "logs s' x = logs s x" if "logs s x \<noteq> None" "x \<notin> set (concat gss)" for x
    using adv(2) that gss by simp
  then show ?thesis using r adv(1,3,4) adv(5)[of p] unfolding gss
    by (intro exI[of _ s'] exI[of _ "gss1 @ gs' # gss2"]) auto
qed

end
