(* ===== verification/DangSan_Life.thy ===== *)
theory DangSan_Life
  imports DangSan_Proofs
begin

unbundle bit_operations_syntax

section \<open>The life of an object under the sanitizer\<close>

text \<open>
  The properties of the sanitizer: the end-to-end promise from allocation to free, the single
  operations, the atomics under interference, thread identities, and two behaviours of the
  code that lose pointers.  A small concrete state serves the witnesses.
\<close>

subsection \<open>Bounds in the metadata\<close>





subsection \<open>The atomic operations are linearizable\<close>

abbreviation run_all :: "u64 \<Rightarrow> (u64 \<Rightarrow> u64) list \<Rightarrow> u64" where "run_all c fs \<equiv> foldl (\<lambda>y f. f y) c fs"

lemma dsan_atomic_add_loop_linear:
  "\<exists>k\<le>length fs. dsan_atomic_add_loop fs v e c = (run_all c (take k fs) + v, run_all c (take k fs) + v, drop k fs)"
proof (induction fs arbitrary: e c)
  case Nil
  then show ?case by simp
next
  case (Cons f fs)
  show ?case
  proof (cases "f c = e")
    case True
    then show ?thesis by (intro exI[of _ 1]) (simp add: Let_def)
  next
    case False
    obtain k where "k \<le> length fs" "dsan_atomic_add_loop fs v (f c) (f c) =
      (run_all (f c) (take k fs) + v, run_all (f c) (take k fs) + v, drop k fs)" using Cons by blast
    then show ?thesis using False by (intro exI[of _ "Suc k"]) (simp add: Let_def)
  qed
qed

lemma dsan_atomic_cmpxchng_linear:
  "\<exists>k\<le>length fs. dsan_atomic_cmpxchng fs d c = (run_all c (take k fs), d, drop k fs)"
proof (induction fs arbitrary: c)
  case Nil
  then show ?case by simp
next
  case (Cons f fs)
  show ?case
  proof (cases "f c = c")
    case True
    then show ?thesis by (intro exI[of _ 1]) (simp add: Let_def)
  next
    case False
    obtain k where "k \<le> length fs" "dsan_atomic_cmpxchng fs d (f c) = (run_all (f c) (take k fs), d, drop k fs)"
      using Cons by blast
    then show ?thesis using False by (intro exI[of _ "Suc k"]) (simp add: Let_def)
  qed
qed

lemma run_all_add: "run_all c (map (+) xs) = c + sum_list xs"
  by (induction xs arbitrary: c) (simp_all add: add_ac)

subsection \<open>From allocation to free\<close>









text \<open>C2: freeing an object returns; every registered location that holds a pointer into the object gets
  the \<^verbatim>\<open>DANG_NULL\<close> bit, every other byte outside the object's metadata is unchanged, the object's
  logs are released and no others, and its addresses read as untracked afterwards.\<close>

theorem dang_freeptr_nullifies:
  assumes "\<not> free_flag s" and "metaget_16 obj s = Inr md"
    and "thread_chain (logs s) (meta16_a md) gss" and "logs_wf (logs s) (concat gss)"
    and "P = logs_ptrs (logs s) (concat gss)" and "ptr_locs P"
    and "obj + sz \<le> DANG_NULL" and "meta_covers 16 (meta s) obj sz"
    and "\<forall>p\<in>P. addrs p 8 \<inter> meta_span s obj sz = {}"
    and "length gss < fuel" and "\<forall>gs\<in>set gss. length gs < fuel"
  shows "\<exists>s'. dang_freeptr fuel obj sz s = Inr s' \<and>
     (\<forall>p\<in>P. load64 (mmem (meta s')) p = map_option (nulled obj (obj + sz)) (load64 (mmem (meta s)) p)) \<and>
     (\<forall>x. x \<notin> (\<Union>p\<in>P. addrs p 8) \<and> x \<notin> meta_span s obj sz \<longrightarrow> mmem (meta s') x = mmem (meta s) x) \<and>
     logs s' = (logs s) |` (- set (concat gss)) \<and>
     (\<forall>q. unat obj \<le> unat q \<and> unat q < unat obj + unat sz \<longrightarrow> metaget_16 q s' = Inr (mk_meta16 0 0))"
  by (rule freeptr_run[OF assms])


subsection \<open>A concrete instance\<close>

text \<open>A small process state in which the theorems' hypotheses hold: one registered page with metadata,
  no logs yet, and an allocator that hands out a fixed free block.\<close>

definition demo_meta :: metalloc where
  "demo_meta = \<lparr>pageTable = Some (\<lambda>_. make_entry 0x20000 3), isPageTableAlloced = True,
     mmem = \<lambda>_. Some 0\<rparr>"


definition demo_dsan :: "(u64 \<Rightarrow> objlog option) \<Rightarrow> dsan" where
  "demo_dsan L = \<lparr>meta = demo_meta, logs = L, malloc_flag = False, free_flag = False,
     threadglobal_id = 1, threadlocal_id = 1, dang_stack_start = 1, dang_stack_end = 2,
     dang_global_start = 3, dang_global_end = 4\<rparr>"

lemma demo_covers: "meta_covers 16 demo_meta 0x10008 24"
proof -
  let ?c = "\<lparr>fixedCompression = False, metadataBytes = 16, deepMetadata = False,
    deepMetadataBytes = 8, systemPageSize = 4096\<rparr>"
  have "region_mapped ?c demo_meta 0x10000 1 0x20000 3" "in_region 0x10000 1 3 0x10008 24"
    by (simp_all add: region_mapped_def meta_region_def region_ok_def in_region_def mapped_def
        entry_value_def demo_meta_def)
  then show ?thesis by (rule region_covers) simp
qed

lemma demo_metaptr:
  obtains e where "metaptr_at 16 demo_meta 0x10008 = Inr (e, 0x20010)" "e AND 0xFF = 3" "e \<noteq> 0"
proof -
  have "region_mapped \<lparr>fixedCompression = False, metadataBytes = 16, deepMetadata = False,
    deepMetadataBytes = 8, systemPageSize = 4096\<rparr> demo_meta 0x10000 1 0x20000 3"
    by (simp add: region_mapped_def meta_region_def region_ok_def mapped_def entry_value_def demo_meta_def)
  then show ?thesis
    by (rule region_metaptr_at[where q = "0x10008" and N = 16]) (use that in simp_all)
qed

lemma demo_span:
  assumes "meta s = demo_meta\<lparr>mmem := m\<rparr>" shows "meta_span s 0x10008 24 = addrs 0x20010 48"
  by (rule demo_metaptr) (simp add: meta_span_def assms metasize_of_def int_shl1_def)



lemma demo_apart: "addrs 0x40000 8 \<inter> addrs 0x20010 48 = {}"
  using addrs_offset_disjoint[of "0x1FFF0" 8 0 48 "0x20010"] by simp


definition demo_log :: objlog where
  "demo_log = \<lparr>thread_id = 1, next_log = 0, index = 1, end_idx = 0, count = 1, log_size = 4,
     next_growlog = 0, log_buf = [mk_slot 0x400 0 0 0, 0, 0, 0]\<rparr>"

lemma demo_log_live: "live demo_log = {0}"
  by (simp add: live_def ring_def demo_log_def lessThan_Suc)

lemma demo_log_wf: "log_wf demo_log" "log_ptrs demo_log = {0x40000}"
proof -
  have "unat (0x400 :: u64) < 2 ^ 40" by simp
  note mk = slot_ptrs_mk_slot[OF this byte_0 byte_0 byte_0]
  have "\<exists>n<31. (4::nat) = 2 ^ n" by (rule exI[of _ 2]) simp
  then show "log_wf demo_log" unfolding log_wf_def demo_log_live using mk(2) by (simp add: demo_log_def)
  show "log_ptrs demo_log = {0x40000}" unfolding log_ptrs_def demo_log_live
    using mk(1) by (simp add: demo_log_def slot_ptr_def)
qed

text \<open>The metadata of the object at \<open>0x10008\<close> names the log at \<open>0x6000\<close>.\<close>

definition demo_tracked :: dsan where
  "demo_tracked = (demo_dsan [0x6000 \<mapsto> demo_log])\<lparr>meta := demo_meta\<lparr>mmem := \<lambda>x.
     Some (if x = 0x20011 then 0x60 else if x = 0x40000 then 0x10 else if x = 0x40002 then 1 else 0)\<rparr>\<rparr>"

lemma demo_tracked_facts:
  shows "metaget_16 0x10008 demo_tracked = Inr [0, 0x60, 0, 0, 0, 0, 0, 0, 0, 0, 0, 0, 0, 0, 0, 0]"
    and "thread_chain (logs demo_tracked) (meta16_a [0, 0x60, 0, 0, 0, 0, 0, 0, 0, 0, 0, 0, 0, 0, 0, 0]) [[0x6000]]"
    and "logs_wf (logs demo_tracked) (concat [[0x6000]])"
    and "{0x40000} = logs_ptrs (logs demo_tracked) (concat [[0x6000]])"
    and "load64 (mmem (meta demo_tracked)) 0x40000 = Some 0x10010"
    and "\<not> free_flag demo_tracked" and "ptr_locs {0x40000}"
proof -
  let ?s = demo_tracked
  have lb: "load_bytes (mmem (meta ?s)) 0x20010 16 = Some [0, 0x60, 0, 0, 0, 0, 0, 0, 0, 0, 0, 0, 0, 0, 0, 0]"
    by (simp add: demo_tracked_def load_bytes_numeral)
  show "metaget_16 0x10008 ?s = Inr [0, 0x60, 0, 0, 0, 0, 0, 0, 0, 0, 0, 0, 0, 0, 0, 0]"
  proof (rule demo_metaptr)
    fix e assume "metaptr_at 16 demo_meta 0x10008 = Inr (e, 0x20010)" "e \<noteq> 0"
    then have "metaptr_at 16 (meta ?s) 0x10008 = Inr (e, 0x20010)" by (simp add: demo_tracked_def)
    then show ?thesis using metaget_eq \<open>e \<noteq> 0\<close> lb by (simp add: metaget_16_def)
  qed
  have lgs: "logs ?s = [0x6000 \<mapsto> demo_log]" by (simp add: demo_tracked_def demo_dsan_def)
  have ma: "meta16_a [0, 0x60, 0, 0, 0, 0, 0, 0, 0, 0, 0, 0, 0, 0, 0, 0] = 0x6000"
    by (simp add: meta16_a_def bytes_u64_def)
  show "thread_chain (logs ?s) (meta16_a [0, 0x60, 0, 0, 0, 0, 0, 0, 0, 0, 0, 0, 0, 0, 0, 0]) [[0x6000]]"
    unfolding ma lgs by (simp add: demo_log_def)
  show "logs_wf (logs ?s) (concat [[0x6000]])" unfolding lgs by (simp add: logs_wf_def demo_log_wf)
  show "{0x40000} = logs_ptrs (logs ?s) (concat [[0x6000]])"
    unfolding lgs by (simp add: logs_ptrs_def demo_log_wf)
  show "load64 (mmem (meta ?s)) 0x40000 = Some 0x10010"
    by (simp add: load64_def demo_tracked_def load_bytes_numeral bytes_u64_def)
  show "\<not> free_flag ?s" "ptr_locs {0x40000}"
    by (simp_all add: demo_tracked_def demo_dsan_def user_loc_def aligned8_def)
qed


theorem dang_freeptr_nullifies_witness:
  "\<exists>s'. dang_freeptr 2 0x10008 24 demo_tracked = Inr s' \<and>
     load64 (mmem (meta demo_tracked)) 0x40000 = Some 0x10010 \<and>
     load64 (mmem (meta s')) 0x40000 = Some (0x10010 OR DANG_NULL) \<and> logs s' 0x6000 = None"
proof -
  let ?s = demo_tracked
  note f = demo_tracked_facts
  have ms: "meta ?s = demo_meta\<lparr>mmem := mmem (meta ?s)\<rparr>" by (simp add: demo_tracked_def)
  have cov: "meta_covers 16 (meta ?s) 0x10008 24"
    using meta_covers_dom[of "mmem (meta ?s)" demo_meta] demo_covers ms
    by (auto simp: demo_tracked_def demo_meta_def)
  have span: "meta_span ?s 0x10008 24 = addrs 0x20010 48" by (rule demo_span[OF ms])
  have hyps: "(0x10008::u64) + 24 \<le> DANG_NULL" "\<forall>p\<in>{0x40000}. addrs p 8 \<inter> meta_span ?s 0x10008 24 = {}"
    unfolding span using demo_apart by (simp_all add: DANG_NULL_def)
  obtain s' where "dang_freeptr 2 0x10008 24 ?s = Inr s'"
    "\<forall>p\<in>{0x40000}. load64 (mmem (meta s')) p =
       map_option (nulled 0x10008 (0x10008 + 24)) (load64 (mmem (meta ?s)) p)"
    "logs s' = (logs ?s) |` (- set (concat [[0x6000]]))"
    using dang_freeptr_nullifies[OF f(6,1-4,7) hyps(1) cov hyps(2), of 2] by auto
  then show ?thesis using f(5) by (simp add: nulled_def)
qed

subsection \<open>The properties of the log and the atomics\<close>

text \<open>C10: inserting a location into a log with room returns a well-formed log of the same size; the locations it
  tracked stay tracked, nothing else becomes tracked, and if the lookbehind window is live the new
  location is tracked and the window stays live.\<close>

theorem log_insert_tracks:
  assumes "log_wf lg" and "user_loc p" and "count lg < log_size lg"
  shows "\<exists>lg'. log_insert n p lg = Inr lg' \<and> log_wf lg' \<and> log_size lg' = log_size lg \<and>
     log_ptrs lg \<subseteq> log_ptrs lg' \<and> log_ptrs lg' \<subseteq> insert p (log_ptrs lg) \<and>
     (window_live n lg \<longrightarrow> log_ptrs lg' = insert p (log_ptrs lg) \<and> window_live n lg')"
  using log_insert_correct[OF assms, of n] by auto

theorem log_insert_tracks_witness:
  "\<exists>lg'. log_insert 4 0x40008 demo_log = Inr lg' \<and> log_wf lg' \<and> log_ptrs lg' = {0x40008, 0x40000}"
proof -
  have "user_loc 0x40008" "count demo_log < log_size demo_log" "window_live 4 demo_log"
    by (simp_all add: user_loc_def demo_log_def window_live_def)
  then show ?thesis using log_insert_tracks[OF demo_log_wf(1), of "0x40008" 4] demo_log_wf(2) by auto
qed

text \<open>C11: reclaiming a log returns a well-formed log with the same buffer; it drops only locations that do not
  hold a pointer into the object, and it stops at the first slot with such a location.\<close>

theorem dang_clear_objlog_keeps_live:
  assumes "log_wf lg"
  shows "\<exists>lg'. dang_clear_objlog m os oe lg = Inr lg' \<and> log_wf lg' \<and> log_buf lg' = log_buf lg \<and>
     count lg' \<le> count lg \<and> log_ptrs lg' \<subseteq> log_ptrs lg \<and>
     (\<forall>p\<in>log_ptrs lg - log_ptrs lg'. \<not> dang_checkptr_value m p os oe) \<and>
     (count lg' = 0 \<or> (\<exists>p\<in>slot_ptrs (log_buf lg ! end_idx lg'). dang_checkptr_value m p os oe))"
proof -
  obtain lg' where r: "dang_clear_objlog m os oe lg = Inr lg'" "log_wf lg'"
    "lg' = lg\<lparr>count := count lg', end_idx := end_idx lg'\<rparr>" "count lg' \<le> count lg"
    "log_ptrs lg' \<subseteq> log_ptrs lg" "\<forall>p\<in>log_ptrs lg - log_ptrs lg'. \<not> dang_checkptr_value m p os oe"
    "count lg' = 0 \<or> (\<exists>p\<in>slot_ptrs (log_buf lg ! end_idx lg'). dang_checkptr_value m p os oe)"
    using dang_clear_objlog_correct[OF assms, of m os oe] by blast
  have "log_buf lg' = log_buf lg" by (subst r(3)) simp
  then show ?thesis using r by blast
qed

theorem dang_clear_objlog_keeps_live_witness:
  "\<exists>lg'. dang_clear_objlog (\<lambda>_. None) 0x10008 0x10020 demo_log = Inr lg' \<and> log_wf lg' \<and> count lg' = 0"
  using dang_clear_objlog_keeps_live[OF demo_log_wf(1), of "\<lambda>_. None" "0x10008" "0x10020"]
  by (auto simp: dang_checkptr_value_def load64_def load_bytes_numeral)

text \<open>C13: under every finite sequence of interferences by other threads the retry loops return.  \<^verbatim>\<open>dsan_atomic_add\<close>
  has the effect of one atomic addition to the value that all interferences so far have left, with the remaining ones still to come, and
  returns the sum; \<^verbatim>\<open>dsan_atomic_cmpxchng\<close> likewise replaces that value by the desired one and returns it.  In particular, when the
  other threads add to the cell too, no addition is lost.\<close>

theorem dsan_atomics_linearize:
  "(\<exists>k\<le>length fs. dsan_atomic_add fs v c = (run_all c (take k fs) + v, run_all c (take k fs) + v, drop k fs)) \<and>
   (\<exists>k\<le>length fs. dsan_atomic_cmpxchng fs d c = (run_all c (take k fs), d, drop k fs)) \<and>
   (case dsan_atomic_add (map (+) xs) v c of (_, cell, rest) \<Rightarrow> run_all cell rest = c + v + sum_list xs)"
proof -
  obtain k where k: "dsan_atomic_add (map (+) xs) v c =
      (run_all c (take k (map (+) xs)) + v, run_all c (take k (map (+) xs)) + v, drop k (map (+) xs))"
    using dsan_atomic_add_loop_linear[of "map (+) xs" v c c] unfolding dsan_atomic_add_def by blast
  have "run_all (run_all c (take k (map (+) xs)) + v) (drop k (map (+) xs)) = c + v + (sum_list (take k xs) + sum_list (drop k xs))"
    by (simp add: take_map drop_map run_all_add add_ac)
  also have "sum_list (take k xs) + sum_list (drop k xs) = sum_list xs"
    by (metis append_take_drop_id sum_list_append)
  finally show ?thesis unfolding k
    using dsan_atomic_add_loop_linear[of fs v c c] dsan_atomic_cmpxchng_linear[of fs d c] by (simp add: dsan_atomic_add_def)
qed

subsection \<open>Thread identities\<close>

text \<open>The first registration or allocation of a thread takes its identity from the global counter.  A
  step runs \<open>init_thread\<close> for one thread, whose thread-local variable is \<open>ids t\<close>.\<close>

inductive id_step :: "(u64 \<times> (nat \<Rightarrow> u64)) \<Rightarrow> (u64 \<times> (nat \<Rightarrow> u64)) \<Rightarrow> bool" where
  take_id: "init_thread s = s' \<Longrightarrow> threadglobal_id s = g \<Longrightarrow> threadlocal_id s = ids t \<Longrightarrow>
     id_step (g, ids) (threadglobal_id s', ids(t := threadlocal_id s'))"

inductive id_run :: "nat \<Rightarrow> (u64 \<times> (nat \<Rightarrow> u64)) \<Rightarrow> bool" where
  start: "id_run 0 (0, \<lambda>_. 0)"
| step: "id_run n x \<Longrightarrow> id_step x y \<Longrightarrow> id_run (Suc n) y"

inductive_cases id_stepE: "id_step (g, ids) y"

lemma id_run_inv:
  "id_run n x \<Longrightarrow> n < 2 ^ 64 \<Longrightarrow>
     unat (fst x) \<le> n \<and> (\<forall>t. unat (snd x t) \<le> unat (fst x)) \<and>
     (\<forall>t u. snd x t = snd x u \<and> snd x t \<noteq> 0 \<longrightarrow> t = u)"
proof (induction rule: id_run.induct)
  case start
  then show ?case by simp
next
  case (step n x y)
  obtain g ids where x: "x = (g, ids)" by (cases x)
  have g: "unat g \<le> n" and le: "\<And>t. unat (ids t) \<le> unat g"
    and inj: "\<And>t u. ids t = ids u \<Longrightarrow> ids t \<noteq> 0 \<Longrightarrow> t = u" using step x by auto
  have g1: "unat (g + 1) = unat g + 1" by (rule unat_Suc_small) (use g step.prems in simp)
  obtain s t where y: "y = (threadglobal_id (init_thread s), ids(t := threadlocal_id (init_thread s)))"
    and s: "threadglobal_id s = g" "threadlocal_id s = ids t" using step.hyps(2) x by (auto elim: id_stepE)
  show ?case
  proof (cases "ids t = 0")
    case False
    then have "y = (g, ids)" using y s by (simp add: init_thread_def)
    then show ?thesis using g le inj by auto
  next
    case True
    then have yy: "y = (g + 1, ids(t := g + 1))" using y s by (simp add: init_thread_def)
    have ne: "ids u \<noteq> g + 1" for u using le[of u] g1 by auto
    have "unat (ids u) \<le> unat g + 1" for u using le[of u] by simp
    then show ?thesis unfolding yy fst_conv snd_conv g1 using g ne ne[symmetric] inj
      by (auto simp: g1 split: if_splits)
  qed
qed

text \<open>C14: along every run of identity requests by any threads, shorter than \<open>2 ^ 64\<close> steps, no two threads
  hold the same identity.\<close>

theorem thread_ids_distinct:
  assumes "id_run n (g, ids)" and "n < 2 ^ 64" and "ids t \<noteq> 0" and "t \<noteq> u"
  shows "ids t \<noteq> ids u"
  using id_run_inv[OF assms(1,2)] assms(3,4) by auto

theorem thread_ids_distinct_witness:
  "id_run 2 (2, (\<lambda>_. 0)(0 := 1, 1 := 2)) \<and> (1::u64) \<noteq> 2"
proof -
  let ?s = "\<lambda>g. (demo_dsan Map.empty)\<lparr>threadglobal_id := g, threadlocal_id := 0\<rparr>"
  have "id_step (0, \<lambda>_. 0) (1, (\<lambda>_. 0)(0 := 1))"
    using id_step.intros[of "?s 0" "init_thread (?s 0)" 0 "\<lambda>_. 0" 0] by (simp add: init_thread_def)
  then have 1: "id_run (Suc 0) (1, (\<lambda>_. 0)(0 := 1))" by (rule id_run.step[OF id_run.start])
  have "id_step (1, (\<lambda>_. 0)(0 := 1)) (2, (\<lambda>_. 0)(0 := 1, 1 := 2))"
    using id_step.intros[of "?s 1" "init_thread (?s 1)" 1 "(\<lambda>_. 0)(0 := 1)" 1] by (simp add: init_thread_def)
  then have "id_run (Suc (Suc 0)) (2, (\<lambda>_. 0)(0 := 1, 1 := 2))" by (rule id_run.step[OF 1])
  then have run: "id_run 2 (2, (\<lambda>_. 0)(0 := 1, 1 := 2))" by (simp add: numeral_2_eq_2)
  then show ?thesis using thread_ids_distinct[OF run, of 0 1] by simp
qed

subsection \<open>Two behaviours that lose pointers\<close>

text \<open>C15: a free that is told the size 0, which is what the allocator's hook passes for every object above the
  largest size class, releases the object's logs but leaves every registered location as it
  was: the dangling pointers stay usable.\<close>

theorem freeptr_size_zero_keeps_pointers:
  assumes "\<not> free_flag s" and "metaget_16 obj s = Inr md"
    and "thread_chain (logs s) (meta16_a md) gss" and "logs_wf (logs s) (concat gss)"
    and "P = logs_ptrs (logs s) (concat gss)" and "ptr_locs P" and "obj \<le> DANG_NULL"
    and "pt_read (meta s) (obj div METALLOC_PAGESIZE) = Inr e" and "unat (e AND 0xFF) < 31"
    and "length gss < fuel" and "\<forall>gs\<in>set gss. length gs < fuel"
  shows "\<exists>s'. dang_freeptr fuel obj 0 s = Inr s' \<and>
     (\<forall>p\<in>P. load64 (mmem (meta s')) p = load64 (mmem (meta s)) p) \<and>
     logs s' = (logs s) |` (- set (concat gss))"
proof -
  have oe: "obj + 0 \<le> DANG_NULL" using assms(7) by simp
  obtain m1 where run: "free_threadlogs fuel fuel obj (obj + 0) (meta16_a md) s = Inr (freed s m1 (concat gss))"
    and nul: "nullified obj (obj + 0) P (mmem (meta s)) m1"
    using free_threadlogs_correct[OF oe assms(3,4) _ assms(1,10,11)] assms(5,6) by blast
  have "nulled obj (obj + 0) = (\<lambda>v. v)" by (rule ext) (auto simp: nulled_def)
  then have same: "\<forall>p\<in>P. load64 m1 p = load64 (mmem (meta s)) p"
    using nul by (simp add: nullified_def option.map_ident)
  let ?s = "freed s m1 (concat gss)"
  have "unat (metasize_of 0 (e AND 0xFF)) = 0"
    using unat_metasize_of[OF assms(9), of 0] by simp
  moreover have "pt_read (meta ?s) (obj div METALLOC_PAGESIZE) = Inr e"
    using assms(8) by (simp add: freed_def pt_read_def)
  ultimately have "metaset_16 obj 0 (mk_meta16 0 0) ?s = Inr ?s"
    by (simp add: metaset_16_def metaset_def meta_fill_def Let_def freed_def)
  then have "dang_freeptr fuel obj 0 s = Inr ?s" using assms(1,2) run by (simp add: dang_freeptr_def)
  then show ?thesis using same by simp
qed

theorem freeptr_size_zero_keeps_pointers_witness:
  "\<exists>s'. dang_freeptr 2 0x10008 0 demo_tracked = Inr s' \<and>
     load64 (mmem (meta s')) 0x40000 = Some 0x10010 \<and> logs s' 0x6000 = None"
proof -
  note f = demo_tracked_facts
  have "unat (make_entry 0x20000 3 AND 0xFF) < 31" using and_make_entry[of 3 "0x20000"] by simp
  moreover have "pt_read (meta demo_tracked) (0x10008 div METALLOC_PAGESIZE) = Inr (make_entry 0x20000 3)"
    by (simp add: demo_tracked_def demo_meta_def pt_read_def METALLOC_PAGESIZE_def)
  moreover have "0x10008 \<le> DANG_NULL" by (simp add: DANG_NULL_def)
  ultimately obtain s' where "dang_freeptr 2 0x10008 0 demo_tracked = Inr s'"
    "\<forall>p\<in>{0x40000}. load64 (mmem (meta s')) p = load64 (mmem (meta demo_tracked)) p"
    "logs s' = (logs demo_tracked) |` (- set (concat [[0x6000]]))"
    using freeptr_size_zero_keeps_pointers[OF f(6,1-4,7), of "make_entry 0x20000 3" 2] by auto
  then show ?thesis using f(5) by simp
qed

text \<open>A slot of the lookbehind window that names the location is found, live or not.\<close>

lemma slot_ptr_parts:
  assumes "byte b" and "q = slot_prefix w"
  shows "drop_bit 8 (slot_ptr q b) = q" and "slot_ptr q b AND 0xFF = b"
proof -
  have q: "n < 40" if "bit q n" for n using that assms(2)
    by (auto simp: slot_prefix_def bit_drop_bit_eq dest: bit_imp_le_length)
  have b: "n < 8" if "bit b n" for n using byte_bit[OF assms(1) that] .
  show "drop_bit 8 (slot_ptr q b) = q" unfolding slot_ptr_def
    by (intro bit_word_eqI) (auto simp: slot_bit_simps dest: q b)
  show "slot_ptr q b AND 0xFF = b" unfolding slot_ptr_def mask8
    by (intro bit_word_eqI) (auto simp: slot_bit_simps dest: b)
qed

lemma lookbehind_step_dup:
  assumes "p \<in> slot_ptrs w" shows "lookbehind_step (drop_bit 8 p) (p AND 0xFF) w j st = None"
proof -
  obtain b where b: "p = slot_ptr (slot_prefix w) b" "byte b"
    "b = slot_byte1 w \<or> slot_byte2 w \<noteq> 0 \<and> b = slot_byte2 w \<or>
     slot_byte2 w \<noteq> 0 \<and> slot_byte3 w \<noteq> 0 \<and> b = slot_byte3 w"
    using assms by (auto simp: slot_ptrs_def split: if_splits)
  show ?thesis using b(3) slot_ptr_parts[OF b(2) refl, of w] unfolding b(1)
    by (auto simp: lookbehind_step_def Let_def)
qed

lemma lookbehind_dup:
  assumes "p \<in> slot_ptrs (buf ! (idx - d))" "d \<le> idx"
  shows "i \<le> d \<Longrightarrow> d < i + k \<Longrightarrow> lookbehind (drop_bit 8 p) (p AND 0xFF) buf idx i k st = None"
proof (induction k arbitrary: i st)
  case (Suc k)
  show ?case
  proof (cases "i = d")
    case True
    then show ?thesis using assms lookbehind_step_dup by simp
  next
    case False
    then show ?thesis using Suc assms(2) by (auto split: option.split)
  qed
qed simp

text \<open>C16: a location that some slot of the lookbehind window names is reported as a duplicate and the log is
  left alone, even when that slot was reclaimed and is no longer tracked.\<close>

theorem stale_slot_reported_duplicate:
  assumes "log_wf lg" and "j < index lg" and "index lg - j \<le> n" and "p \<in> slot_ptrs (log_buf lg ! j)"
  shows "log_insert n p lg = Inr lg"
proof -
  have "lookbehind (drop_bit 8 p) (p AND 0xFF) (log_buf lg) (index lg) 1 n (index lg, p AND 0xFF, 0, 0) = None"
    using assms by (intro lookbehind_dup[of p _ _ "index lg - j"]) auto
  then show ?thesis using log_wf_index[OF assms(1)] assms(2) by (simp add: log_insert_def dang_insertlogptr_def)
qed

theorem stale_slot_reported_duplicate_witness:
  "\<exists>lg. dang_clear_objlog (\<lambda>_. None) 0x10008 0x10020 demo_log = Inr lg \<and>
     log_insert 4 0x40000 lg = Inr lg \<and> 0x40000 \<notin> log_ptrs lg"
proof -
  let ?lg = "demo_log\<lparr>count := 0, end_idx := 1\<rparr>"
  have run: "dang_clear_objlog (\<lambda>_. None) 0x10008 0x10020 demo_log = Inr ?lg"
    unfolding dang_clear_objlog_def demo_log_def
    by (simp add: numeral_eq_Suc mod_Suc ring_next_def clear_slot_breaks_def dang_checkptr_value_def load64_def Let_def)
  have wf: "log_wf ?lg" and np: "log_ptrs ?lg = {}"
    using demo_log_wf(1) demo_log_live by (auto simp: log_wf_def live_def ring_def log_ptrs_def demo_log_def)
  have "0x40000 \<in> slot_ptrs (log_buf ?lg ! 0)"
    using demo_log_wf(2) demo_log_live by (simp add: log_ptrs_def)
  then have "log_insert 4 0x40000 ?lg = Inr ?lg"
    by (intro stale_slot_reported_duplicate[OF wf, of 0]) (simp_all add: demo_log_def)
  then show ?thesis using run np by auto
qed
end
