(* ===== verification/DangSan_Race.thy ===== *)
theory DangSan_Race
  imports DangSan_Life
begin

unbundle bit_operations_syntax

section \<open>Freeing an object while other threads run\<close>

text \<open>
  The walk of \<^verbatim>\<open>dang_freeptr\<close> over a log reads and nullifies the locations one by one while other threads store to them.  The walk
  is a fold of single steps over the list of logged locations; three facts about a location are carried along the fold: it no longer points
  into the object once it has been visited, a value stored by another thread stays, and without interference it is nullified as if the walk
  ran alone.
\<close>

subsection \<open>The walk is a fold\<close>

definition slot_list :: "u64 \<Rightarrow> u64 list" where
  "slot_list w = (if slot_prefix w = 0 then []
     else slot_ptr (slot_prefix w) (slot_byte1 w) #
       (if slot_byte2 w = 0 then []
        else slot_ptr (slot_prefix w) (slot_byte2 w) #
          (if slot_byte3 w \<noteq> 0 then [slot_ptr (slot_prefix w) (slot_byte3 w)] else [])))"

lemma set_slot_list: "set (slot_list w) = slot_ptrs w"
  by (auto simp: slot_list_def slot_ptrs_def)

lemma free_slot_with_fold: "free_slot_with env oa oe w km = fold (nullify_step env oa oe) (slot_list w) km"
  by (simp add: free_slot_with_def slot_list_def Let_def)

lemma free_log_loop_with_fold:
  assumes wf: "log_wf lg"
  shows "e < log_size lg \<Longrightarrow> \<exists>ps. free_log_loop_with env oa oe lg e c km = Inr (fold (nullify_step env oa oe) ps km) \<and>
    set ps = (\<Union>j\<in>ring (log_size lg) e c. slot_ptrs (log_buf lg ! j))"
proof (induction c arbitrary: e km)
  case 0
  then show ?case by (intro exI[of _ "[]"]) (simp add: ring_def)
next
  case (Suc c)
  have e: "\<not> length (log_buf lg) \<le> e" using Suc.prems wf by (simp add: log_wf_def)
  have n: "ring_next lg e < log_size lg" using ring_next_mod[OF wf] log_wf_pos[OF wf] by simp
  obtain ps where "free_log_loop_with env oa oe lg (ring_next lg e) c (free_slot_with env oa oe (log_buf lg ! e) km) =
      Inr (fold (nullify_step env oa oe) ps (free_slot_with env oa oe (log_buf lg ! e) km))"
    "set ps = (\<Union>j\<in>ring (log_size lg) (ring_next lg e) c. slot_ptrs (log_buf lg ! j))" using Suc.IH[OF n] by blast
  then show ?case using e ring_Suc[OF Suc.prems] ring_next_mod[OF wf]
    by (intro exI[of _ "slot_list (log_buf lg ! e) @ ps"]) (simp add: free_slot_with_fold set_slot_list)
qed

lemma free_log_with_fold:
  assumes "log_wf lg"
  obtains ps where "free_log_with env oa oe lg km = Inr (fold (nullify_step env oa oe) ps km)" and "set ps = log_ptrs lg"
  using free_log_loop_with_fold[OF assms, of "end_idx lg" env oa oe "count lg" km] assms
  unfolding free_log_with_def log_ptrs_def live_def log_wf_def by auto

subsection \<open>One step\<close>

definition inside :: "u64 \<Rightarrow> u64 \<Rightarrow> u64 option \<Rightarrow> bool" where
  "inside oa oe x \<longleftrightarrow> (\<exists>v. x = Some v \<and> oa \<le> v \<and> v < oe)"

lemma null_outside: "oe \<le> DANG_NULL \<Longrightarrow> \<not> inside oa oe (Some (v OR DANG_NULL))"
proof -
  assume oe: "oe \<le> DANG_NULL"
  have "DANG_NULL \<le> v OR DANG_NULL" by (rule le_word_or1)
  then have "\<not> v OR DANG_NULL < oe" using oe by (meson leD le_less_trans order_trans)
  then show ?thesis by (simp add: inside_def)
qed

text \<open>The effect on the location itself, on another location, and on a byte outside it.\<close>

lemma nullify_same:
  assumes "user_loc p"
  shows "load64 (dang_nullifyptr_with f p oa oe m) p =
    (if inside oa oe (load64 m p) \<and> load64 (f m) p = load64 m p then map_option (\<lambda>v. v OR DANG_NULL) (load64 m p) else load64 (f m) p)"
proof (cases "inside oa oe (load64 m p) \<and> load64 (f m) p = load64 m p")
  case False
  then show ?thesis using user_loc_not_null[OF assms]
    by (auto simp: dang_nullifyptr_with_def dsan_atomic_cmpxchng_once_def inside_def split: option.split)
next
  case True
  then obtain v where v: "load64 m p = Some v" "oa \<le> v" "v < oe" "load64 (f m) p = Some v" by (auto simp: inside_def)
  have "mapped (f m) p 8" using load64_mapped[of "f m" p] v(4) by simp
  then obtain m' where st: "store64 (f m) p (v OR DANG_NULL) = Some m'" using store64_mapped[of "f m" p "v OR DANG_NULL"] by auto
  then show ?thesis using True v user_loc_not_null[OF assms] load64_store64_same[OF st]
    by (simp add: dang_nullifyptr_with_def dsan_atomic_cmpxchng_once_def)
qed

lemma nullify_byte:
  assumes "x \<notin> addrs p 8" shows "dang_nullifyptr_with f p oa oe m x = f m x"
proof -
  have "m' x = f m x" if "store64 (f m) p w = Some m'" for m' w
    using store_bytes_other[of "f m" p "u64_bytes w" m' x] that assms by (simp add: store64_def)
  then show ?thesis by (auto simp: dang_nullifyptr_with_def dsan_atomic_cmpxchng_once_def split: option.split)
qed

lemma nullify_other:
  assumes "aligned8 p" "aligned8 q" "p \<noteq> q" shows "load64 (dang_nullifyptr_with f p oa oe m) q = load64 (f m) q"
proof (rule load64_cong)
  fix x assume "x \<in> addrs q 8"
  then have "x \<notin> addrs p 8" using aligned8_disjoint[of p q] assms by auto
  then show "dang_nullifyptr_with f p oa oe m x = f m x" by (rule nullify_byte)
qed

lemma nullify_step_load:
  assumes "user_loc p" "aligned8 p" "aligned8 q"
  shows "load64 (snd (nullify_step env oa oe p (k, m))) q =
    (let x = load64 (env k m) q; y = load64 (env (k + 1) (env k m)) q
     in if p = q \<and> inside oa oe x \<and> y = x then map_option (\<lambda>v. v OR DANG_NULL) x else y)"
  using nullify_same[OF assms(1), of "env (k + 1)" oa oe "env k m"] nullify_other[OF assms(2,3), of "env (k + 1)" oa oe "env k m"]
  by (cases "p = q") (simp_all add: nullify_step_def Let_def)

lemma fst_nullify_step [simp]: "fst (nullify_step env oa oe p km) = fst km + 2"
  by (simp add: nullify_step_def split_beta)

lemma fst_walk: "fst (fold (nullify_step env oa oe) ps km) = fst km + 2 * length ps"
  by (induction ps arbitrary: km) simp_all

subsection \<open>The walk\<close>

text \<open>What the other threads may do to a tracked location: leave it alone or store something that does not point into the object.\<close>

definition no_new_pointer :: "(nat \<Rightarrow> mem \<Rightarrow> mem) \<Rightarrow> u64 \<Rightarrow> u64 \<Rightarrow> u64 \<Rightarrow> bool" where
  "no_new_pointer env oa oe p \<longleftrightarrow> (\<forall>k m. load64 (env k m) p = load64 m p \<or> \<not> inside oa oe (load64 (env k m) p))"

definition untouched_from :: "(nat \<Rightarrow> mem \<Rightarrow> mem) \<Rightarrow> nat \<Rightarrow> u64 \<Rightarrow> bool" where
  "untouched_from env k p \<longleftrightarrow> (\<forall>j\<ge>k. \<forall>m. load64 (env j m) p = load64 m p)"

lemma step_outside:
  assumes "user_loc p" "aligned8 p" "aligned8 q" "no_new_pointer env oa oe q" "oe \<le> DANG_NULL" "p = q \<or> \<not> inside oa oe (load64 m q)"
  shows "\<not> inside oa oe (load64 (snd (nullify_step env oa oe p (k, m))) q)"
proof -
  let ?x = "load64 (env k m) q" and ?y = "load64 (env (k + 1) (env k m)) q"
  have r: "?x = load64 m q \<or> \<not> inside oa oe ?x" "?y = ?x \<or> \<not> inside oa oe ?y" using assms(4) by (auto simp: no_new_pointer_def)
  have "\<not> inside oa oe (map_option (\<lambda>v. v OR DANG_NULL) ?x)" using null_outside[OF assms(5)] by (cases ?x) (auto simp: inside_def)
  then show ?thesis using r assms(6) unfolding nullify_step_load[OF assms(1-3)] Let_def by auto
qed

lemma walk_outside:
  assumes "aligned8 q" "no_new_pointer env oa oe q" "oe \<le> DANG_NULL"
  shows "ptr_locs (set ps) \<Longrightarrow> q \<in> set ps \<or> \<not> inside oa oe (load64 (snd km) q) \<Longrightarrow>
    \<not> inside oa oe (load64 (snd (fold (nullify_step env oa oe) ps km)) q)"
proof (induction ps arbitrary: km)
  case (Cons p ps)
  obtain k m where km: "km = (k, m)" by fastforce
  have p: "user_loc p" "aligned8 p" using Cons.prems(1) by auto
  have "q \<in> set ps \<or> \<not> inside oa oe (load64 (snd (nullify_step env oa oe p km)) q)"
    using Cons.prems(2) step_outside[OF p assms(1,2,3)] km by auto
  then show ?case using Cons.IH Cons.prems(1) by simp
qed simp

lemma walk_keeps:
  assumes "aligned8 q" "\<not> inside oa oe x"
  shows "ptr_locs (set ps) \<Longrightarrow> load64 (snd km) q = x \<Longrightarrow> untouched_from env (fst km) q \<Longrightarrow>
    load64 (snd (fold (nullify_step env oa oe) ps km)) q = x"
proof (induction ps arbitrary: km)
  case (Cons p ps)
  obtain k m where km: "km = (k, m)" by fastforce
  have p: "user_loc p" "aligned8 p" using Cons.prems(1) by auto
  have "load64 (snd (nullify_step env oa oe p km)) q = x"
    using nullify_step_load[OF p assms(1), of env oa oe k m] Cons.prems(2,3) assms(2) km by (auto simp: untouched_from_def Let_def)
  moreover have "untouched_from env (fst (nullify_step env oa oe p km)) q" using Cons.prems(3) by (simp add: untouched_from_def)
  ultimately show ?case using Cons.IH Cons.prems(1) by simp
qed simp

text \<open>The last store of another thread, at the moment \<open>k\<close> of the walk, stays.\<close>

lemma walk_last_store:
  assumes q: "aligned8 q" and x: "\<not> inside oa oe (Some w)" and st: "\<And>m. load64 (env k m) q = Some w" and un: "untouched_from env (Suc k) q"
  shows "ptr_locs (set ps) \<Longrightarrow> fst km \<le> k \<Longrightarrow> k < fst km + 2 * length ps \<Longrightarrow>
    load64 (snd (fold (nullify_step env oa oe) ps km)) q = Some w"
proof (induction ps arbitrary: km)
  case (Cons p ps)
  obtain j m where km: "km = (j, m)" by fastforce
  have p: "user_loc p" "aligned8 p" and ps: "ptr_locs (set ps)" using Cons.prems(1) by auto
  let ?km = "nullify_step env oa oe p km"
  show ?case
  proof (cases "k < j + 2")
    case False
    then show ?thesis using Cons.IH[OF ps, of ?km] Cons.prems(3) km by simp
  next
    case True
    then consider "k = j" | "k = Suc j" using Cons.prems(2) km by force
    then have "load64 (snd ?km) q = Some w"
    proof cases
      case 1
      have "load64 (env (j + 1) (env j m)) q = load64 (env j m) q" using un 1 by (simp add: untouched_from_def)
      then show ?thesis using nullify_step_load[OF p q, of env oa oe j m] st x km 1 by (simp add: Let_def)
    next
      case 2
      then have "load64 (env (j + 1) (env j m)) q = Some w" using st by simp
      then show ?thesis using nullify_step_load[OF p q, of env oa oe j m] x km by (auto simp: Let_def)
    qed
    moreover have "untouched_from env (fst ?km) q" using un True Cons.prems(2) km by (simp add: untouched_from_def)
    ultimately show ?thesis using walk_keeps[OF q x ps, of ?km] by simp
  qed
qed simp

lemma walk_alone:
  assumes q: "aligned8 q" and oe: "oe \<le> DANG_NULL"
  shows "ptr_locs (set ps) \<Longrightarrow> untouched_from env (fst km) q \<Longrightarrow> q \<in> set ps \<Longrightarrow>
    load64 (snd (fold (nullify_step env oa oe) ps km)) q = map_option (nulled oa oe) (load64 (snd km) q)"
proof (induction ps arbitrary: km)
  case (Cons p ps)
  obtain k m where km: "km = (k, m)" by fastforce
  have p: "user_loc p" "aligned8 p" and ps: "ptr_locs (set ps)" using Cons.prems(1) by auto
  let ?km = "nullify_step env oa oe p km"
  have un: "untouched_from env (fst ?km) q" using Cons.prems(2) by (simp add: untouched_from_def)
  have "load64 (env k m) q = load64 m q" "load64 (env (k + 1) (env k m)) q = load64 m q"
    using Cons.prems(2) km by (simp_all add: untouched_from_def)
  then have s: "load64 (snd ?km) q = (if p = q \<and> inside oa oe (load64 m q) then map_option (\<lambda>v. v OR DANG_NULL) (load64 m q) else load64 m q)"
    using nullify_step_load[OF p q, of env oa oe k m] km by (simp add: Let_def)
  show ?case
  proof (cases "p = q")
    case True
    then have v: "load64 (snd ?km) q = map_option (nulled oa oe) (load64 m q)"
      unfolding s by (cases "load64 m q") (auto simp: inside_def nulled_def)
    then have "\<not> inside oa oe (load64 (snd ?km) q)"
      using null_outside[OF oe] by (cases "load64 m q") (auto simp: inside_def nulled_def)
    from walk_keeps[OF q this ps refl un] show ?thesis using v km by simp
  next
    case False
    then show ?thesis using Cons.IH[OF ps un] Cons.prems(3) s km by simp
  qed
qed simp

lemma walk_byte:
  assumes "\<forall>k m. env k m x = m x"
  shows "x \<notin> (\<Union>p\<in>set ps. addrs p 8) \<Longrightarrow> snd (fold (nullify_step env oa oe) ps km) x = snd km x"
proof (induction ps arbitrary: km)
  case (Cons p ps)
  have "snd (nullify_step env oa oe p km) x = snd km x"
    using nullify_byte[of x p] Cons.prems assms by (simp add: nullify_step_def split_beta)
  then show ?case using Cons by simp
qed simp

text \<open>C12: the walk of \<^verbatim>\<open>dang_freeptr\<close> over a log, with arbitrary actions of other threads before each load and between each load and its
  compare-and-swap.  The walk returns, after at least two such moments per tracked location.  When the other threads store no new pointer into the object at a tracked location, none of the tracked
  locations points into the object afterwards.  A value that another thread stores last at a tracked location during the walk, outside
  the object, stays.  A tracked location that nobody else touches is nullified exactly when it points into the object, and a byte outside
  the tracked locations that nobody else touches keeps its value.\<close>

theorem free_log_races:
  assumes "log_wf lg" and "oe \<le> DANG_NULL" and "ptr_locs (log_ptrs lg)"
  shows "\<exists>n m'. free_log_with env oa oe lg (0, m) = Inr (n, m') \<and> 2 * card (log_ptrs lg) \<le> n \<and>
    (\<forall>p\<in>log_ptrs lg. no_new_pointer env oa oe p \<longrightarrow> \<not> inside oa oe (load64 m' p)) \<and>
    (\<forall>p\<in>log_ptrs lg. \<forall>k<n. \<forall>w. (\<forall>m. load64 (env k m) p = Some w) \<and> \<not> inside oa oe (Some w) \<and> untouched_from env (Suc k) p \<longrightarrow>
       load64 m' p = Some w) \<and>
    (\<forall>p\<in>log_ptrs lg. untouched_from env 0 p \<longrightarrow> load64 m' p = map_option (nulled oa oe) (load64 m p)) \<and>
    (\<forall>x. x \<notin> (\<Union>p\<in>log_ptrs lg. addrs p 8) \<and> (\<forall>k m. env k m x = m x) \<longrightarrow> m' x = m x)"
proof -
  obtain ps where ps: "free_log_with env oa oe lg (0, m) = Inr (fold (nullify_step env oa oe) ps (0, m))" "set ps = log_ptrs lg"
    by (rule free_log_with_fold[OF assms(1)])
  let ?f = "fold (nullify_step env oa oe) ps (0, m)"
  have pl: "ptr_locs (set ps)" and al: "\<And>p. p \<in> log_ptrs lg \<Longrightarrow> aligned8 p" using assms(3) ps(2) by (auto simp: ptr_locs_def)
  have n: "fst ?f = 2 * length ps" using fst_walk[of env oa oe ps "(0, m)"] by simp
  then have c: "2 * card (log_ptrs lg) \<le> fst ?f" using card_length[of ps] ps(2) by simp
  have 1: "\<not> inside oa oe (load64 (snd ?f) p)" if "p \<in> log_ptrs lg" "no_new_pointer env oa oe p" for p
    using walk_outside[OF al[OF that(1)] that(2) assms(2) pl] that(1) ps(2) by simp
  have 2: "load64 (snd ?f) p = Some w" if "p \<in> log_ptrs lg" "k < fst ?f" "\<forall>m. load64 (env k m) p = Some w" "\<not> inside oa oe (Some w)"
    "untouched_from env (Suc k) p" for p k w
    using walk_last_store[OF al[OF that(1)] that(4) _ that(5) pl, of "(0, m)"] that(2,3) n by simp
  have 3: "load64 (snd ?f) p = map_option (nulled oa oe) (load64 m p)" if "p \<in> log_ptrs lg" "untouched_from env 0 p" for p
    using walk_alone[OF al[OF that(1)] assms(2) pl, of env "(0, m)"] that ps(2) by simp
  have 4: "snd ?f x = m x" if "x \<notin> (\<Union>p\<in>log_ptrs lg. addrs p 8)" "\<forall>k m. env k m x = m x" for x
    using walk_byte[where env = env and x = x and ps = ps and km = "(0, m)"] that ps(2) by simp
  show ?thesis by (rule exI[of _ "fst ?f"], rule exI[of _ "snd ?f"]) (use ps(1) c 1 2 3 4 in auto)
qed

text \<open>Another thread overwrites all of memory with zeros between the load of the dangling pointer and the compare-and-swap.\<close>

theorem free_log_races_witness:
  "\<exists>n m'. free_log_with (\<lambda>k m. if k = 1 then (\<lambda>_. Some 0) else m) 0x10008 0x10020 demo_log (0, mmem (meta demo_tracked)) = Inr (n, m') \<and>
     load64 m' 0x40000 = Some 0"
proof -
  let ?env = "\<lambda>k m. if k = (1::nat) then (\<lambda>_. Some 0) else (m :: mem)"
  have pl: "ptr_locs (log_ptrs demo_log)" unfolding demo_log_wf(2) by (simp add: user_loc_def aligned8_def)
  have oe: "(0x10020 :: u64) \<le> DANG_NULL" by (simp add: DANG_NULL_def)
  have z: "load64 (?env 1 m) 0x40000 = Some 0" for m by (simp add: load64_def load_bytes_numeral bytes_u64_def)
  have un: "untouched_from ?env (Suc 1) 0x40000" by (simp add: untouched_from_def)
  have out: "\<not> inside 0x10008 0x10020 (Some 0)" by (simp add: inside_def)
  obtain n m' where r: "free_log_with ?env 0x10008 0x10020 demo_log (0, mmem (meta demo_tracked)) = Inr (n, m')"
    "2 * card (log_ptrs demo_log) \<le> n"
    "\<forall>p\<in>log_ptrs demo_log. \<forall>k<n. \<forall>w. (\<forall>m. load64 (?env k m) p = Some w) \<and> \<not> inside 0x10008 0x10020 (Some w) \<and>
       untouched_from ?env (Suc k) p \<longrightarrow> load64 m' p = Some w"
    using free_log_races[OF demo_log_wf(1) oe pl, of ?env "0x10008" "mmem (meta demo_tracked)"] by blast
  have "(0x40000 :: u64) \<in> log_ptrs demo_log" "1 < n" using r(2) unfolding demo_log_wf(2) by simp_all
  then have "load64 m' 0x40000 = Some 0" using r(3) z un out by blast
  then show ?thesis using r(1) by blast
qed

end
