(* ===== verification/SizeMap.thy ===== *)
theory SizeMap
  imports Prelude "HOL-Library.Signed_Division"
begin

unbundle bit_operations_syntax

section \<open>Size classes (gperftools-metalloc/src/common.h, common.cc)\<close>

text \<open>
  The size-class table of the allocator in its default configuration (8 KiB pages, 16-byte
  minimum alignment).  Sizes are natural numbers; every size the code computes here is far below
  \<open>2 ^ 64\<close>, the one sum that could wrap is written with its \<open>mod\<close>.  The arrays are functions of
  the index, and a store past the end of an array is the fault \<open>Crash\<close>, as is a failed
  \<^verbatim>\<open>CHECK_CONDITION\<close> or a \<^verbatim>\<open>Log(kCrash, ..)\<close>.  \<^verbatim>\<open>FLAGS_tcmalloc_transfer_num_objects\<close>, which the
  environment sets, is an argument.
\<close>

definition kPageShift :: nat where "kPageShift = 13"
definition kBaseClasses :: nat where "kBaseClasses = 9"
definition kNumClasses :: nat where "kNumClasses = kBaseClasses + 79 + 32 - 9"
definition kMinAlign :: nat where "kMinAlign = 16"
definition kPageSize :: nat where "kPageSize = 2 ^ kPageShift"
definition kMaxSize :: nat where "kMaxSize = 256 * 1024 * 2"
definition kAlignment :: nat where "kAlignment = 8"
definition kMaxPages :: nat where "kMaxPages = 2 ^ (20 - kPageShift)"
definition kMaxSmallSize :: nat where "kMaxSmallSize = 1024"
definition kClassArraySize :: nat where
  "kClassArraySize = (kMaxSize + 127 + 120 * 2 ^ 7) div 2 ^ 7 + 1"
definition kDefaultTransferNumObjecs :: int where "kDefaultTransferNumObjecs = 32768"

lemmas size_consts [simp] = kPageShift_def kBaseClasses_def kNumClasses_def kMinAlign_def kPageSize_def
  kMaxSize_def kAlignment_def kMaxPages_def kMaxSmallSize_def kClassArraySize_def

definition pages :: "nat \<Rightarrow> nat" where
  "pages bytes = bytes div 2 ^ kPageShift + (if 0 < bytes mod kPageSize then 1 else 0)"

definition ClassIndex :: "nat \<Rightarrow> nat" where
  "ClassIndex s = (if s \<le> kMaxSmallSize then (s + 7) div 2 ^ 3 else (s + 127 + 120 * 2 ^ 7) div 2 ^ 7)"

record SizeMap =
  num_objects_to_move :: "nat \<Rightarrow> int"
  class_array :: "nat \<Rightarrow> nat"
  class_to_size :: "nat \<Rightarrow> nat"
  class_to_pages :: "nat \<Rightarrow> nat"

definition SizeClass :: "SizeMap \<Rightarrow> nat \<Rightarrow> nat" where
  "SizeClass m sz = class_array m (ClassIndex sz)"

subsection \<open>Alignment of a size\<close>

text \<open>The loop of \<^verbatim>\<open>LgFloor\<close> with the number of iterations that are left.\<close>

fun LgFloor_loop :: "nat \<Rightarrow> nat \<Rightarrow> nat \<Rightarrow> nat" where
  "LgFloor_loop 0 n log = log"
| "LgFloor_loop (Suc i) n log =
     (let shift = 2 ^ i; x = n div 2 ^ shift in
      if x \<noteq> 0 then LgFloor_loop i x (log + shift) else LgFloor_loop i n log)"

definition LgFloor :: "nat \<Rightarrow> nat" where "LgFloor n = LgFloor_loop 5 n 0"

definition AlignmentForSize :: "nat \<Rightarrow> nat res" where
  "AlignmentForSize sz =
     (let alignment =
        (if kMaxSize < sz then kPageSize
         else if 128 \<le> sz then 2 ^ LgFloor sz div 8
         else if kMinAlign \<le> sz then kMinAlign
         else kAlignment);
        alignment = (if kPageSize < alignment then kPageSize else alignment)
      in if \<not> (sz < kMinAlign \<or> kMinAlign \<le> alignment) then Inl Crash
         else if alignment AND (alignment - 1) \<noteq> 0 then Inl Crash
         else Inr alignment)"

fun bit_length :: "nat \<Rightarrow> nat" where
  "bit_length n = (if n = 0 then 0 else Suc (bit_length (n div 2)))"

declare bit_length.simps [simp del]

definition clzll :: "nat \<Rightarrow> nat" where "clzll n = 64 - bit_length n"

definition AlignmentBitsForSize :: "nat \<Rightarrow> nat res" where
  "AlignmentBitsForSize sz = bindR (AlignmentForSize sz) (\<lambda>a. Inr (8 * 8 - clzll a - 1))"

subsection \<open>SizeMap::NumMoveSize and SizeMap::Init\<close>

definition NumMoveSize :: "int \<Rightarrow> nat \<Rightarrow> int" where
  "NumMoveSize flag sz =
     (if sz = 0 then 0
      else
        let num = int (64 * 1024 div sz);
            num = (if num < 2 then 2 else num)
        in if flag < num then flag else num)"

text \<open>The two nested loops that choose the bytes of a span.  The inner one is bounded because the
  leftover is below the size; the outer one compares with a signed count converted to
  \<^verbatim>\<open>size_t\<close>, which is huge for a negative count, so it takes fuel.\<close>

function add_pages :: "nat \<Rightarrow> nat \<Rightarrow> nat res" where
  "add_pages sz psize =
     (if sz = 0 then Inl Crash
      else if psize div 2 ^ 3 < psize mod sz then add_pages sz (psize + kPageSize)
      else Inr psize)"
  by pat_completeness auto

termination
proof (relation "measure (\<lambda>(sz, psize). 8 * sz - psize)")
  fix sz psize :: nat
  assume "sz \<noteq> 0" "psize div 2 ^ 3 < psize mod sz"
  then have "psize div 8 < sz" using less_trans[OF _ mod_less_divisor, of "psize div 8" psize sz] by simp
  then have "psize < 8 * sz" by (simp add: div_less_iff_less_mult mult.commute)
  then show "((sz, psize + kPageSize), sz, psize) \<in> measure (\<lambda>(sz, psize). 8 * sz - psize)" by simp
qed simp

declare add_pages.simps [simp del]

definition to_size_t :: "int \<Rightarrow> int" where "to_size_t i = i mod 2 ^ 64"

fun span_bytes :: "nat \<Rightarrow> nat \<Rightarrow> int \<Rightarrow> nat \<Rightarrow> nat res" where
  "span_bytes 0 sz blocks_to_move psize = Inl Diverge"
| "span_bytes (Suc fuel) sz blocks_to_move psize =
     bindR (add_pages sz ((psize + kPageSize) mod 2 ^ 64)) (\<lambda>psize.
       if int (psize div sz) < to_size_t blocks_to_move
       then span_bytes fuel sz blocks_to_move psize else Inr psize)"

type_synonym class_table = "nat \<times> (nat \<Rightarrow> nat) \<times> (nat \<Rightarrow> nat)"

text \<open>One round of the loop over the sizes: the size joins the last class or opens a new one.\<close>

definition add_size :: "nat \<Rightarrow> int \<Rightarrow> nat \<Rightarrow> class_table \<Rightarrow> class_table res" where
  "add_size fuel flag sz t =
     (case t of (sc, to_size, to_pages) \<Rightarrow>
        bindR (span_bytes fuel sz (NumMoveSize flag sz sdiv 4) 0) (\<lambda>psize.
          let my_pages_old = psize div 2 ^ kPageShift;
              my_pages = (if my_pages_old < 32 then 32 else my_pages_old);
              my_objects = (my_pages * 2 ^ kPageShift) div sz;
              prev_objects = (to_pages (sc - 1) * 2 ^ kPageShift) div to_size (sc - 1)
          in if 1 < sc \<and> my_pages = to_pages (sc - 1) \<and> my_objects = prev_objects
             then Inr (sc, to_size(sc - 1 := sz), to_pages)
             else if kNumClasses \<le> sc then Inl Crash
             else Inr (sc + 1, to_size(sc := sz), to_pages(sc := my_pages))))"

lemma AlignmentForSize_pos: "AlignmentForSize sz = Inr a \<Longrightarrow> 0 < a"
  by (auto simp: AlignmentForSize_def Let_def split: if_splits)

function class_loop :: "nat \<Rightarrow> int \<Rightarrow> nat \<Rightarrow> class_table \<Rightarrow> class_table res" where
  "class_loop fuel flag sz t =
     (if kMaxSize < sz then Inr t
      else case AlignmentForSize sz of
        Inl e \<Rightarrow> Inl e
      | Inr alignment \<Rightarrow>
          if sz mod alignment \<noteq> 0 then Inl Crash
          else case add_size fuel flag sz t of
            Inl e \<Rightarrow> Inl e
          | Inr t \<Rightarrow> class_loop fuel flag (sz + alignment) t)"
  by pat_completeness auto

termination
  by (relation "measure (\<lambda>(fuel, flag, sz, t). kMaxSize + 1 - sz)") (auto dest: AlignmentForSize_pos)

declare class_loop.simps [simp del]

text \<open>The loops that fill \<^verbatim>\<open>class_array_\<close>, whose elements are bytes.\<close>

function fill_class :: "nat \<Rightarrow> nat \<Rightarrow> nat \<Rightarrow> (nat \<Rightarrow> nat) \<Rightarrow> nat \<Rightarrow> nat" where
  "fill_class c max_size s arr =
     (if s \<le> max_size then fill_class c max_size (s + kAlignment) (arr(ClassIndex s := c mod 256)) else arr)"
  by pat_completeness auto
termination by (relation "measure (\<lambda>(c, mx, s, arr). mx + 1 - s)") auto

function fill_classes :: "(nat \<Rightarrow> nat) \<Rightarrow> nat \<Rightarrow> nat \<Rightarrow> (nat \<Rightarrow> nat) \<Rightarrow> nat \<Rightarrow> nat" where
  "fill_classes to_size c next_size arr =
     (if c < kNumClasses
      then fill_classes to_size (c + 1) (to_size c + kAlignment) (fill_class c (to_size c) next_size arr)
      else arr)"
  by pat_completeness auto
termination by (relation "measure (\<lambda>(ts, c, n, arr). kNumClasses - c)") auto

function check_sizes :: "SizeMap \<Rightarrow> nat \<Rightarrow> unit res" where
  "check_sizes m sz =
     (if sz \<le> kMaxSize then
        let sc = SizeClass m sz; s = class_to_size m sc in
        if sc \<le> 0 \<or> kNumClasses \<le> sc then Inl Crash
        else if 1 < sc \<and> sz \<le> class_to_size m (sc - 1) then Inl Crash
        else if s < sz \<or> s = 0 then Inl Crash
        else check_sizes m (if sz \<le> kMaxSmallSize then sz + 8 else sz + 128)
      else Inr ())"
  by pat_completeness auto
termination by (relation "measure (\<lambda>(m, sz). kMaxSize + 1 - sz)") auto

declare fill_class.simps [simp del] fill_classes.simps [simp del] check_sizes.simps [simp del]

definition SizeMap_Init :: "nat \<Rightarrow> int \<Rightarrow> SizeMap \<Rightarrow> SizeMap res" where
  "SizeMap_Init fuel flag m0 =
     (if ClassIndex 0 \<noteq> 0 then Inl Crash
      else if kClassArraySize \<le> ClassIndex kMaxSize then Inl Crash
      else if \<not> kAlignment \<le> kMinAlign then Inl Crash
      else
        bindR (class_loop fuel flag kAlignment (1, class_to_size m0, class_to_pages m0))
          (\<lambda>(sc, to_size, to_pages).
            if sc \<noteq> kNumClasses then Inl Crash
            else
              let m = m0\<lparr>class_to_size := to_size, class_to_pages := to_pages,
                         class_array := fill_classes to_size 1 0 (class_array m0)\<rparr>
              in bindR (check_sizes m 0) (\<lambda>_.
                Inr (m\<lparr>num_objects_to_move :=
                  (\<lambda>cl. if 1 \<le> cl \<and> cl < kNumClasses then NumMoveSize flag (to_size cl)
                        else num_objects_to_move m0 cl)\<rparr>))))"

subsection \<open>Alignments\<close>

lemma LgFloor_loop_bounds:
  assumes "0 < n" and "n < 2 ^ 2 ^ i"
  shows "2 ^ LgFloor_loop i n log \<le> n * 2 ^ log \<and> n * 2 ^ log < 2 ^ Suc (LgFloor_loop i n log)"
  using assms
proof (induction i arbitrary: n log)
  case (Suc i)
  define x where "x = n div 2 ^ 2 ^ i"
  have sq: "(2::nat) ^ 2 ^ Suc i = 2 ^ 2 ^ i * 2 ^ 2 ^ i" by (simp add: power_add mult_2)
  show ?case
  proof (cases "x = 0")
    case True
    then have "n < 2 ^ 2 ^ i" by (simp add: x_def div_eq_0_iff)
    then show ?thesis using Suc True by (simp add: x_def Let_def)
  next
    case False
    have xl: "x < 2 ^ 2 ^ i" unfolding x_def using Suc.prems(2) sq by (simp add: less_mult_imp_div_less)
    let ?L = "LgFloor_loop i x (log + 2 ^ i)"
    have IH: "2 ^ ?L \<le> x * 2 ^ (log + 2 ^ i)" "x * 2 ^ (log + 2 ^ i) < 2 ^ Suc ?L"
      using Suc.IH[of x "log + 2 ^ i"] False xl by simp_all
    have "x * 2 ^ 2 ^ i \<le> n" by (simp add: x_def)
    then have "x * 2 ^ (log + 2 ^ i) \<le> n * 2 ^ log" by (simp add: power_add mult.assoc[symmetric] mult.commute)
    then have a: "2 ^ ?L \<le> n * 2 ^ log" using IH(1) by linarith
    have "log + 2 ^ i \<le> ?L"
    proof (rule ccontr)
      assume "\<not> log + 2 ^ i \<le> ?L"
      then have "Suc ?L \<le> log + 2 ^ i" by simp
      then have "(2::nat) ^ Suc ?L \<le> 2 ^ (log + 2 ^ i)" by (rule power_increasing) simp
      also have "\<dots> \<le> x * 2 ^ (log + 2 ^ i)" using False by simp
      finally show False using IH(2) by linarith
    qed
    then obtain d where d: "?L = log + 2 ^ i + d" using le_Suc_ex by blast
    then have "x * 2 ^ (log + 2 ^ i) < 2 ^ Suc d * 2 ^ (log + 2 ^ i)" using IH(2)
      by (simp add: power_add mult_ac)
    then have "x < 2 ^ Suc d" by simp
    then have "n < 2 ^ Suc d * 2 ^ 2 ^ i" unfolding x_def by (simp add: div_less_iff_less_mult)
    then have "n * 2 ^ log < 2 ^ Suc ?L" by (simp add: d power_add mult_ac)
    then show ?thesis using a False by (simp add: x_def Let_def)
  qed
qed simp

lemma LgFloor_bounds:
  assumes "0 < n" and "n < 2 ^ 32" shows "2 ^ LgFloor n \<le> n" and "n < 2 ^ Suc (LgFloor n)"
  using LgFloor_loop_bounds[of n 5 0] assms by (simp_all add: LgFloor_def)

lemma pow2_and: "(2::nat) ^ k AND (2 ^ k - 1) = 0"
  using take_bit_of_exp[of k k, where 'a = nat] by (simp add: take_bit_eq_mask mask_eq_exp_minus_1)

text \<open>The checks of \<^verbatim>\<open>AlignmentForSize\<close> never fail, and the alignment is a power of two.\<close>

lemma AlignmentForSize_pow2: "\<exists>k. 3 \<le> k \<and> k \<le> 13 \<and> AlignmentForSize sz = Inr (2 ^ k) \<and> (16 \<le> sz \<longrightarrow> 4 \<le> k)"
proof -
  consider "kMaxSize < sz" | "128 \<le> sz" "sz \<le> kMaxSize" | "16 \<le> sz" "sz < 128" | "sz < 16"
    by (meson not_le)
  then show ?thesis
  proof cases
    case 1
    then show ?thesis using pow2_and[of 13] by (intro exI[of _ 13]) (simp add: AlignmentForSize_def)
  next
    case 2
    have l: "2 ^ LgFloor sz \<le> sz" "sz < 2 ^ Suc (LgFloor sz)" using LgFloor_bounds[of sz] 2 by simp_all
    have "(2::nat) ^ 7 < 2 ^ Suc (LgFloor sz)" using l(2) 2(1) by simp
    then have 7: "7 \<le> LgFloor sz" using power_less_imp_less_exp[of "2::nat" 7 "Suc (LgFloor sz)"] by simp
    then obtain d where d: "LgFloor sz = 3 + d" using le_Suc_ex[of 3 "LgFloor sz"] by auto
    then have "2 ^ LgFloor sz div 8 = (2::nat) ^ d" by (simp add: power_add)
    moreover have "4 \<le> d" using 7 d by simp
    moreover have "(16::nat) \<le> 2 ^ d" using power_increasing[OF \<open>4 \<le> d\<close>, of "2::nat"] by simp
    moreover have "(2::nat) ^ d \<le> 8192 \<longleftrightarrow> d \<le> 13" using power_increasing_iff[of "2::nat" d 13] by simp
    ultimately show ?thesis using 2 pow2_and[of d] pow2_and[of 13]
      by (intro exI[of _ "min d 13"]) (auto simp: AlignmentForSize_def Let_def min_def)
  next
    case 3
    then show ?thesis using pow2_and[of 4] by (intro exI[of _ 4]) (simp add: AlignmentForSize_def)
  next
    case 4
    then show ?thesis using pow2_and[of 3] by (intro exI[of _ 3]) (simp add: AlignmentForSize_def)
  qed
qed

lemma bit_length_pow2: "bit_length (2 ^ k) = Suc k"
  by (induction k) (simp_all add: bit_length.simps)

lemma AlignmentBitsForSize_eq:
  "\<exists>k. 3 \<le> k \<and> k \<le> 13 \<and> AlignmentForSize sz = Inr (2 ^ k) \<and> AlignmentBitsForSize sz = Inr k"
proof -
  obtain k where k: "3 \<le> k" "k \<le> 13" "AlignmentForSize sz = Inr (2 ^ k)"
    using AlignmentForSize_pow2[of sz] by auto
  then have "AlignmentBitsForSize sz = Inr k"
    by (simp add: AlignmentBitsForSize_def bindR_def clzll_def bit_length_pow2)
  then show ?thesis using k by blast
qed

lemma LgFloor_eq:
  assumes "2 ^ k \<le> n" and "n < 2 ^ Suc k" and "n < 2 ^ 32" shows "LgFloor n = k"
proof -
  have "0 < n" using assms(1) by (meson less_le_trans zero_less_numeral zero_less_power)
  then have "2 ^ LgFloor n \<le> n" "n < 2 ^ Suc (LgFloor n)" using LgFloor_bounds assms(3) by auto
  then have "(2::nat) ^ LgFloor n < 2 ^ Suc k" "(2::nat) ^ k < 2 ^ Suc (LgFloor n)" using assms by linarith+
  then show ?thesis using power_less_imp_less_exp[of "2::nat"] by (metis le_antisym less_Suc_eq_le one_less_numeral_iff semiring_norm(76))
qed

text \<open>The alignment as a table, for evaluation.\<close>

lemma AlignmentForSize_table:
  "AlignmentForSize sz = Inr (if sz < 16 then 8 else if sz < 256 then 16 else if sz < 512 then 32
     else if sz < 1024 then 64 else if sz < 2048 then 128 else if sz < 4096 then 256
     else if sz < 8192 then 512 else if sz < 16384 then 1024 else if sz < 32768 then 2048
     else if sz < 65536 then 4096 else 8192)"
proof -
  note ev = AlignmentForSize_def Let_def
  have mid: "AlignmentForSize sz = Inr (2 ^ d)" if "2 ^ (d + 3) \<le> sz" "sz < 2 ^ (d + 4)" "4 \<le> d" "d \<le> 12" for d
  proof -
    have "(2::nat) ^ (d + 4) \<le> 2 ^ 16" using that(4) by (intro power_increasing) simp_all
    moreover have "(2::nat) ^ 7 \<le> 2 ^ (d + 3)" using that(3) by (intro power_increasing) simp_all
    ultimately have s: "128 \<le> sz" "sz < 65536" using that(1,2) by simp_all
    have "sz < 2 ^ Suc (d + 3)" using that(2) by (simp add: power_add)
    then have "LgFloor sz = d + 3" using that(1) s by (intro LgFloor_eq) simp_all
    then have "2 ^ LgFloor sz div 8 = (2::nat) ^ d" by (simp add: power_add)
    moreover have "(16::nat) \<le> 2 ^ d" "(2::nat) ^ d \<le> 8192"
      using power_increasing[OF that(3), of "2::nat"] power_increasing[OF that(4), of "2::nat"] by simp_all
    ultimately show ?thesis using s pow2_and[of d] by (simp add: ev)
  qed
  have big: "AlignmentForSize sz = Inr 8192" if "65536 \<le> sz"
  proof (cases "sz \<le> kMaxSize")
    case True
    then have "(2::nat) ^ 16 < 2 ^ Suc (LgFloor sz)" using LgFloor_bounds(2)[of sz] that by simp
    then have "16 \<le> LgFloor sz" using power_less_imp_less_exp[of "2::nat" 16 "Suc (LgFloor sz)"] by simp
    then have "(2::nat) ^ 16 \<le> 2 ^ LgFloor sz" by (rule power_increasing) simp
    then have "8192 \<le> 2 ^ LgFloor sz div (8::nat)" by simp
    then show ?thesis using that True pow2_and[of 13] by (simp add: ev)
  qed (use pow2_and[of 13] in \<open>simp add: ev\<close>)
  consider "sz < 16" | "16 \<le> sz" "sz < 128" | "128 \<le> sz" "sz < 256" | "256 \<le> sz" "sz < 512"
    | "512 \<le> sz" "sz < 1024" | "1024 \<le> sz" "sz < 2048" | "2048 \<le> sz" "sz < 4096"
    | "4096 \<le> sz" "sz < 8192" | "8192 \<le> sz" "sz < 16384" | "16384 \<le> sz" "sz < 32768"
    | "32768 \<le> sz" "sz < 65536" | "65536 \<le> sz" by (meson not_le)
  then show ?thesis
  proof cases
    case 1 then show ?thesis using pow2_and[of 3] by (simp add: ev)
  next
    case 2 then show ?thesis using pow2_and[of 4] by (simp add: ev)
  next
    case 3 then show ?thesis using mid[of 4] by simp
  next
    case 4 then show ?thesis using mid[of 5] by simp
  next
    case 5 then show ?thesis using mid[of 6] by simp
  next
    case 6 then show ?thesis using mid[of 7] by simp
  next
    case 7 then show ?thesis using mid[of 8] by simp
  next
    case 8 then show ?thesis using mid[of 9] by simp
  next
    case 9 then show ?thesis using mid[of 10] by simp
  next
    case 10 then show ?thesis using mid[of 11] by simp
  next
    case 11 then show ?thesis using mid[of 12] by simp
  next
    case 12 then show ?thesis using big by simp
  qed
qed

lemma span_bytes_numeral:
  "span_bytes (numeral k) sz blocks psize =
     bindR (add_pages sz ((psize + kPageSize) mod 2 ^ 64)) (\<lambda>psize.
       if int (psize div sz) < to_size_t blocks
       then span_bytes (pred_numeral k) sz blocks psize else Inr psize)"
  unfolding numeral_eq_Suc[of k] by (rule span_bytes.simps(2))

lemmas class_eval = class_loop.simps AlignmentForSize_table add_size_def span_bytes_numeral add_pages.simps
  NumMoveSize_def to_size_t_def signed_divide_int_def bindR_def Let_def

fun upds :: "nat \<Rightarrow> 'a list \<Rightarrow> (nat \<Rightarrow> 'a) \<Rightarrow> nat \<Rightarrow> 'a" where
  "upds k [] f = f"
| "upds k (x # xs) f = upds (k + 1) xs (f(k := x))"

lemma upds_nth: "upds k xs f c = (if k \<le> c \<and> c < k + length xs then xs ! (c - k) else f c)"
  by (induction xs arbitrary: k f) (auto simp: nth_Cons' le_Suc_eq)

definition size_table :: "nat list" where
  "size_table = [8, 16, 32, 48, 64, 80, 96, 112, 128, 144, 160, 176, 192, 208, 224, 240, 256, 288, 320, 352, 384, 416, 448,
      480, 512, 576, 640, 704, 768, 832, 896, 960, 1024, 1152, 1280, 1408, 1536, 1664, 1792, 1920, 2048, 2304, 2560,
      2816, 3072, 3328, 3584, 3840, 4096, 4608, 5120, 5632, 6144, 6656, 7168, 7680, 8192, 9216, 10240, 11264, 12288,
      13312, 14336, 15360, 16384, 18432, 20480, 22528, 24576, 28672, 32768, 36864, 40960, 49152, 65536, 81920,
      131072, 262144, 270336, 278528, 286720, 294912, 303104, 311296, 319488, 327680, 335872, 344064, 352256,
      360448, 368640, 376832, 385024, 393216, 401408, 409600, 417792, 425984, 434176, 442368, 450560, 458752,
      466944, 475136, 483328, 491520, 499712, 507904, 516096, 524288]"

definition pages_table :: "nat list" where
  "pages_table = [32, 32, 32, 32, 32, 32, 32, 32, 32, 32, 32, 32, 32, 32, 32, 32, 32, 32, 32, 32, 32, 32, 32, 32, 32, 32, 32,
      32, 32, 32, 32, 32, 32, 32, 32, 32, 32, 32, 32, 32, 32, 32, 32, 32, 32, 32, 32, 32, 32, 32, 32, 32, 32, 32,
      32, 32, 32, 32, 32, 32, 32, 32, 32, 32, 32, 32, 32, 32, 32, 32, 32, 32, 32, 32, 32, 32, 32, 32, 33, 34, 35,
      36, 37, 38, 39, 40, 41, 42, 43, 44, 45, 46, 47, 48, 49, 50, 51, 52, 53, 54, 55, 56, 57, 58, 59, 60, 61, 62,
      63, 64]"

lemma class_loop_run: "class_loop 64 32768 8 (1, f, g) = Inr (111, upds 1 size_table f, upds 1 pages_table g)"
  unfolding size_table_def pages_table_def by (simp add: class_eval del: One_nat_def cong: if_weak_cong)

lemma size_table_facts:
  "sorted_wrt (<) (0 # size_table)" "length size_table = 110" "size_table ! 109 = kMaxSize"
  "list_all (\<lambda>s. 8 dvd s \<and> (s \<le> 1024 \<or> 128 dvd s)) size_table"
  "list_all (\<lambda>s. case AlignmentForSize s of Inr a \<Rightarrow> a dvd s | _ \<Rightarrow> False) size_table"
  unfolding size_table_def
  by (simp_all add: sorted_wrt2 sorted_wrt1 AlignmentForSize_table del: sorted_wrt.simps)

lemma pages_table_facts:
  "length pages_table = 110" "list_all (\<lambda>p. 32 \<le> p \<and> p \<le> 64) pages_table"
  "list_all2 (\<lambda>s p. s \<le> p * 8192 \<and> p * 8192 div s < 2 ^ 16) size_table pages_table"
  unfolding size_table_def pages_table_def by simp_all

declare size_consts [simp del]

subsection \<open>The class table and the index\<close>

lemma span_bytes_mono: "span_bytes fuel sz b p = Inr q \<Longrightarrow> fuel \<le> fuel' \<Longrightarrow> span_bytes fuel' sz b p = Inr q"
proof (induction fuel arbitrary: fuel' p)
  case (Suc fuel)
  then obtain f' where "fuel' = Suc f'" by (metis Suc_le_D)
  then have f': "fuel' = Suc f'" "fuel \<le> f'" using Suc.prems(2) by simp_all
  let ?a = "add_pages sz ((p + kPageSize) mod 2 ^ 64)"
  show ?case
  proof (cases ?a)
    case (Inr q')
    then show ?thesis
      using Suc.prems(1) Suc.IH[OF _ f'(2), of q'] unfolding f'(1) span_bytes.simps bindR_def Inr
      by (cases "int (q' div sz) < to_size_t b") simp_all
  qed (use Suc.prems(1) in \<open>simp add: bindR_def\<close>)
qed simp

lemma add_size_mono: "add_size fuel flag sz t = Inr u \<Longrightarrow> fuel \<le> fuel' \<Longrightarrow> add_size fuel' flag sz t = Inr u"
proof -
  assume a: "add_size fuel flag sz t = Inr u" "fuel \<le> fuel'"
  obtain q where q: "span_bytes fuel sz (NumMoveSize flag sz sdiv 4) 0 = Inr q"
    using a(1) unfolding add_size_def bindR_def by (cases t; cases "span_bytes fuel sz (NumMoveSize flag sz sdiv 4) 0") simp_all
  show ?thesis using a(1) unfolding add_size_def bindR_def q span_bytes_mono[OF q a(2)] .
qed

lemma class_loop_mono:
  "class_loop fuel flag sz t = Inr u \<Longrightarrow> fuel \<le> fuel' \<Longrightarrow> class_loop fuel' flag sz t = Inr u"
proof (induction fuel flag sz t rule: class_loop.induct)
  case (1 fuel flag sz t)
  show ?case
  proof (cases "kMaxSize < sz")
    case True
    then show ?thesis using "1.prems"(1) by (simp add: class_loop.simps)
  next
    case False
    obtain a v where av: "AlignmentForSize sz = Inr a" "sz mod a = 0" "add_size fuel flag sz t = Inr v"
      "class_loop fuel flag (sz + a) v = Inr u"
      using "1.prems"(1) False by (subst (asm) class_loop.simps) (auto split: sum.splits if_splits)
    then have "class_loop fuel' flag (sz + a) v = Inr u" using "1.IH"[OF False av(1) _ av(3,4) "1.prems"(2)] by simp
    then show ?thesis using av add_size_mono[OF av(3) "1.prems"(2)] False
      by (subst class_loop.simps) simp
  qed
qed

lemma NumMoveSize_flag:
  assumes "8192 \<le> flag" and "8 \<le> sz" shows "NumMoveSize flag sz = NumMoveSize 32768 sz"
proof -
  have "64 * 1024 div sz \<le> 64 * 1024 div 8" using assms(2) by (intro div_le_mono2) simp_all
  then have "int (64 * 1024 div sz) \<le> 8192" by simp
  then show ?thesis using assms(1) unfolding NumMoveSize_def Let_def by auto
qed

lemma class_loop_flag:
  "8192 \<le> flag \<Longrightarrow> 8 \<le> sz \<Longrightarrow> class_loop fuel flag sz t = class_loop fuel 32768 sz t"
proof (induction fuel flag sz t rule: class_loop.induct)
  case (1 fuel flag sz t)
  have "add_size fuel flag sz t = add_size fuel 32768 sz t"
    unfolding add_size_def NumMoveSize_flag[OF "1.prems"] ..
  moreover have "class_loop fuel flag (sz + a) v = class_loop fuel 32768 (sz + a) v"
    if "\<not> kMaxSize < sz" "AlignmentForSize sz = Inr a" "\<not> sz mod a \<noteq> 0" "add_size fuel flag sz t = Inr v" for a v
    using "1.IH"[OF that] "1.prems" by simp
  ultimately show ?case
    by (subst (1 2) class_loop.simps) (auto split: sum.splits simp del: size_consts)
qed

lemma class_table:
  assumes "64 \<le> fuel" and "8192 \<le> flag"
  shows "class_loop fuel flag kAlignment (1, f, g) = Inr (kNumClasses, upds 1 size_table f, upds 1 pages_table g)"
  using class_loop_mono[OF class_loop_run assms(1)] class_loop_flag[OF assms(2), of 8] by (simp add: size_consts)

text \<open>The largest size that shares an entry of \<^verbatim>\<open>class_array_\<close>.\<close>

definition bucket_top :: "nat \<Rightarrow> nat" where
  "bucket_top i = (if i \<le> 128 then 8 * i else 128 * (i - 120))"

lemma bucket_top_ge: "s \<le> bucket_top (ClassIndex s)"
  by (simp add: bucket_top_def ClassIndex_def size_consts) linarith

lemma ClassIndex_top: "ClassIndex (bucket_top i) = i"
  by (simp add: bucket_top_def ClassIndex_def size_consts) linarith

lemma bucket_top_mono: "i \<le> j \<Longrightarrow> bucket_top i \<le> bucket_top j"
  by (simp add: bucket_top_def) linarith

lemma ClassIndex_mono: "s \<le> t \<Longrightarrow> ClassIndex s \<le> ClassIndex t"
  by (auto simp: size_consts ClassIndex_def div_le_mono)

text \<open>A class size is the top of its bucket, so no bucket crosses a class boundary.\<close>

lemma top_ClassIndex: "8 dvd s \<Longrightarrow> s \<le> 1024 \<or> 128 dvd s \<Longrightarrow> bucket_top (ClassIndex s) = s"
  by (auto simp: size_consts bucket_top_def ClassIndex_def elim!: dvdE)

lemma fill_class_other:
  "(\<And>t. s \<le> t \<Longrightarrow> t \<le> mx \<Longrightarrow> ClassIndex t \<noteq> i) \<Longrightarrow> fill_class c mx s arr i = arr i"
proof (induction c mx s arr rule: fill_class.induct)
  case (1 c mx s arr)
  show ?case
  proof (cases "s \<le> mx")
    case True
    then have "fill_class c mx (s + kAlignment) (arr(ClassIndex s := c mod 256)) i = (arr(ClassIndex s := c mod 256)) i"
      using "1.prems" by (intro "1.IH") auto
    then show ?thesis using True "1.prems"[of s] by (subst fill_class.simps) auto
  qed (simp add: fill_class.simps)
qed

lemma fill_class_keeps: "arr i = c mod 256 \<Longrightarrow> fill_class c mx s arr i = c mod 256"
proof (induction c mx s arr rule: fill_class.induct)
  case (1 c mx s arr)
  show ?case
  proof (cases "s \<le> mx")
    case True
    then have "fill_class c mx (s + kAlignment) (arr(ClassIndex s := c mod 256)) i = c mod 256"
      using "1.prems" by (intro "1.IH") auto
    then show ?thesis using True by (subst fill_class.simps) simp
  qed (use "1.prems" in \<open>simp add: fill_class.simps\<close>)
qed

lemma fill_class_hit:
  "s \<le> t \<Longrightarrow> t \<le> mx \<Longrightarrow> 8 dvd t - s \<Longrightarrow> fill_class c mx s arr (ClassIndex t) = c mod 256"
proof (induction c mx s arr rule: fill_class.induct)
  case (1 c mx s arr)
  show ?case
  proof (cases "s + 8 \<le> t")
    case True
    then have "8 dvd t - (s + 8)" using 1(4) by (metis diff_diff_left dvd_diff_nat dvd_refl)
    then have "fill_class c mx (s + kAlignment) (arr(ClassIndex s := c mod 256)) (ClassIndex t) = c mod 256"
      using 1 True by (intro "1.IH") (simp_all add: kAlignment_def)
    then show ?thesis using "1.prems" by (subst fill_class.simps) simp
  next
    case False
    moreover have "t - s < 8" using False 1(2) by simp
    then have "t = s" using 1(2,4) by (metis dvd_imp_le le_add_diff_inverse add_0_right not_gr0 not_le)
    ultimately show ?thesis using 1(3) fill_class_keeps[of "arr(ClassIndex s := c mod 256)" "ClassIndex s" c]
      by (subst fill_class.simps) simp
  qed
qed

text \<open>Sizes of the classes from 1 on, and where the filling of class \<open>Suc i\<close> starts.\<close>

definition classes_ok :: "nat list \<Rightarrow> bool" where
  "classes_ok szs \<longleftrightarrow> sorted_wrt (<) (0 # szs) \<and> length szs = kNumClasses - 1 \<and>
     list_all (\<lambda>s. 8 dvd s \<and> (s \<le> 1024 \<or> 128 dvd s)) szs"

definition fill_start :: "nat list \<Rightarrow> nat \<Rightarrow> nat" where
  "fill_start szs i = (if i = 0 then 0 else szs ! (i - 1) + kAlignment)"

definition class_bucket :: "nat list \<Rightarrow> nat \<Rightarrow> nat \<Rightarrow> bool" where
  "class_bucket szs k j \<longleftrightarrow> k < length szs \<and> (k = 0 \<or> szs ! (k - 1) < bucket_top j) \<and> bucket_top j \<le> szs ! k"

lemma fill_class_bucket:
  assumes "classes_ok szs" and "class_bucket szs i j"
  shows "fill_class c (szs ! i) (fill_start szs i) arr j = c mod 256"
proof -
  have 8: "8 dvd bucket_top j" by (simp add: bucket_top_def)
  moreover have "0 < i \<longrightarrow> 8 dvd szs ! (i - 1)" using assms by (auto simp: classes_ok_def class_bucket_def list_all_length)
  ultimately have "8 dvd bucket_top j - fill_start szs i" "fill_start szs i \<le> bucket_top j"
    using assms(2) by (auto simp: class_bucket_def fill_start_def kAlignment_def elim!: dvdE)
  then show ?thesis
    using fill_class_hit[of _ "bucket_top j" "szs ! i" c arr] assms(2) by (simp add: ClassIndex_top class_bucket_def)
qed

lemma fill_class_below: "bucket_top j < s \<Longrightarrow> fill_class c mx s arr j = arr j"
  by (rule fill_class_other) (metis bucket_top_ge leD le_less_trans less_le_trans)

lemma fill_classes_spec:
  assumes ok: "classes_ok szs" and ts: "\<forall>k<length szs. ts (Suc k) = szs ! k" and "i \<le> length szs"
  shows "(0 < i \<longrightarrow> bucket_top j \<le> szs ! (i - 1) \<longrightarrow> fill_classes ts (Suc i) (fill_start szs i) arr j = arr j) \<and>
    (\<forall>k. i \<le> k \<longrightarrow> class_bucket szs k j \<longrightarrow> fill_classes ts (Suc i) (fill_start szs i) arr j = Suc k mod 256)"
  using assms(3)
proof (induction "length szs - i" arbitrary: i arr)
  case 0
  then have "\<not> Suc i < kNumClasses" using ok by (simp add: classes_ok_def)
  then show ?case using 0 by (simp add: fill_classes.simps class_bucket_def)
next
  case (Suc n)
  then have i: "i < length szs" by simp
  let ?arr = "fill_class (Suc i) (szs ! i) (fill_start szs i) arr"
  have "Suc i < kNumClasses" using i ok by (simp add: classes_ok_def)
  moreover have "fill_start szs (Suc i) = szs ! i + kAlignment" by (simp add: fill_start_def)
  ultimately have un: "fill_classes ts (Suc i) (fill_start szs i) arr = fill_classes ts (Suc (Suc i)) (fill_start szs (Suc i)) ?arr"
    using ts i by (subst fill_classes.simps) simp
  note IH = Suc.hyps(1)[of "Suc i" ?arr]
  have next': "bucket_top j \<le> szs ! i \<Longrightarrow> fill_classes ts (Suc i) (fill_start szs i) arr j = ?arr j"
    unfolding un using IH Suc.hyps(2) i by simp
  have lt: "0 < i \<Longrightarrow> szs ! (i - 1) < szs ! i"
    using ok i unfolding classes_ok_def by (auto simp: sorted_wrt_nth_less)
  have keep: "0 < i \<Longrightarrow> bucket_top j \<le> szs ! (i - 1) \<Longrightarrow> ?arr j = arr j"
    by (rule fill_class_below) (simp add: fill_start_def kAlignment_def)
  show ?case
  proof (intro conjI impI allI)
    assume "0 < i" "bucket_top j \<le> szs ! (i - 1)"
    then show "fill_classes ts (Suc i) (fill_start szs i) arr j = arr j" using next' keep lt by simp
  next
    fix k assume k: "i \<le> k" "class_bucket szs k j"
    show "fill_classes ts (Suc i) (fill_start szs i) arr j = Suc k mod 256"
    proof (cases "i = k")
      case True
      then show ?thesis using next' fill_class_bucket[OF ok] k(2) by (simp add: class_bucket_def)
    next
      case False
      then show ?thesis unfolding un using IH Suc.hyps(2) i k by simp
    qed
  qed
qed

text \<open>Every size has a bucket of exactly one class, the smallest one that holds it.\<close>

lemma class_bucket_ex:
  assumes ok: "classes_ok szs" and s: "s \<le> last szs"
  obtains k where "class_bucket szs k (ClassIndex s)" and "s \<le> szs ! k" and "\<forall>k'<k. szs ! k' < s"
proof -
  let ?t = "bucket_top (ClassIndex s)"
  have top: "bucket_top (ClassIndex (szs ! k)) = szs ! k" if "k < length szs" for k
    using ok that by (intro top_ClassIndex) (auto simp: classes_ok_def list_all_length)
  have le: "?t \<le> szs ! k" if "k < length szs" "s \<le> szs ! k" for k
    using bucket_top_mono[OF ClassIndex_mono[OF that(2)]] top[OF that(1)] by simp
  have ne: "szs \<noteq> []" using ok by (auto simp: classes_ok_def kNumClasses_def kBaseClasses_def)
  then have "?t \<le> szs ! (length szs - 1)" using s le by (simp add: last_conv_nth)
  then obtain k where k: "k < length szs" "?t \<le> szs ! k" "\<forall>k'<k. \<not> ?t \<le> szs ! k'"
    using ex_least_nat_le[of "\<lambda>k. ?t \<le> szs ! k" "length szs - 1"] ne
    by (metis Suc_pred' le_imp_less_Suc length_greater_0_conv)
  have "\<forall>k'<k. szs ! k' < s" using k le by (meson less_trans not_le)
  moreover have "class_bucket szs k (ClassIndex s)" using k by (cases k) (auto simp: class_bucket_def not_le)
  moreover have "s \<le> szs ! k" using k(2) bucket_top_ge[of s] by simp
  ultimately show thesis using that by blast
qed

text \<open>What a size map promises: every size gets the smallest class that holds it.\<close>

definition size_class_ok :: "SizeMap \<Rightarrow> nat \<Rightarrow> bool" where
  "size_class_ok m s \<longleftrightarrow> (let c = SizeClass m s in
     1 \<le> c \<and> c < kNumClasses \<and> s \<le> class_to_size m c \<and> (\<forall>d. 1 \<le> d \<and> d < c \<longrightarrow> class_to_size m d < s))"

lemma classes_ok_table: "classes_ok size_table"
  using size_table_facts by (simp add: classes_ok_def size_consts)

lemma last_table: "last size_table = kMaxSize"
  using size_table_facts(2,3) last_conv_nth[of size_table] by fastforce

lemma size_class_filled:
  assumes "class_to_size m = upds 1 size_table f" and "class_array m = fill_classes (class_to_size m) 1 0 arr"
    and "s \<le> kMaxSize"
  shows "size_class_ok m s"
proof -
  have ts: "\<forall>k<length size_table. class_to_size m (Suc k) = size_table ! k" by (simp add: assms(1) upds_nth)
  obtain k where k: "class_bucket size_table k (ClassIndex s)" "s \<le> size_table ! k" "\<forall>k'<k. size_table ! k' < s"
    using class_bucket_ex[OF classes_ok_table] assms(3) last_table by metis
  then have kl: "k < 110" using size_table_facts(2) by (simp add: class_bucket_def)
  have "fill_classes (class_to_size m) (Suc 0) (fill_start size_table 0) arr (ClassIndex s) = Suc k mod 256"
    using fill_classes_spec[OF classes_ok_table ts, of 0] k(1) by blast
  then have "SizeClass m s = Suc k" using kl by (simp add: SizeClass_def assms(2) fill_start_def)
  moreover have "class_to_size m d < s" if "1 \<le> d" "d < Suc k" for d
    using that k(3) kl size_table_facts(2) by (simp add: assms(1) upds_nth)
  ultimately show ?thesis using k(2) kl ts size_table_facts(2)
    by (simp add: size_class_ok_def Let_def kNumClasses_def kBaseClasses_def)
qed

lemma check_sizes_ok:
  assumes ok: "\<forall>s\<le>kMaxSize. size_class_ok m s" and pos: "\<forall>c. 1 \<le> c \<and> c < kNumClasses \<longrightarrow> 0 < class_to_size m c"
  shows "check_sizes m s = Inr ()"
proof (induction "kMaxSize + 1 - s" arbitrary: s rule: less_induct)
  case less
  show ?case
  proof (cases "s \<le> kMaxSize")
    case True
    let ?c = "SizeClass m s" and ?n = "if s \<le> kMaxSmallSize then s + 8 else s + 128"
    have c: "1 \<le> ?c" "?c < kNumClasses" "s \<le> class_to_size m ?c"
      "1 < ?c \<Longrightarrow> class_to_size m (?c - 1) < s" "0 < class_to_size m ?c"
      using ok True pos by (auto simp: size_class_ok_def Let_def)
    have "check_sizes m ?n = Inr ()" using True by (intro less) auto
    then show ?thesis using c True by (subst check_sizes.simps) (auto simp: Let_def)
  qed (simp add: check_sizes.simps)
qed

text \<open>The whole initialisation, with the class tables it ends with.\<close>

lemma Init_run:
  assumes "64 \<le> fuel" and "8192 \<le> flag"
  obtains m where "SizeMap_Init fuel flag m0 = Inr m" and "\<forall>s\<le>kMaxSize. size_class_ok m s"
    and "class_to_size m = upds 1 size_table (class_to_size m0)"
    and "class_to_pages m = upds 1 pages_table (class_to_pages m0)"
    and "\<forall>c. 1 \<le> c \<and> c < kNumClasses \<longrightarrow> num_objects_to_move m c = NumMoveSize flag (class_to_size m c)"
proof -
  let ?ts = "upds 1 size_table (class_to_size m0)"
  let ?m = "m0\<lparr>class_to_size := ?ts, class_to_pages := upds 1 pages_table (class_to_pages m0),
    class_array := fill_classes ?ts 1 0 (class_array m0)\<rparr>"
  let ?m' = "?m\<lparr>num_objects_to_move := (\<lambda>cl. if 1 \<le> cl \<and> cl < kNumClasses then NumMoveSize flag (?ts cl)
                        else num_objects_to_move m0 cl)\<rparr>"
  have ok: "\<forall>s\<le>kMaxSize. size_class_ok ?m s" using size_class_filled[of ?m] by simp
  have "0 < size_table ! k" if "k < 110" for k
    using size_table_facts(1,2) that by (auto simp: in_set_conv_nth)
  then have "0 < ?ts c" if "1 \<le> c" "c < kNumClasses" for c
    using that size_table_facts(2) by (simp add: upds_nth size_consts)
  then have "check_sizes ?m 0 = Inr ()" by (intro check_sizes_ok[OF ok]) simp
  moreover have "ClassIndex 0 = 0" "ClassIndex kMaxSize < kClassArraySize" "kAlignment \<le> kMinAlign"
    by (simp_all add: ClassIndex_def size_consts)
  ultimately have "SizeMap_Init fuel flag m0 = Inr ?m'"
    unfolding SizeMap_Init_def class_table[OF assms] bindR_def by (simp add: Let_def del: One_nat_def)
  moreover have "\<forall>s\<le>kMaxSize. size_class_ok ?m' s" using ok by (simp add: size_class_ok_def SizeClass_def)
  ultimately show thesis using that by simp
qed

subsection \<open>The properties of the size map\<close>

text \<open>C20: with the default number of objects to transfer, or any above \<open>8192\<close>, \<^verbatim>\<open>SizeMap::Init\<close> returns with all its
  checks passed; afterwards \<^verbatim>\<open>SizeClass\<close> maps every size up to \<^verbatim>\<open>kMaxSize\<close> to the smallest class that holds it.\<close>

theorem SizeMap_Init_best_fit:
  assumes "64 \<le> fuel" and "8192 \<le> flag"
  shows "\<exists>m. SizeMap_Init fuel flag m0 = Inr m \<and>
    (\<forall>s\<le>kMaxSize. let c = SizeClass m s in 1 \<le> c \<and> c < kNumClasses \<and> s \<le> class_to_size m c \<and>
       (\<forall>d. 1 \<le> d \<and> d < c \<longrightarrow> class_to_size m d < s))"
  by (rule Init_run[OF assms, of m0]) (auto simp: size_class_ok_def)

definition blank_SizeMap :: SizeMap where
  "blank_SizeMap = \<lparr>num_objects_to_move = (\<lambda>_. 0), class_array = (\<lambda>_. 0), class_to_size = (\<lambda>_. 0), class_to_pages = (\<lambda>_. 0)\<rparr>"

theorem SizeMap_Init_best_fit_witness:
  "\<exists>m. SizeMap_Init 64 kDefaultTransferNumObjecs blank_SizeMap = Inr m \<and> 100 \<le> class_to_size m (SizeClass m 100)"
proof -
  have "(100::nat) \<le> kMaxSize" "8192 \<le> kDefaultTransferNumObjecs"
    by (simp_all add: kMaxSize_def kDefaultTransferNumObjecs_def)
  then show ?thesis using SizeMap_Init_best_fit[of 64 kDefaultTransferNumObjecs blank_SizeMap] by (auto simp: Let_def)
qed

lemma Init_classes:
  assumes "64 \<le> fuel" and "8192 \<le> flag" and "SizeMap_Init fuel flag m0 = Inr m" and "1 \<le> c" and "c < kNumClasses"
  shows "0 < class_to_size m c \<and> class_to_size m c \<le> kMaxSize \<and>
    (\<exists>a. AlignmentForSize (class_to_size m c) = Inr a \<and> a dvd class_to_size m c) \<and>
    32 \<le> class_to_pages m c \<and> class_to_pages m c \<le> 64 \<and>
    class_to_size m c \<le> class_to_pages m c * kPageSize \<and>
    class_to_pages m c * kPageSize div class_to_size m c < 2 ^ 16 \<and>
    2 \<le> num_objects_to_move m c"
proof -
  obtain k where k: "c = Suc k" "k < 110" using assms(4,5) by (cases c) (auto simp: size_consts)
  obtain m' where m': "SizeMap_Init fuel flag m0 = Inr m'" "class_to_size m' = upds 1 size_table (class_to_size m0)"
    "class_to_pages m' = upds 1 pages_table (class_to_pages m0)"
    "num_objects_to_move m' c = NumMoveSize flag (class_to_size m' c)"
    using Init_run[OF assms(1,2), of m0] assms(4,5) by metis
  then have "m' = m" using assms(3) by simp
  moreover have s: "class_to_size m' c = size_table ! k" "class_to_pages m' c = pages_table ! k"
    using k size_table_facts(2) pages_table_facts(1) by (simp_all add: m' upds_nth)
  moreover have "0 < size_table ! k" using size_table_facts(1,2) k by (auto simp: in_set_conv_nth)
  moreover have "size_table ! k \<le> kMaxSize"
    using size_table_facts(1,2,3) k sorted_wrt_nth_less[of "(<)" size_table k 109] by (cases "k = 109") auto
  moreover have "\<exists>a. AlignmentForSize (size_table ! k) = Inr a \<and> a dvd size_table ! k"
    using size_table_facts(2,5) k by (cases "AlignmentForSize (size_table ! k)") (auto simp: list_all_length dest!: spec[of _ k])
  moreover have "32 \<le> pages_table ! k" "pages_table ! k \<le> 64" "size_table ! k \<le> pages_table ! k * 8192"
    "pages_table ! k * 8192 div size_table ! k < 2 ^ 16"
    using pages_table_facts size_table_facts(2) k by (auto simp: list_all_length list_all2_conv_all_nth)
  moreover have "2 \<le> NumMoveSize flag (size_table ! k)"
    using assms(2) \<open>0 < size_table ! k\<close> by (auto simp: NumMoveSize_def Let_def)
  ultimately show ?thesis using m'(4) by (simp add: kPageSize_def kPageShift_def)
qed

text \<open>C21: after \<^verbatim>\<open>SizeMap::Init\<close> with a transfer size of at least 8192 objects, as the default of 32768 is, every class has a positive size that is a multiple of its alignment, so that the objects
  of a span never share a metadata slot; its spans hold at least one object and fewer than \<open>2 ^ 16\<close>, so that
  the 16-bit reference count of a span cannot wrap; and at least two objects move at a time.\<close>

theorem SizeMap_Init_classes:
  assumes "64 \<le> fuel" and "8192 \<le> flag" and "SizeMap_Init fuel flag m0 = Inr m" and "1 \<le> c" and "c < kNumClasses"
  shows "0 < class_to_size m c \<and> class_to_size m c \<le> kMaxSize \<and>
    (\<exists>a. AlignmentForSize (class_to_size m c) = Inr a \<and> a dvd class_to_size m c) \<and>
    32 \<le> class_to_pages m c \<and> class_to_pages m c \<le> 64 \<and>
    class_to_size m c \<le> class_to_pages m c * kPageSize \<and>
    class_to_pages m c * kPageSize div class_to_size m c < 2 ^ 16 \<and>
    2 \<le> num_objects_to_move m c"
  by (rule Init_classes[OF assms])

theorem SizeMap_Init_classes_witness:
  "\<exists>m. SizeMap_Init 64 kDefaultTransferNumObjecs blank_SizeMap = Inr m \<and> 0 < class_to_size m 7 \<and>
     class_to_pages m 7 * kPageSize div class_to_size m 7 < 2 ^ 16"
proof -
  have f: "8192 \<le> kDefaultTransferNumObjecs" by (simp add: kDefaultTransferNumObjecs_def)
  obtain m where m: "SizeMap_Init 64 kDefaultTransferNumObjecs blank_SizeMap = Inr m"
    by (rule Init_run[OF order_refl f, of blank_SizeMap])
  then show ?thesis using SizeMap_Init_classes[OF order_refl f m, of 7] by (auto simp: size_consts)
qed

end
