(* ===== verification/Span.thy ===== *)
theory Span
  imports Prelude
begin

section \<open>Linked lists of objects and of spans (linked_list.h, span.h, span.cc)\<close>

text \<open>
  The intrusive lists of the allocator, on an explicit store.  A free object holds the pointer to
  the next one in its first word: the store \<open>nat \<Rightarrow> nat\<close> gives that word by address, 0 is the null
  pointer, and following it is the fault \<open>Segv\<close>.  The spans carry a next and a previous pointer and
  form circular lists around a header.  The locales state the abstract sequences that the
  free lists of the caches and of the page heap rely on; their interpretations show that the
  pointer code implements them.
\<close>

type_synonym store = "nat \<Rightarrow> nat"

subsection \<open>linked_list.h\<close>

definition SLL_Next :: "nat \<Rightarrow> store \<Rightarrow> nat res" where
  "SLL_Next t m = (if t = 0 then Inl Segv else Inr (m t))"

definition SLL_SetNext :: "nat \<Rightarrow> nat \<Rightarrow> store \<Rightarrow> store res" where
  "SLL_SetNext t n m = (if t = 0 then Inl Segv else Inr (m(t := n)))"

definition SLL_Push :: "nat \<Rightarrow> nat \<times> store \<Rightarrow> (nat \<times> store) res" where
  "SLL_Push element hm = (case hm of (list, m) \<Rightarrow> bindR (SLL_SetNext element list m) (\<lambda>m. Inr (element, m)))"

definition SLL_Pop :: "nat \<times> store \<Rightarrow> (nat \<times> nat \<times> store) res" where
  "SLL_Pop hm = (case hm of (list, m) \<Rightarrow> bindR (SLL_Next list m) (\<lambda>next. Inr (list, next, m)))"

text \<open>The loop of \<^verbatim>\<open>SLL_PopRange\<close>: \<open>n\<close> steps forward.\<close>

fun SLL_walk :: "nat \<Rightarrow> nat \<Rightarrow> store \<Rightarrow> nat res" where
  "SLL_walk 0 tmp m = Inr tmp"
| "SLL_walk (Suc n) tmp m = bindR (SLL_Next tmp m) (\<lambda>tmp. SLL_walk n tmp m)"

definition SLL_PopRange :: "nat \<Rightarrow> nat \<times> store \<Rightarrow> (nat \<times> nat \<times> nat \<times> store) res" where
  "SLL_PopRange N hm =
     (case hm of (head, m) \<Rightarrow>
        if N = 0 then Inr (0, 0, head, m)
        else bindR (SLL_walk (N - 1) head m) (\<lambda>tmp.
          bindR (SLL_Next tmp m) (\<lambda>next.
            bindR (SLL_SetNext tmp 0 m) (\<lambda>m. Inr (head, tmp, next, m)))))"

definition SLL_PushRange :: "nat \<Rightarrow> nat \<Rightarrow> nat \<times> store \<Rightarrow> (nat \<times> store) res" where
  "SLL_PushRange start end_obj hm =
     (case hm of (head, m) \<Rightarrow>
        if start = 0 then Inr (head, m)
        else bindR (SLL_SetNext end_obj head m) (\<lambda>m. Inr (start, m)))"

fun SLL_Size :: "nat \<Rightarrow> nat \<Rightarrow> store \<Rightarrow> nat res" where
  "SLL_Size 0 head m = Inl Diverge"
| "SLL_Size (Suc fuel) head m =
     (if head = 0 then Inr 0
      else bindR (SLL_Next head m) (\<lambda>head. bindR (SLL_Size fuel head m) (\<lambda>n. Inr (Suc n))))"

subsection \<open>span.h, span.cc\<close>

datatype location = IN_USE | ON_NORMAL_FREELIST | ON_RETURNED_FREELIST

record span =
  start :: nat
  len :: nat
  objects :: nat
  refcount :: nat
  sizeclass :: nat
  location :: location
  sample :: bool

definition NewSpan :: "nat \<Rightarrow> nat \<Rightarrow> span" where
  "NewSpan p n = \<lparr>start = p, len = n, objects = 0, refcount = 0, sizeclass = 0, location = IN_USE, sample = False\<rparr>"

text \<open>The link fields \<^verbatim>\<open>next\<close> and \<^verbatim>\<open>prev\<close> of all spans.\<close>

record links =
  nxt :: "nat \<Rightarrow> nat"
  prv :: "nat \<Rightarrow> nat"

definition DLL_Init :: "nat \<Rightarrow> links \<Rightarrow> links" where
  "DLL_Init list h = h\<lparr>nxt := (nxt h)(list := list), prv := (prv h)(list := list)\<rparr>"

definition DLL_IsEmpty :: "nat \<Rightarrow> links \<Rightarrow> bool" where "DLL_IsEmpty list h \<longleftrightarrow> nxt h list = list"

definition DLL_Remove :: "nat \<Rightarrow> links \<Rightarrow> links res" where
  "DLL_Remove sp h =
     (if prv h sp = 0 then Inl Segv
      else
        let h = h\<lparr>nxt := (nxt h)(prv h sp := nxt h sp)\<rparr> in
        if nxt h sp = 0 then Inl Segv
        else
          let h = h\<lparr>prv := (prv h)(nxt h sp := prv h sp)\<rparr> in
          Inr (h\<lparr>prv := (prv h)(sp := 0), nxt := (nxt h)(sp := 0)\<rparr>))"

definition DLL_Prepend :: "nat \<Rightarrow> nat \<Rightarrow> links \<Rightarrow> links res" where
  "DLL_Prepend list sp h =
     (let h = h\<lparr>nxt := (nxt h)(sp := nxt h list)\<rparr>;
          h = h\<lparr>prv := (prv h)(sp := list)\<rparr>
      in if nxt h list = 0 then Inl Segv
         else let h = h\<lparr>prv := (prv h)(nxt h list := sp)\<rparr> in Inr (h\<lparr>nxt := (nxt h)(list := sp)\<rparr>))"

fun DLL_Length_loop :: "nat \<Rightarrow> nat \<Rightarrow> nat \<Rightarrow> links \<Rightarrow> nat \<Rightarrow> nat res" where
  "DLL_Length_loop 0 list s h result = Inl Diverge"
| "DLL_Length_loop (Suc fuel) list s h result =
     (if s = list then Inr result
      else if s = 0 then Inl Segv
      else DLL_Length_loop fuel list (nxt h s) h (result + 1))"

definition DLL_Length :: "nat \<Rightarrow> nat \<Rightarrow> links \<Rightarrow> nat res" where
  "DLL_Length fuel list h = DLL_Length_loop fuel list (nxt h list) h 0"

subsection \<open>What the clients rely on\<close>

text \<open>A stack of objects: \<open>lst m h xs\<close> says that the list with head \<open>h\<close> holds \<open>xs\<close>.\<close>

locale object_stack =
  fixes lst :: "'m \<Rightarrow> nat \<Rightarrow> nat list \<Rightarrow> bool"
    and push :: "nat \<Rightarrow> nat \<times> 'm \<Rightarrow> (nat \<times> 'm) res" and pop :: "nat \<times> 'm \<Rightarrow> (nat \<times> nat \<times> 'm) res"
  assumes lst_nonnull: "lst m h xs \<Longrightarrow> 0 \<notin> set xs"
    and push_lst: "lst m h xs \<Longrightarrow> x \<noteq> 0 \<Longrightarrow> x \<notin> set xs \<Longrightarrow> \<exists>h' m'. push x (h, m) = Inr (h', m') \<and> lst m' h' (x # xs)"
    and pop_lst: "lst m h (x # xs) \<Longrightarrow> \<exists>h' m'. pop (h, m) = Inr (x, h', m') \<and> lst m' h' xs"
begin

fun push_all :: "nat list \<Rightarrow> nat \<times> 'm \<Rightarrow> (nat \<times> 'm) res" where
  "push_all [] hm = Inr hm"
| "push_all (x # xs) hm = bindR (push x hm) (push_all xs)"

fun pop_n :: "nat \<Rightarrow> nat \<times> 'm \<Rightarrow> (nat list \<times> nat \<times> 'm) res" where
  "pop_n 0 hm = Inr ([], hm)"
| "pop_n (Suc n) hm = bindR (pop hm) (\<lambda>(x, hm). bindR (pop_n n hm) (\<lambda>(xs, hm). Inr (x # xs, hm)))"

lemma push_all_lst:
  "lst m h ys \<Longrightarrow> 0 \<notin> set xs \<Longrightarrow> distinct xs \<Longrightarrow> set xs \<inter> set ys = {} \<Longrightarrow>
     \<exists>h' m'. push_all xs (h, m) = Inr (h', m') \<and> lst m' h' (rev xs @ ys)"
proof (induction xs arbitrary: m h ys)
  case (Cons x xs)
  obtain h1 m1 where 1: "push x (h, m) = Inr (h1, m1)" "lst m1 h1 (x # ys)"
    using push_lst[OF Cons.prems(1), of x] Cons.prems by auto
  then show ?case using Cons.IH[OF 1(2)] Cons.prems by auto
qed auto

lemma pop_n_lst: "lst m h (xs @ ys) \<Longrightarrow> \<exists>h' m'. pop_n (length xs) (h, m) = Inr (xs, h', m') \<and> lst m' h' ys"
proof (induction xs arbitrary: m h)
  case (Cons x xs)
  then obtain h1 m1 where 1: "pop (h, m) = Inr (x, h1, m1)" "lst m1 h1 (xs @ ys)" using pop_lst by fastforce
  then show ?case using Cons.IH[OF 1(2)] by auto
qed auto

text \<open>Objects come back in the opposite order, and what was below them stays.\<close>

lemma push_pop:
  assumes "lst m h ys" and "0 \<notin> set xs" and "distinct xs" and "set xs \<inter> set ys = {}"
  shows "\<exists>hm h' m'. push_all xs (h, m) = Inr hm \<and> pop_n (length xs) hm = Inr (rev xs, h', m') \<and> lst m' h' ys"
  using push_all_lst[OF assms] pop_n_lst[of _ _ "rev xs" ys] by fastforce

end

text \<open>A family of sequences of spans, one per header.\<close>

locale span_lists =
  fixes seq :: "'h \<Rightarrow> nat \<Rightarrow> nat list \<Rightarrow> bool"
    and prepend :: "nat \<Rightarrow> nat \<Rightarrow> 'h \<Rightarrow> 'h res" and remove :: "nat \<Rightarrow> 'h \<Rightarrow> 'h res"
  assumes prepend_seq: "seq h l xs \<Longrightarrow> x \<noteq> 0 \<Longrightarrow> x \<notin> set (l # xs) \<Longrightarrow> \<exists>h'. prepend l x h = Inr h' \<and> seq h' l (x # xs) \<and>
      (\<forall>l' ys. seq h l' ys \<longrightarrow> set (l' # ys) \<inter> set (x # l # xs) = {} \<longrightarrow> seq h' l' ys)"
    and remove_seq: "seq h l (xs @ x # zs) \<Longrightarrow> \<exists>h'. remove x h = Inr h' \<and> seq h' l (xs @ zs) \<and>
      (\<forall>l' ys. seq h l' ys \<longrightarrow> set (l' # ys) \<inter> set (l # xs @ x # zs) = {} \<longrightarrow> seq h' l' ys)"
begin

text \<open>Moving a span from one list to the front of another, as the central lists do.\<close>

lemma move_seq:
  assumes "seq h l (xs @ x # zs)" and "seq h l' ys" and "set (l' # ys) \<inter> set (l # xs @ x # zs) = {}" and "x \<noteq> 0"
    and "x \<notin> set (l # xs @ zs)"
  shows "\<exists>h1 h2. remove x h = Inr h1 \<and> prepend l' x h1 = Inr h2 \<and> seq h2 l (xs @ zs) \<and> seq h2 l' (x # ys) \<and>
    (\<forall>k ws. seq h k ws \<longrightarrow> set (k # ws) \<inter> (set (l # xs @ x # zs) \<union> set (l' # ys)) = {} \<longrightarrow> seq h2 k ws)"
proof -
  obtain h1 where h1: "remove x h = Inr h1" "seq h1 l (xs @ zs)" "seq h1 l' ys"
    "\<forall>k ws. seq h k ws \<longrightarrow> set (k # ws) \<inter> set (l # xs @ x # zs) = {} \<longrightarrow> seq h1 k ws"
    using remove_seq[OF assms(1)] assms(2,3) by blast
  have "x \<notin> set (l' # ys)" using assms(3) by auto
  then obtain h2 where h2: "prepend l' x h1 = Inr h2" "seq h2 l' (x # ys)"
    "\<forall>k ws. seq h1 k ws \<longrightarrow> set (k # ws) \<inter> set (x # l' # ys) = {} \<longrightarrow> seq h2 k ws"
    using prepend_seq[OF h1(3) assms(4)] by blast
  have "set (l # xs @ zs) \<inter> set (x # l' # ys) = {}" using assms(3,5) by auto
  then have "seq h2 l (xs @ zs)" using h1(2) h2(3) by blast
  moreover have "seq h2 k ws" if "seq h k ws" "set (k # ws) \<inter> (set (l # xs @ x # zs) \<union> set (l' # ys)) = {}" for k ws
  proof -
    have "seq h1 k ws" using h1(4) that by blast
    moreover have "set (k # ws) \<inter> set (x # l' # ys) = {}" using that(2) by auto
    ultimately show ?thesis using h2(3) by blast
  qed
  ultimately show ?thesis using h1(1) h2(1,2) by blast
qed

end


subsection \<open>The object lists are stacks\<close>

fun sll :: "store \<Rightarrow> nat \<Rightarrow> nat list \<Rightarrow> bool" where
  "sll m h [] \<longleftrightarrow> h = 0"
| "sll m h (x # xs) \<longleftrightarrow> h = x \<and> x \<noteq> 0 \<and> sll m (m x) xs"

lemma sll_frame: "\<forall>x\<in>set xs. m' x = m x \<Longrightarrow> sll m' h xs = sll m h xs"
  by (induction xs arbitrary: h) auto

lemma sll_nonnull: "sll m h xs \<Longrightarrow> 0 \<notin> set xs"
  by (induction xs arbitrary: h) auto

lemma sll_head: "sll m h xs \<Longrightarrow> h = 0 \<longleftrightarrow> xs = []"
  by (cases xs) auto

lemma sll_unique: "sll m h xs \<Longrightarrow> sll m h ys \<Longrightarrow> xs = ys"
proof (induction xs arbitrary: h ys)
  case Nil
  then show ?case by (cases ys) auto
next
  case (Cons x xs)
  then show ?case by (cases ys) auto
qed

lemma sll_distinct: "sll m h xs \<Longrightarrow> distinct xs"
proof -
  have suffix: "sll m h (ys @ zs) \<Longrightarrow> zs \<noteq> [] \<Longrightarrow> sll m (hd zs) zs" for h ys zs
    by (induction ys arbitrary: h; cases zs) auto
  assume l: "sll m h xs"
  show ?thesis
  proof (rule ccontr)
    assume "\<not> distinct xs"
    then obtain as x bs cs where xs: "xs = as @ [x] @ bs @ [x] @ cs" using not_distinct_decomp by blast
    have "sll m x ([x] @ bs @ [x] @ cs)" using suffix[of h as "[x] @ bs @ [x] @ cs"] l xs by simp
    moreover have "sll m x ([x] @ cs)" using suffix[of h "as @ [x] @ bs" "[x] @ cs"] l xs by simp
    ultimately have "[x] @ bs @ [x] @ cs = [x] @ cs" by (rule sll_unique)
    then have "length ([x] @ bs @ [x] @ cs) = length ([x] @ cs)" by (rule arg_cong)
    then show False by simp
  qed
qed

text \<open>The end of a list can be re-pointed.\<close>

lemma sll_append:
  assumes "distinct xs" and "xs \<noteq> []"
  shows "sll m h (xs @ ys) \<longleftrightarrow> sll (m(last xs := 0)) h xs \<and> sll m (m (last xs)) ys"
  using assms
proof (induction xs arbitrary: h)
  case (Cons x xs)
  show ?case
  proof (cases "xs = []")
    case False
    then have "last xs \<noteq> x" using Cons.prems(1) by auto
    then show ?thesis using Cons.IH[of "m x"] Cons.prems(1) False by simp
  qed simp
qed simp

lemma SLL_Push_lst:
  assumes "sll m h xs" and "x \<noteq> 0" and "x \<notin> set xs" shows "SLL_Push x (h, m) = Inr (x, m(x := h)) \<and> sll (m(x := h)) x (x # xs)"
  using assms sll_frame[of xs "m(x := h)" m h] by (auto simp: SLL_Push_def SLL_SetNext_def)

lemma SLL_Pop_lst: "sll m h (x # xs) \<Longrightarrow> SLL_Pop (h, m) = Inr (x, m x, m) \<and> sll m (m x) xs"
  by (simp add: SLL_Pop_def SLL_Next_def)

interpretation SLL: object_stack sll SLL_Push SLL_Pop
proof unfold_locales
  show "\<exists>h' m'. SLL_Push x (h, m) = Inr (h', m') \<and> sll m' h' (x # xs)" if "sll m h xs" "x \<noteq> 0" "x \<notin> set xs" for m h xs x
    using SLL_Push_lst[OF that] by blast
  show "\<exists>h' m'. SLL_Pop (h, m) = Inr (x, h', m') \<and> sll m' h' xs" if "sll m h (x # xs)" for m h x xs
    using SLL_Pop_lst[OF that] by blast
qed (rule sll_nonnull)

lemma SLL_walk_lst: "sll m h (xs @ y # ys) \<Longrightarrow> SLL_walk (length xs) h m = Inr y"
  by (induction xs arbitrary: h) (auto simp: SLL_Next_def)

lemma SLL_PopRange_lst:
  assumes l: "sll m h (xs @ ys)" and "xs \<noteq> []"
  shows "\<exists>h' m'. SLL_PopRange (length xs) (h, m) = Inr (h, last xs, h', m') \<and> sll m' h xs \<and> sll m' h' ys \<and>
    m' = m(last xs := 0)"
proof -
  have d: "distinct (xs @ ys)" using sll_distinct[OF l] .
  have e: "xs @ ys = butlast xs @ last xs # ys" using assms(2) by simp
  have "SLL_walk (length xs - 1) h m = Inr (last xs)" using SLL_walk_lst[of m h "butlast xs" "last xs" ys] l e by simp
  moreover have "last xs \<noteq> 0" using sll_nonnull[OF l] last_in_set[OF assms(2)] by (metis UnCI set_append)
  ultimately have "SLL_PopRange (length xs) (h, m) = Inr (h, last xs, m (last xs), m(last xs := 0))"
    using assms(2) by (simp add: SLL_PopRange_def SLL_Next_def SLL_SetNext_def)
  moreover have "sll (m(last xs := 0)) h xs" "sll m (m (last xs)) ys" using sll_append[of xs m h ys] l d assms(2) by auto
  moreover have "sll (m(last xs := 0)) (m (last xs)) ys"
  proof -
    have "last xs \<notin> set ys" using d assms(2) by (meson disjoint_iff distinct_append last_in_set)
    then show ?thesis using sll_frame[of ys "m(last xs := 0)" m] \<open>sll m (m (last xs)) ys\<close> by auto
  qed
  ultimately show ?thesis by blast
qed

lemma SLL_PushRange_lst:
  assumes x: "sll m s xs" and y: "sll m h ys" and "set xs \<inter> set ys = {}" and "xs \<noteq> []"
  shows "SLL_PushRange s (last xs) (h, m) = Inr (s, m(last xs := h)) \<and> sll (m(last xs := h)) s (xs @ ys)"
proof -
  have n: "last xs \<noteq> 0" "s \<noteq> 0" using sll_nonnull[OF x] sll_head[OF x] last_in_set[OF assms(4)] assms(4) by metis+
  have lx: "last xs \<notin> set ys" using assms(3,4) by (meson disjoint_iff last_in_set)
  have 1: "sll (m(last xs := h)) h ys" using sll_frame[of ys "m(last xs := h)" m h] y lx by auto
  have "sll m (m (last xs)) []" using sll_append[OF sll_distinct[OF x] assms(4), of m s "[]"] x by simp
  then have "m (last xs) = 0" by simp
  then have "m(last xs := 0) = m" by auto
  then have "sll ((m(last xs := h))(last xs := 0)) s xs" using x by simp
  then have "sll (m(last xs := h)) s (xs @ ys)" using 1 sll_append[OF sll_distinct[OF x] assms(4), of "m(last xs := h)" s ys] by simp
  then show ?thesis using n by (simp add: SLL_PushRange_def SLL_SetNext_def)
qed

lemma SLL_Size_lst: "sll m h xs \<Longrightarrow> length xs < fuel \<Longrightarrow> SLL_Size fuel h m = Inr (length xs)"
proof (induction xs arbitrary: h fuel)
  case Nil
  then show ?case by (cases fuel) auto
next
  case (Cons x xs)
  then obtain f where "fuel = Suc f" by (cases fuel) auto
  then show ?case using Cons by (auto simp: SLL_Next_def)
qed

subsection \<open>The span lists are sequences\<close>

fun dpath :: "links \<Rightarrow> nat \<Rightarrow> nat list \<Rightarrow> nat \<Rightarrow> bool" where
  "dpath h a [] b \<longleftrightarrow> nxt h a = b \<and> prv h b = a"
| "dpath h a (x # xs) b \<longleftrightarrow> nxt h a = x \<and> prv h x = a \<and> dpath h x xs b"

definition dll :: "links \<Rightarrow> nat \<Rightarrow> nat list \<Rightarrow> bool" where
  "dll h l xs \<longleftrightarrow> distinct (l # xs) \<and> 0 \<notin> set (l # xs) \<and> dpath h l xs l"

lemma dpath_append: "dpath h a (xs @ x # zs) b \<longleftrightarrow> dpath h a xs x \<and> dpath h x zs b"
  by (induction xs arbitrary: a) auto

lemma dpath_frame:
  "\<forall>y\<in>set (a # xs). nxt h' y = nxt h y \<Longrightarrow> \<forall>y\<in>set (xs @ [b]). prv h' y = prv h y \<Longrightarrow> dpath h' a xs b = dpath h a xs b"
  by (induction xs arbitrary: a) auto

lemma dpath_first: "dpath h a xs b \<Longrightarrow> nxt h a = hd (xs @ [b])" and dpath_last: "dpath h a xs b \<Longrightarrow> prv h b = last (a # xs)"
  by (induction xs arbitrary: a) auto

lemma dll_empty: "dll h l xs \<Longrightarrow> DLL_IsEmpty l h \<longleftrightarrow> xs = []"
  by (cases xs) (auto simp: dll_def DLL_IsEmpty_def)

lemma DLL_Init_seq: "l \<noteq> 0 \<Longrightarrow> dll (DLL_Init l h) l []"
  by (simp add: dll_def DLL_Init_def)

lemma DLL_Init_other: "dll h k ws \<Longrightarrow> n \<notin> set (k # ws) \<Longrightarrow> dll (DLL_Init n h) k ws"
  using dpath_frame[of k ws "DLL_Init n h" h k] by (auto simp: dll_def DLL_Init_def)

lemma DLL_Prepend_seq:
  assumes d: "dll h l xs" and x: "x \<noteq> 0" "x \<notin> set (l # xs)"
  shows "\<exists>h'. DLL_Prepend l x h = Inr h' \<and> dll h' l (x # xs) \<and>
      (\<forall>l' ys. dll h l' ys \<longrightarrow> set (l' # ys) \<inter> set (x # l # xs) = {} \<longrightarrow> dll h' l' ys)"
proof -
  define f where "f = nxt h l"
  have f: "f = hd (xs @ [l])" using d dpath_first by (auto simp: f_def dll_def)
  have fi: "f \<in> set (l # xs)" unfolding f by (cases xs) auto
  let ?h = "h\<lparr>nxt := (nxt h)(x := f, l := x), prv := (prv h)(x := l, f := x)\<rparr>"
  have "f \<noteq> 0" "x \<noteq> f" "x \<noteq> l" using fi d x unfolding dll_def by (metis, metis, auto)
  then have run: "DLL_Prepend l x h = Inr ?h" by (auto simp: DLL_Prepend_def f_def Let_def)
  have "dpath ?h x xs l"
  proof (cases xs)
    case Nil
    then show ?thesis using f x by auto
  next
    case (Cons y r)
    have "dpath ?h y r l = dpath h y r l" using d x Cons f by (intro dpath_frame) (auto simp: dll_def)
    then show ?thesis using d Cons f x by (auto simp: dll_def)
  qed
  then have "dll ?h l (x # xs)" using d x \<open>x \<noteq> f\<close> by (auto simp: dll_def)
  moreover have "dll ?h l' ys" if "dll h l' ys" "set (l' # ys) \<inter> set (x # l # xs) = {}" for l' ys
  proof -
    have "dpath ?h l' ys l' = dpath h l' ys l'" using that fi by (intro dpath_frame) auto
    then show ?thesis using that by (simp add: dll_def)
  qed
  ultimately show ?thesis using run by blast
qed

lemma dpath_unlink:
  assumes "dpath h a (x # zs) b" and "x \<noteq> a" and "x \<noteq> b" and "distinct (x # zs)" and "a \<notin> set zs" and "b \<notin> set zs"
  defines "n \<equiv> hd (zs @ [b])"
  shows "dpath (h\<lparr>nxt := (nxt h)(a := n, x := 0), prv := (prv h)(n := a, x := 0)\<rparr>) a zs b" (is "dpath ?h a zs b")
proof (cases zs)
  case Nil
  then show ?thesis using assms by (auto simp: n_def)
next
  case (Cons z r)
  have "dpath ?h z r b = dpath h z r b" using assms Cons by (intro dpath_frame) auto
  then show ?thesis using assms Cons by auto
qed

lemma DLL_Remove_seq:
  assumes d: "dll h l (xs @ x # zs)"
  shows "\<exists>h'. DLL_Remove x h = Inr h' \<and> dll h' l (xs @ zs) \<and> nxt h' x = 0 \<and> prv h' x = 0 \<and>
      (\<forall>l' ys. dll h l' ys \<longrightarrow> set (l' # ys) \<inter> set (l # xs @ x # zs) = {} \<longrightarrow> dll h' l' ys)"
proof -
  define p where "p = last (l # xs)"
  define n where "n = hd (zs @ [l])"
  have dp: "dpath h l xs x" "dpath h x zs l" using d by (auto simp: dll_def dpath_append)
  have pn: "prv h x = p" "nxt h x = n" using dpath_last[OF dp(1)] dpath_first[OF dp(2)] by (auto simp: p_def n_def)
  have pi: "p \<in> set (l # xs)" by (auto simp: p_def)
  have ni: "n \<in> set (l # zs)" by (cases zs) (auto simp: n_def)
  have "0 \<notin> set (l # xs)" "0 \<notin> set (l # zs)" "x \<notin> set (l # xs)" "x \<notin> set (l # zs)" using d by (auto simp: dll_def)
  then have ne: "p \<noteq> 0" "n \<noteq> 0" "p \<noteq> x" "n \<noteq> x" using pi ni by metis+
  let ?h = "h\<lparr>nxt := (nxt h)(p := n, x := 0), prv := (prv h)(n := p, x := 0)\<rparr>"
  have run: "DLL_Remove x h = Inr ?h" using pn ne by (auto simp: DLL_Remove_def Let_def)
  have "dpath ?h l (xs @ zs) l"
  proof (cases xs rule: rev_cases)
    case Nil
    then show ?thesis using dpath_unlink[of h l x zs l] d by (auto simp: dll_def p_def n_def)
  next
    case (snoc ys y)
    have py: "p = y" using snoc by (simp add: p_def)
    have "dpath h y (x # zs) l" using d snoc by (auto simp: dll_def dpath_append)
    then have "dpath ?h y zs l" using dpath_unlink[of h y x zs l] d snoc py by (auto simp: dll_def n_def)
    moreover have "dpath h l ys y" using dp(1) snoc by (auto simp: dpath_append)
    moreover have "dpath ?h l ys y = dpath h l ys y" using d snoc py ni by (intro dpath_frame) (auto simp: dll_def)
    ultimately show ?thesis using snoc by (auto simp: dpath_append)
  qed
  then have "dll ?h l (xs @ zs)" using d by (auto simp: dll_def)
  moreover have "dll ?h l' ys" if "dll h l' ys" "set (l' # ys) \<inter> set (l # xs @ x # zs) = {}" for l' ys
  proof -
    have "dpath ?h l' ys l' = dpath h l' ys l'" using that pi ni by (intro dpath_frame) auto
    then show ?thesis using that by (simp add: dll_def)
  qed
  ultimately show ?thesis using run ne by auto
qed

interpretation DLL: span_lists dll DLL_Prepend DLL_Remove
proof unfold_locales
  show "\<exists>h'. DLL_Prepend l x h = Inr h' \<and> dll h' l (x # xs) \<and>
      (\<forall>l' ys. dll h l' ys \<longrightarrow> set (l' # ys) \<inter> set (x # l # xs) = {} \<longrightarrow> dll h' l' ys)"
    if "dll h l xs" "x \<noteq> 0" "x \<notin> set (l # xs)" for h l xs x using DLL_Prepend_seq[OF that] .
  show "\<exists>h'. DLL_Remove x h = Inr h' \<and> dll h' l (xs @ zs) \<and>
      (\<forall>l' ys. dll h l' ys \<longrightarrow> set (l' # ys) \<inter> set (l # xs @ x # zs) = {} \<longrightarrow> dll h' l' ys)"
    if "dll h l (xs @ x # zs)" for h l xs x zs using DLL_Remove_seq[OF that] by blast
qed

lemma DLL_Length_loop_seq:
  "dpath h a xs l \<Longrightarrow> l \<notin> set xs \<Longrightarrow> 0 \<notin> set xs \<Longrightarrow> length xs < fuel \<Longrightarrow>
     DLL_Length_loop fuel l (nxt h a) h n = Inr (n + length xs)"
proof (induction xs arbitrary: a fuel n)
  case Nil
  then show ?case by (cases fuel) auto
next
  case (Cons x xs)
  then obtain f where "fuel = Suc f" by (cases fuel) auto
  then show ?case using Cons by auto
qed


lemma DLL_Length_seq: "dll h l xs \<Longrightarrow> length xs < fuel \<Longrightarrow> DLL_Length fuel l h = Inr (length xs)"
  using DLL_Length_loop_seq[of h l xs l fuel 0] by (auto simp: DLL_Length_def dll_def)

subsection \<open>The properties of the lists\<close>

text \<open>C27: taking a range off an object list gives the first objects of the list as a null-terminated list of their own and
  leaves the rest; pushing the range back restores the memory, and \<^verbatim>\<open>SLL_Size\<close> ends with the length of the list.\<close>

theorem SLL_range_roundtrip:
  assumes "sll m h (xs @ ys)" and "xs \<noteq> []" and "length (xs @ ys) < fuel"
  shows "\<exists>h' m'. SLL_PopRange (length xs) (h, m) = Inr (h, last xs, h', m') \<and> sll m' h xs \<and> sll m' h' ys \<and>
    SLL_PushRange h (last xs) (h', m') = Inr (h, m) \<and> SLL_Size fuel h m = Inr (length xs + length ys)"
proof -
  obtain h' m' where p: "SLL_PopRange (length xs) (h, m) = Inr (h, last xs, h', m')" "sll m' h xs" "sll m' h' ys" "m' = m(last xs := 0)"
    using SLL_PopRange_lst[OF assms(1,2)] by blast
  have d: "distinct (xs @ ys)" using sll_distinct[OF assms(1)] .
  then have "SLL_PushRange h (last xs) (h', m') = Inr (h, m'(last xs := h'))"
    using SLL_PushRange_lst[OF p(2,3) _ assms(2)] by simp
  moreover have "h' = m (last xs)"
  proof -
    have "sll m (m (last xs)) ys" using sll_append[of xs m h ys] assms(1,2) d by simp
    moreover have "last xs \<notin> set ys" using d assms(2) by (meson disjoint_iff distinct_append last_in_set)
    ultimately have "sll m' (m (last xs)) ys" using sll_frame[of ys m' m] p(4) by auto
    then show ?thesis using p(3) by (cases ys) auto
  qed
  moreover have "SLL_Size fuel h m = Inr (length xs + length ys)" using SLL_Size_lst[OF assms(1,3)] by simp
  ultimately show ?thesis using p by (intro exI[of _ h'] exI[of _ m']) auto
qed

theorem SLL_range_roundtrip_witness:
  "\<exists>h' m'. SLL_PopRange 2 (8, (\<lambda>_. 0)(8 := 16, 16 := 24)) = Inr (8, 16, h', m') \<and> sll m' 8 [8, 16] \<and> sll m' h' [24]"
proof -
  have "sll ((\<lambda>_. 0)(8 := 16, 16 := 24)) 8 ([8, 16] @ [24])" by simp
  from SLL_range_roundtrip[OF this, of 4] show ?thesis by (auto simp: numeral_2_eq_2)
qed

text \<open>C28: the pointer code of the span lists implements sequences.  Removing a span from one list and prepending it to another
  returns and changes these two sequences as expected and no list that is disjoint from them; \<^verbatim>\<open>DLL_IsEmpty\<close> holds of each
  of the two exactly when its sequence is empty, \<^verbatim>\<open>DLL_Length\<close> ends with the length, and initialising a new list head makes an
  empty list and leaves the lists alone that do not contain it.\<close>

theorem DLL_refines_sequences:
  assumes "dll h l (xs @ x # zs)" and "dll h l' ys" and "set (l' # ys) \<inter> set (l # xs @ x # zs) = {}"
    and "length (xs @ x # zs) < fuel" and "length (x # ys) < fuel"
  shows "\<exists>h1 h2. DLL_Remove x h = Inr h1 \<and> DLL_Prepend l' x h1 = Inr h2 \<and> dll h2 l (xs @ zs) \<and> dll h2 l' (x # ys) \<and>
    (\<forall>k ws. dll h k ws \<and> set (k # ws) \<inter> (set (l # xs @ x # zs) \<union> set (l' # ys)) = {} \<longrightarrow> dll h2 k ws) \<and>
    (DLL_IsEmpty l' h \<longleftrightarrow> ys = []) \<and> \<not> DLL_IsEmpty l' h2 \<and> (DLL_IsEmpty l h2 \<longleftrightarrow> xs @ zs = []) \<and>
    DLL_Length fuel l h2 = Inr (length xs + length zs) \<and> DLL_Length fuel l' h2 = Inr (length ys + 1) \<and>
    (\<forall>n. n \<noteq> 0 \<longrightarrow> dll (DLL_Init n h2) n [] \<and> (\<forall>k ws. dll h2 k ws \<and> n \<notin> set (k # ws) \<longrightarrow> dll (DLL_Init n h2) k ws))"
proof -
  have x: "x \<noteq> 0" "x \<notin> set (l # xs @ zs)" using assms(1) by (auto simp: dll_def)
  obtain h1 h2 where h: "DLL_Remove x h = Inr h1" "DLL_Prepend l' x h1 = Inr h2" "dll h2 l (xs @ zs)" "dll h2 l' (x # ys)"
    "\<forall>k ws. dll h k ws \<longrightarrow> set (k # ws) \<inter> (set (l # xs @ x # zs) \<union> set (l' # ys)) = {} \<longrightarrow> dll h2 k ws"
    using DLL.move_seq[OF assms(1,2,3) x] by blast
  have "DLL_Length fuel l h2 = Inr (length xs + length zs)" using DLL_Length_seq[OF h(3), of fuel] assms(4) by simp
  moreover have "DLL_Length fuel l' h2 = Inr (length ys + 1)" using DLL_Length_seq[OF h(4) assms(5)] by simp
  ultimately show ?thesis using h dll_empty[OF assms(2)] dll_empty[OF h(3)] dll_empty[OF h(4)] DLL_Init_seq DLL_Init_other by blast
qed

theorem DLL_refines_sequences_witness:
  "\<exists>h1 h2. DLL_Remove 3 \<lparr>nxt = (\<lambda>_. 0)(1 := 3, 3 := 1, 2 := 2), prv = (\<lambda>_. 0)(1 := 3, 3 := 1, 2 := 2)\<rparr> = Inr h1 \<and>
     DLL_Prepend 2 3 h1 = Inr h2 \<and> dll h2 1 [] \<and> dll h2 2 [3]"
proof -
  let ?h = "\<lparr>nxt = (\<lambda>_. 0)(1 := 3, 3 := 1, 2 := 2), prv = (\<lambda>_. 0)(1 := 3, 3 := 1, 2 := 2 :: nat)\<rparr> :: links"
  have "dll ?h 1 ([] @ 3 # [])" "dll ?h 2 []" by (simp_all add: dll_def)
  from DLL_refines_sequences[OF this, of 5] show ?thesis by auto
qed

end
