(* ===== verification/PackedCache.thy ===== *)
theory PackedCache
  imports Prelude
begin

unbundle bit_operations_syntax

section \<open>The page-to-class cache (packed-cache-inl.h)\<close>

text \<open>
  The direct-mapped cache \<^verbatim>\<open>PackedCache<kKeybits, T>\<close>.  The template parameters are arguments: the
  width \<open>kb\<close> of a key and the width \<open>tb\<close> of an entry; the allocator instantiates them with 35 and 64
  (and with 19 and 16 on 32-bit machines).  Words are natural numbers, and every conversion to
  \<^verbatim>\<open>T\<close> cuts to \<open>tb\<close> bits.  The locale states what a client of the cache relies on.
\<close>

definition kHashbits :: nat where "kHashbits = 16"
definition kValuebits :: nat where "kValuebits = 7"

definition N_ONES :: "nat \<Rightarrow> nat" where
  "N_ONES n = (if n = 0 then 0 else (2 ^ (n - 1) - 1) + 2 ^ (n - 1))"

definition kUseWholeKeys :: "nat \<Rightarrow> nat \<Rightarrow> bool" where
  "kUseWholeKeys kb tb \<longleftrightarrow> kb + kValuebits \<le> tb"

definition kUpperbits :: "nat \<Rightarrow> nat \<Rightarrow> nat" where
  "kUpperbits kb tb = (if kUseWholeKeys kb tb then kb else kb - kHashbits)"

definition kUpperMask :: "nat \<Rightarrow> nat \<Rightarrow> nat" where
  "kUpperMask kb tb = take_bit tb (push_bit kValuebits (N_ONES (kUpperbits kb tb)))"

definition kValueMask :: nat where "kValueMask = N_ONES kValuebits"

definition EntryToValue :: "nat \<Rightarrow> nat" where "EntryToValue t = t AND kValueMask"

definition KeyToUpper :: "nat \<Rightarrow> nat \<Rightarrow> nat \<Rightarrow> nat" where
  "KeyToUpper kb tb k =
     (if kUseWholeKeys kb tb then take_bit tb (push_bit kValuebits (take_bit tb k))
      else take_bit tb (drop_bit (kHashbits - kValuebits) k) AND kUpperMask kb tb)"

definition Hash :: "nat \<Rightarrow> nat" where "Hash key = key AND N_ONES kHashbits"

definition KeyMatch :: "nat \<Rightarrow> nat \<Rightarrow> nat \<Rightarrow> nat \<Rightarrow> bool" where
  "KeyMatch kb tb entry key =
     (if kUseWholeKeys kb tb then drop_bit kValuebits entry = key
      else (KeyToUpper kb tb key XOR entry) AND kUpperMask kb tb = 0)"

type_synonym cache = "nat \<Rightarrow> nat"

definition Put :: "nat \<Rightarrow> nat \<Rightarrow> nat \<Rightarrow> nat \<Rightarrow> cache \<Rightarrow> cache" where
  "Put kb tb key val arr = arr(Hash key := KeyToUpper kb tb key OR val)"

definition Has :: "nat \<Rightarrow> nat \<Rightarrow> nat \<Rightarrow> cache \<Rightarrow> bool" where
  "Has kb tb key arr = KeyMatch kb tb (arr (Hash key)) key"

definition GetOrDefault :: "nat \<Rightarrow> nat \<Rightarrow> nat \<Rightarrow> nat \<Rightarrow> cache \<Rightarrow> nat" where
  "GetOrDefault kb tb key default_value arr =
     (let entry = arr (Hash key) in
      if KeyMatch kb tb entry key then EntryToValue entry else default_value)"

fun Clear_loop :: "nat \<Rightarrow> nat \<Rightarrow> nat \<Rightarrow> nat \<Rightarrow> cache \<Rightarrow> cache" where
  "Clear_loop kb tb val 0 arr = arr"
| "Clear_loop kb tb val (Suc i) arr =
     (Clear_loop kb tb val i arr)(i := if kUseWholeKeys kb tb then val OR KeyToUpper kb tb i else val)"

definition Clear :: "nat \<Rightarrow> nat \<Rightarrow> nat \<Rightarrow> cache \<Rightarrow> cache" where
  "Clear kb tb val arr = Clear_loop kb tb val (2 ^ kHashbits) arr"

text \<open>The compile-time assertions of the constructor.\<close>

definition cache_params :: "nat \<Rightarrow> nat \<Rightarrow> bool" where
  "cache_params kb tb \<longleftrightarrow> kb \<le> 64 \<and> kHashbits \<le> kb \<and> kb - kHashbits + kValuebits \<le> tb"

subsection \<open>What a client relies on\<close>

locale lossy_cache =
  fixes put :: "nat \<Rightarrow> nat \<Rightarrow> 'c \<Rightarrow> 'c" and get :: "nat \<Rightarrow> nat \<Rightarrow> 'c \<Rightarrow> nat"
    and key_ok :: "nat \<Rightarrow> bool" and val_ok :: "nat \<Rightarrow> bool"
  assumes get_put_same: "key_ok k \<Longrightarrow> val_ok v \<Longrightarrow> get k d (put k v c) = v"
    and get_put_other: "key_ok k \<Longrightarrow> key_ok k' \<Longrightarrow> val_ok v \<Longrightarrow> k \<noteq> k' \<Longrightarrow>
      get k' d (put k v c) = get k' d c \<or> get k' d (put k v c) = d"
begin

text \<open>A cache is coherent with a map when every answer that is not the default is the map's.\<close>

definition coherent :: "nat \<Rightarrow> (nat \<Rightarrow> nat) \<Rightarrow> 'c \<Rightarrow> bool" where
  "coherent d f c \<longleftrightarrow> (\<forall>k. key_ok k \<longrightarrow> get k d c = d \<or> get k d c = f k)"

lemma coherent_put: "coherent d f c \<Longrightarrow> key_ok k \<Longrightarrow> val_ok v \<Longrightarrow> coherent d (f(k := v)) (put k v c)"
  unfolding coherent_def using get_put_same get_put_other by (metis fun_upd_apply)

lemma coherent_puts:
  "coherent d f c \<Longrightarrow> \<forall>(k, v)\<in>set kvs. key_ok k \<and> val_ok v \<Longrightarrow>
     coherent d (foldl (\<lambda>f (k, v). f(k := v)) f kvs) (foldl (\<lambda>c (k, v). put k v c) c kvs)"
  by (induction kvs arbitrary: f c) (auto simp: coherent_put)

end

subsection \<open>The cache keeps its promise\<close>

lemma N_ONES_mask: "N_ONES n = mask n"
  by (cases n) (simp_all add: N_ONES_def mask_eq_exp_minus_1 mult_2)

lemmas cache_consts = kHashbits_def kValuebits_def

lemma Hash_take_bit: "Hash k = take_bit kHashbits k"
  by (simp add: Hash_def N_ONES_mask take_bit_eq_mask)

lemma EntryToValue_take_bit: "EntryToValue t = take_bit kValuebits t"
  by (simp add: EntryToValue_def kValueMask_def N_ONES_mask take_bit_eq_mask)

lemma nat_lt_bit: "(k::nat) < 2 ^ n \<Longrightarrow> bit k i \<Longrightarrow> i < n"
  by (metis bit_take_bit_iff take_bit_nat_eq_self)

lemmas cache_bits = bit_take_bit_iff bit_push_bit_iff bit_drop_bit_eq bit_and_iff bit_or_iff bit_mask_iff bit_xor_iff

lemma KeyToUpper_bit:
  assumes "cache_params kb tb" and "k < 2 ^ kb"
  shows "bit (KeyToUpper kb tb k) i \<longleftrightarrow>
    (if kUseWholeKeys kb tb then 7 \<le> i \<and> bit k (i - 7) else 7 \<le> i \<and> bit k (i + 9))"
proof -
  have b: "bit k (i - 7) \<Longrightarrow> i - 7 < kb" "bit k (i + 9) \<Longrightarrow> i + 9 < kb" using nat_lt_bit[OF assms(2)] by auto
  show ?thesis
  proof (cases "kUseWholeKeys kb tb")
    case True
    then show ?thesis using b(1)
      by (auto simp: KeyToUpper_def kUseWholeKeys_def cache_consts cache_bits possible_bit_def)
  next
    case False
    then show ?thesis using b(2) assms(1)
      by (auto simp: KeyToUpper_def cache_params_def kUpperMask_def kUpperbits_def N_ONES_mask
        cache_consts cache_bits possible_bit_def add.commute[of 9])
  qed
qed

lemma entry_value:
  assumes "cache_params kb tb" and "k < 2 ^ kb" and "v < 2 ^ kValuebits"
  shows "EntryToValue (KeyToUpper kb tb k OR v) = v"
proof (rule bit_eqI)
  fix n
  have "bit v n \<Longrightarrow> n < 7" using nat_lt_bit[OF assms(3)] by (simp add: kValuebits_def)
  then show "bit (EntryToValue (KeyToUpper kb tb k OR v)) n = bit v n"
    by (auto simp: EntryToValue_take_bit cache_bits KeyToUpper_bit[OF assms(1,2)] kValuebits_def)
qed

text \<open>An entry matches a key of the same slot exactly when it was written for that key.\<close>

lemma KeyMatch_iff:
  assumes "cache_params kb tb" and k: "k < 2 ^ kb" and k': "k' < 2 ^ kb" and v: "v < 2 ^ kValuebits"
    and "Hash k = Hash k'"
  shows "KeyMatch kb tb (KeyToUpper kb tb k OR v) k' \<longleftrightarrow> k = k'"
proof -
  have low: "bit k i = bit k' i" if "i < 16" for i
    using assms(5) that by (metis Hash_take_bit bit_take_bit_iff kHashbits_def)
  have vb: "\<not> bit v i" if "7 \<le> i" for i using nat_lt_bit[OF v, of i] that by (auto simp: kValuebits_def)
  note up = KeyToUpper_bit[OF assms(1)]
  show ?thesis
  proof (cases "kUseWholeKeys kb tb")
    case True
    have "drop_bit 7 (KeyToUpper kb tb k OR v) = k"
      by (rule bit_eqI) (simp add: cache_bits up[OF k] True vb)
    then show ?thesis using True by (simp add: KeyMatch_def kValuebits_def)
  next
    case False
    have kb: "16 \<le> kb" "kb - 9 \<le> tb" using assms(1) by (auto simp: cache_params_def cache_consts)
    have m: "bit (kUpperMask kb tb) i \<longleftrightarrow> 7 \<le> i \<and> i < kb - 9" for i
      using False kb by (auto simp: kUpperMask_def kUpperbits_def N_ONES_mask cache_consts cache_bits possible_bit_def)
    have "KeyMatch kb tb (KeyToUpper kb tb k OR v) k' \<longleftrightarrow> (\<forall>i. 7 \<le> i \<longrightarrow> i < kb - 9 \<longrightarrow> bit k' (i + 9) = bit k (i + 9))"
      using False vb by (simp add: KeyMatch_def bit_eq_iff cache_bits m up[OF k] up[OF k']) metis
    also have "\<dots> \<longleftrightarrow> k = k'"
    proof
      assume h: "\<forall>i. 7 \<le> i \<longrightarrow> i < kb - 9 \<longrightarrow> bit k' (i + 9) = bit k (i + 9)"
      show "k = k'"
      proof (rule bit_eqI)
        fix n show "bit k n = bit k' n"
        proof (cases "16 \<le> n \<and> n < kb")
          case True
          then have "7 \<le> n - 9" "n - 9 < kb - 9" "n - 9 + 9 = n" by auto
          then show ?thesis using h[rule_format, of "n - 9"] by simp
        next
          case False
          then show ?thesis using low[of n] nat_lt_bit[OF k, of n] nat_lt_bit[OF k', of n] by auto
        qed
      qed
    qed simp
    finally show ?thesis .
  qed
qed

lemma Get_Put:
  assumes "cache_params kb tb" and "k < 2 ^ kb" and "k' < 2 ^ kb" and "v < 2 ^ kValuebits"
  shows "GetOrDefault kb tb k' d (Put kb tb k v arr) =
    (if k' = k then v else if Hash k' = Hash k then d else GetOrDefault kb tb k' d arr)"
  using KeyMatch_iff[OF assms] entry_value[OF assms(1,2,4)]
  by (auto simp: GetOrDefault_def Put_def Let_def)

interpretation pagemap_cache: lossy_cache "Put 35 64" "GetOrDefault 35 64" "\<lambda>k. k < 2 ^ 35" "\<lambda>v. v < 2 ^ kValuebits"
  by unfold_locales (auto simp: Get_Put cache_params_def cache_consts)

interpretation pagemap_cache32: lossy_cache "Put 19 16" "GetOrDefault 19 16" "\<lambda>k. k < 2 ^ 19" "\<lambda>v. v < 2 ^ kValuebits"
  by unfold_locales (auto simp: Get_Put cache_params_def cache_consts)

lemma Clear_loop_nth:
  "Clear_loop kb tb v n arr i = (if i < n then (if kUseWholeKeys kb tb then v OR KeyToUpper kb tb i else v) else arr i)"
  by (induction n) auto

text \<open>C22: the cache answers with the value last put for the key, with the default, or with what it answered before; it never
  answers with the value of another key, and a fresh cache only answers with the initial value.\<close>

theorem PackedCache_put_get:
  assumes "cache_params kb tb" and "k < 2 ^ kb" and "k' < 2 ^ kb" and "v < 2 ^ kValuebits"
  shows "GetOrDefault kb tb k' d (Put kb tb k v arr) =
      (if k' = k then v else if Hash k' = Hash k then d else GetOrDefault kb tb k' d arr) \<and>
    Has kb tb k (Put kb tb k v arr) \<and> GetOrDefault kb tb k' v (Clear kb tb v arr) = v"
proof -
  have h: "Hash k' < 2 ^ kHashbits" by (simp add: Hash_take_bit)
  also have "\<dots> \<le> (2::nat) ^ kb" using assms(1) by (intro power_increasing) (auto simp: cache_params_def)
  finally have "EntryToValue (v OR KeyToUpper kb tb (Hash k')) = v"
    using entry_value[OF assms(1) _ assms(4)] by (simp add: or.commute)
  moreover have "EntryToValue v = v" using assms(4) by (simp add: EntryToValue_take_bit take_bit_nat_eq_self)
  ultimately have "GetOrDefault kb tb k' v (Clear kb tb v arr) = v"
    using h by (auto simp: GetOrDefault_def Clear_def Clear_loop_nth Let_def)
  moreover have "Has kb tb k (Put kb tb k v arr)" using KeyMatch_iff[OF assms(1,2,2,4)] by (simp add: Has_def Put_def)
  ultimately show ?thesis using Get_Put[OF assms] by blast
qed

theorem PackedCache_put_get_witness:
  "GetOrDefault 35 64 0x30005 0 (Put 35 64 0x20005 9 (Put 35 64 0x30005 4 (\<lambda>_. 0))) = 0 \<and>
   GetOrDefault 35 64 0x20005 0 (Put 35 64 0x20005 9 (\<lambda>_. 0)) = 9"
proof -
  have p: "cache_params 35 64" by (simp add: cache_params_def cache_consts)
  have h: "Hash 0x30005 = Hash 0x20005" by (simp add: Hash_take_bit cache_consts take_bit_eq_mod)
  show ?thesis
    using PackedCache_put_get[OF p, of "0x20005" "0x30005" 9 0 "Put 35 64 0x30005 4 (\<lambda>_. 0)"]
      PackedCache_put_get[OF p, of "0x20005" "0x20005" 9 0 "\<lambda>_. 0"] h
    by (simp add: kValuebits_def)
qed

end
