(* ===== verification/PageMap.thy ===== *)
theory PageMap
  imports Prelude
begin

unbundle bit_operations_syntax

section \<open>Maps from page numbers to spans (pagemap.h)\<close>

text \<open>
  The three radix maps \<^verbatim>\<open>TCMalloc_PageMap1\<close>, \<^verbatim>\<open>TCMalloc_PageMap2\<close> and \<^verbatim>\<open>TCMalloc_PageMap3\<close>, with the template
  parameter \<^verbatim>\<open>BITS\<close> as the argument \<open>b\<close>.  Keys and the stored pointers are natural numbers, 0 being
  the null pointer; a node is a function of the index.  Following a null node pointer is
  the fault \<open>Segv\<close>.  The allocator of nodes is the argument \<open>al\<close>, a function on a state \<open>'m\<close> that says
  whether the allocation succeeded.
\<close>

type_synonym leaf = "nat \<Rightarrow> nat"
type_synonym 'm allocator = "nat \<Rightarrow> 'm \<Rightarrow> bool \<times> 'm"

subsection \<open>TCMalloc_PageMap1\<close>

definition new1 :: "nat \<Rightarrow> 'm allocator \<Rightarrow> 'm \<Rightarrow> (leaf \<times> 'm) res" where
  "new1 b al m = (case al (8 * 2 ^ b) m of (ok, m) \<Rightarrow> if ok then Inr (\<lambda>_. 0, m) else Inl Segv)"

text \<open>\<^verbatim>\<open>n <= LENGTH - x\<close> is an unsigned subtraction.\<close>

definition Ensure1 :: "nat \<Rightarrow> nat \<Rightarrow> nat \<Rightarrow> bool" where
  "Ensure1 b x n \<longleftrightarrow> n \<le> (2 ^ b + 2 ^ 64 - x) mod 2 ^ 64"

definition get1 :: "nat \<Rightarrow> leaf \<Rightarrow> nat \<Rightarrow> nat" where
  "get1 b arr k = (if 0 < k div 2 ^ b then 0 else arr k)"

definition set1 :: "nat \<Rightarrow> nat \<Rightarrow> nat \<Rightarrow> leaf \<Rightarrow> leaf res" where
  "set1 b k v arr = (if 2 ^ b \<le> k then Inl Crash else Inr (arr(k := v)))"

function Next1 :: "nat \<Rightarrow> leaf \<Rightarrow> nat \<Rightarrow> nat" where
  "Next1 b arr k = (if k < 2 ^ b then if arr k \<noteq> 0 then arr k else Next1 b arr (k + 1) else 0)"
  by pat_completeness auto
termination by (relation "measure (\<lambda>(b, arr, k). 2 ^ b - k)") auto

subsection \<open>TCMalloc_PageMap2\<close>

type_synonym root2 = "nat \<Rightarrow> leaf option"

definition ROOT_BITS :: nat where "ROOT_BITS = 5"
definition LEAF_BITS2 :: "nat \<Rightarrow> nat" where "LEAF_BITS2 b = b - ROOT_BITS"

definition new2 :: root2 where "new2 = (\<lambda>_. None)"

definition get2 :: "nat \<Rightarrow> root2 \<Rightarrow> nat \<Rightarrow> nat" where
  "get2 b root k =
     (let i1 = k div 2 ^ LEAF_BITS2 b; i2 = k mod 2 ^ LEAF_BITS2 b in
      if 0 < k div 2 ^ b then 0
      else case root i1 of None \<Rightarrow> 0 | Some lf \<Rightarrow> lf i2)"

definition set2 :: "nat \<Rightarrow> nat \<Rightarrow> nat \<Rightarrow> root2 \<Rightarrow> root2 res" where
  "set2 b k v root =
     (let i1 = k div 2 ^ LEAF_BITS2 b; i2 = k mod 2 ^ LEAF_BITS2 b in
      if 2 ^ ROOT_BITS \<le> i1 then Inl Crash
      else case root i1 of None \<Rightarrow> Inl Segv | Some lf \<Rightarrow> Inr (root(i1 \<mapsto> lf(i2 := v))))"

text \<open>The last key of a range, \<^verbatim>\<open>start + n - 1\<close> in unsigned arithmetic.\<close>

definition last_key :: "nat \<Rightarrow> nat \<Rightarrow> nat" where "last_key start n = (start + n + 2 ^ 64 - 1) mod 2 ^ 64"

lemma next_leaf_gt: "key < (key div 2 ^ n + 1) * (2::nat) ^ n"
  using dividend_less_div_times[of "2 ^ n" key] by (simp add: algebra_simps)

function Ensure2 :: "nat \<Rightarrow> 'm allocator \<Rightarrow> nat \<Rightarrow> nat \<Rightarrow> root2 \<times> 'm \<Rightarrow> bool \<times> root2 \<times> 'm" where
  "Ensure2 b al key end_key (root, m) =
     (if key \<le> end_key then
        let i1 = key div 2 ^ LEAF_BITS2 b; next_key = (key div 2 ^ LEAF_BITS2 b + 1) * 2 ^ LEAF_BITS2 b in
        if 2 ^ ROOT_BITS \<le> i1 then (False, root, m)
        else if root i1 = None then
          case al (8 * 2 ^ LEAF_BITS2 b) m of (ok, m) \<Rightarrow>
            if \<not> ok then (False, root, m)
            else Ensure2 b al next_key end_key (root(i1 \<mapsto> (\<lambda>_. 0)), m)
        else Ensure2 b al next_key end_key (root, m)
      else (True, root, m))"
  by pat_completeness auto
termination
  by (relation "measure (\<lambda>(b, al, key, end_key, _). end_key + 1 - key)")
    (auto intro!: diff_less_mono2 simp del: add_mult_distrib mult_Suc simp: next_leaf_gt[simplified] less_Suc_eq_le)


declare Next1.simps [simp del] Ensure2.simps [simp del]

definition PreallocateMoreMemory2 :: "nat \<Rightarrow> 'm allocator \<Rightarrow> root2 \<times> 'm \<Rightarrow> root2 \<times> 'm" where
  "PreallocateMoreMemory2 b al rm = snd (Ensure2 b al 0 (last_key 0 (2 ^ b)) rm)"

text \<open>The scan forward in a leaf.\<close>

function scan_leaf :: "nat \<Rightarrow> leaf \<Rightarrow> nat \<Rightarrow> nat option" where
  "scan_leaf len lf i = (if i < len then if lf i \<noteq> 0 then Some (lf i) else scan_leaf len lf (i + 1) else None)"
  by pat_completeness auto
termination by (relation "measure (\<lambda>(len, lf, i). len - i)") auto

function Next2 :: "nat \<Rightarrow> root2 \<Rightarrow> nat \<Rightarrow> nat" where
  "Next2 b root k =
     (if k < 2 ^ b then
        let i1 = k div 2 ^ LEAF_BITS2 b; next_key = (k div 2 ^ LEAF_BITS2 b + 1) * 2 ^ LEAF_BITS2 b in
        case root i1 of
          None \<Rightarrow> Next2 b root next_key
        | Some lf \<Rightarrow>
            (case scan_leaf (2 ^ LEAF_BITS2 b) lf (k mod 2 ^ LEAF_BITS2 b) of
               Some v \<Rightarrow> v | None \<Rightarrow> Next2 b root next_key)
      else 0)"
  by pat_completeness auto
termination
  by (relation "measure (\<lambda>(b, root, k). 2 ^ b - k)") (auto intro!: diff_less_mono2 simp: next_leaf_gt[simplified])

declare scan_leaf.simps [simp del] Next2.simps [simp del]

subsection \<open>TCMalloc_PageMap3\<close>

type_synonym root3 = "(nat \<Rightarrow> (nat \<Rightarrow> leaf option) option) option"

definition INTERIOR_BITS :: "nat \<Rightarrow> nat" where "INTERIOR_BITS b = (b + 2) div 3"
definition LEAF_BITS3 :: "nat \<Rightarrow> nat" where "LEAF_BITS3 b = b - 2 * INTERIOR_BITS b"

definition NewNode :: "nat \<Rightarrow> 'm allocator \<Rightarrow> 'm \<Rightarrow> (nat \<Rightarrow> 'n option) option \<times> 'm" where
  "NewNode b al m = (case al (8 * 2 ^ INTERIOR_BITS b) m of (ok, m) \<Rightarrow> (if ok then Some (\<lambda>_. None) else None, m))"

definition new3 :: "nat \<Rightarrow> 'm allocator \<Rightarrow> 'm \<Rightarrow> root3 \<times> 'm" where "new3 b al m = NewNode b al m"

definition key3_1 :: "nat \<Rightarrow> nat \<Rightarrow> nat" where "key3_1 b k = k div 2 ^ (LEAF_BITS3 b + INTERIOR_BITS b)"
definition key3_2 :: "nat \<Rightarrow> nat \<Rightarrow> nat" where "key3_2 b k = k div 2 ^ LEAF_BITS3 b mod 2 ^ INTERIOR_BITS b"
definition key3_3 :: "nat \<Rightarrow> nat \<Rightarrow> nat" where "key3_3 b k = k mod 2 ^ LEAF_BITS3 b"

definition get3 :: "nat \<Rightarrow> root3 \<Rightarrow> nat \<Rightarrow> nat res" where
  "get3 b root k =
     (if 0 < k div 2 ^ b then Inr 0
      else case root of
        None \<Rightarrow> Inl Segv
      | Some r \<Rightarrow>
          case r (key3_1 b k) of
            None \<Rightarrow> Inr 0
          | Some nd \<Rightarrow> (case nd (key3_2 b k) of None \<Rightarrow> Inr 0 | Some lf \<Rightarrow> Inr (lf (key3_3 b k))))"

definition set3 :: "nat \<Rightarrow> nat \<Rightarrow> nat \<Rightarrow> root3 \<Rightarrow> root3 res" where
  "set3 b k v root =
     (if 0 < k div 2 ^ b then Inl Crash
      else case root of
        None \<Rightarrow> Inl Segv
      | Some r \<Rightarrow>
          case r (key3_1 b k) of
            None \<Rightarrow> Inl Segv
          | Some nd \<Rightarrow>
              (case nd (key3_2 b k) of
                 None \<Rightarrow> Inl Segv
               | Some lf \<Rightarrow> Inr (Some (r(key3_1 b k \<mapsto> nd(key3_2 b k \<mapsto> lf(key3_3 b k := v)))))))"

text \<open>One round of \<^verbatim>\<open>Ensure\<close>: the interior node, then the leaf.\<close>

definition ensure_leaf ::
  "nat \<Rightarrow> 'm allocator \<Rightarrow> nat \<Rightarrow> (nat \<Rightarrow> (nat \<Rightarrow> leaf option) option) \<times> 'm \<Rightarrow>
     bool \<times> (nat \<Rightarrow> (nat \<Rightarrow> leaf option) option) \<times> 'm" where
  "ensure_leaf b al key rm =
     (case rm of (r, m) \<Rightarrow>
        (case (case r (key3_1 b key) of None \<Rightarrow> NewNode b al m | Some nd \<Rightarrow> (Some nd, m)) of
           (None, m) \<Rightarrow> (False, r, m)
         | (Some nd, m) \<Rightarrow>
             if nd (key3_2 b key) = None then
               (case al (8 * 2 ^ LEAF_BITS3 b) m of (ok, m) \<Rightarrow>
                  if ok then (True, r(key3_1 b key \<mapsto> nd(key3_2 b key \<mapsto> (\<lambda>_. 0))), m)
                  else (False, r(key3_1 b key \<mapsto> nd), m))
             else (True, r(key3_1 b key \<mapsto> nd), m)))"

function Ensure3 ::
  "nat \<Rightarrow> 'm allocator \<Rightarrow> nat \<Rightarrow> nat \<Rightarrow> (nat \<Rightarrow> (nat \<Rightarrow> leaf option) option) \<times> 'm \<Rightarrow>
     bool \<times> (nat \<Rightarrow> (nat \<Rightarrow> leaf option) option) \<times> 'm" where
  "Ensure3 b al key end_key rm =
     (if key \<le> end_key then
        if 2 ^ INTERIOR_BITS b \<le> key3_1 b key \<or> 2 ^ INTERIOR_BITS b \<le> key3_2 b key then (False, rm)
        else case ensure_leaf b al key rm of
          (ok, rm) \<Rightarrow>
            if ok then Ensure3 b al ((key div 2 ^ LEAF_BITS3 b + 1) * 2 ^ LEAF_BITS3 b) end_key rm
            else (False, rm)
      else (True, rm))"
  by pat_completeness auto
termination
  by (relation "measure (\<lambda>(b, al, key, end_key, _). end_key + 1 - key)")
    (auto intro!: diff_less_mono2 simp: next_leaf_gt[simplified] less_Suc_eq_le)

function Next3 :: "nat \<Rightarrow> (nat \<Rightarrow> (nat \<Rightarrow> leaf option) option) \<Rightarrow> nat \<Rightarrow> nat" where
  "Next3 b r k =
     (if k < 2 ^ b then
        case r (key3_1 b k) of
          None \<Rightarrow> Next3 b r ((key3_1 b k + 1) * 2 ^ (LEAF_BITS3 b + INTERIOR_BITS b))
        | Some nd \<Rightarrow>
            (case (case nd (key3_2 b k) of
                     None \<Rightarrow> None
                   | Some lf \<Rightarrow> scan_leaf (2 ^ LEAF_BITS3 b) lf (key3_3 b k)) of
               Some v \<Rightarrow> v
             | None \<Rightarrow> Next3 b r ((k div 2 ^ LEAF_BITS3 b + 1) * 2 ^ LEAF_BITS3 b))
      else 0)"
  by pat_completeness auto
termination
  by (relation "measure (\<lambda>(b, root, k). 2 ^ b - k)")
    (auto intro!: diff_less_mono2 simp: next_leaf_gt[simplified] key3_1_def)

declare Ensure3.simps [simp del] Next3.simps [simp del]


subsection \<open>What a client relies on\<close>

text \<open>\<open>first_from g k v\<close>: \<open>v\<close> is the first non-null value of \<open>g\<close> at a key from \<open>k\<close> on, or 0 if there is none.\<close>

definition first_from :: "(nat \<Rightarrow> nat) \<Rightarrow> nat \<Rightarrow> nat \<Rightarrow> bool" where
  "first_from g k v \<longleftrightarrow> (if v = 0 then \<forall>j\<ge>k. g j = 0 else \<exists>j\<ge>k. g j = v \<and> (\<forall>i. k \<le> i \<and> i < j \<longrightarrow> g i = 0))"

locale page_map =
  fixes get :: "'s \<Rightarrow> nat \<Rightarrow> nat" and set :: "nat \<Rightarrow> nat \<Rightarrow> 's \<Rightarrow> 's res"
    and ready :: "'s \<Rightarrow> nat \<Rightarrow> bool" and Nxt :: "'s \<Rightarrow> nat \<Rightarrow> nat"
  assumes set_ready: "ready s k \<Longrightarrow> \<exists>s'. set k v s = Inr s' \<and> get s' = (get s)(k := v) \<and> ready s' = ready s"
    and get_unready: "\<not> ready s k \<Longrightarrow> get s k = 0"
    and Nxt_first: "first_from (get s) k (Nxt s k)"
begin

text \<open>Recording a span: its first page, its last page and, for small objects, every page between.\<close>

fun set_pages :: "nat \<Rightarrow> nat list \<Rightarrow> 's \<Rightarrow> 's res" where
  "set_pages v [] s = Inr s"
| "set_pages v (k # ks) s = bindR (set k v s) (set_pages v ks)"

lemma set_pages_ready:
  "\<forall>k\<in>List.set ks. ready s k \<Longrightarrow>
     \<exists>s'. set_pages v ks s = Inr s' \<and> get s' = (\<lambda>k. if k \<in> List.set ks then v else get s k) \<and> ready s' = ready s"
proof (induction ks arbitrary: s)
  case (Cons k ks)
  then obtain s1 where s1: "set k v s = Inr s1" "get s1 = (get s)(k := v)" "ready s1 = ready s"
    using set_ready[of s k v] by auto
  then obtain s' where "set_pages v ks s1 = Inr s'" "get s' = (\<lambda>k. if k \<in> List.set ks then v else get s1 k)"
    "ready s' = ready s" using Cons.IH[of s1] Cons.prems by auto
  then show ?case using s1 by (auto simp: fun_eq_iff)
qed simp

text \<open>Walking the map with \<open>Nxt\<close> reaches every recorded value.\<close>

lemma Nxt_none_iff: "Nxt s k = 0 \<longleftrightarrow> (\<forall>j\<ge>k. get s j = 0)"
  using Nxt_first[of s k] by (auto simp: first_from_def split: if_splits)

end

subsection \<open>The maps keep the promise\<close>

lemma first_from_here: "g k \<noteq> 0 \<Longrightarrow> first_from g k (g k)"
  by (auto simp: first_from_def)

lemma first_from_skip:
  assumes "\<And>i. k \<le> i \<Longrightarrow> i < k' \<Longrightarrow> g i = 0" and "k \<le> k'" and "first_from g k' v" shows "first_from g k v"
proof (cases "v = 0")
  case True
  then show ?thesis using assms by (auto simp: first_from_def) (meson not_le)
next
  case False
  then obtain j where j: "k' \<le> j" "g j = v" "\<forall>i. k' \<le> i \<and> i < j \<longrightarrow> g i = 0" using assms(3) by (auto simp: first_from_def)
  have "g i = 0" if "k \<le> i" "i < j" for i using j(3) assms(1) that by (cases "i < k'") auto
  then have "k \<le> j \<and> g j = v \<and> (\<forall>i. k \<le> i \<and> i < j \<longrightarrow> g i = 0)" using j assms(2) by auto
  then show ?thesis unfolding first_from_def using False by auto
qed

lemma first_from_end: "(\<And>i. k \<le> i \<Longrightarrow> g i = 0) \<Longrightarrow> first_from g k 0"
  by (simp add: first_from_def)

lemma scan_leaf_spec:
  "(case scan_leaf len lf i of
      None \<Rightarrow> \<forall>j. i \<le> j \<and> j < len \<longrightarrow> lf j = 0
    | Some v \<Rightarrow> v \<noteq> 0 \<and> (\<exists>j. i \<le> j \<and> j < len \<and> lf j = v \<and> (\<forall>l. i \<le> l \<and> l < j \<longrightarrow> lf l = 0)))"
proof (induction len lf i rule: scan_leaf.induct)
  case (1 len lf i)
  consider "len \<le> i" | "i < len" "lf i \<noteq> 0" | "i < len" "lf i = 0" by linarith
  then show ?case
  proof cases
    case 3
    have un: "scan_leaf len lf i = scan_leaf len lf (i + 1)" using 3 by (subst scan_leaf.simps) simp
    have ext: "lf l = 0" if "\<forall>l. i + 1 \<le> l \<and> l < j \<longrightarrow> lf l = 0" "i \<le> l" "l < j" for j l
      using 3(2) that by (cases "l = i") auto
    show ?thesis
    proof (cases "scan_leaf len lf (i + 1)")
      case None
      then show ?thesis unfolding un using "1.IH"[OF 3(1)] 3(2) ext[of len] by auto
    next
      case (Some v)
      then obtain j where "v \<noteq> 0" "i + 1 \<le> j" "j < len" "lf j = v" "\<forall>l. i + 1 \<le> l \<and> l < j \<longrightarrow> lf l = 0"
        using "1.IH"[OF 3(1)] 3(2) by auto
      then have "i \<le> j \<and> j < len \<and> lf j = v \<and> (\<forall>l. i \<le> l \<and> l < j \<longrightarrow> lf l = 0)" using ext[of j] by auto
      then show ?thesis unfolding un Some using \<open>v \<noteq> 0\<close> by auto
    qed
  qed (auto simp: scan_leaf.simps)
qed

text \<open>The keys of one leaf.\<close>

lemma leaf_key: "i2 < L \<Longrightarrow> (i1 * L + i2) div L = i1 \<and> (i1 * L + i2) mod L = (i2::nat)"
  by (cases "L = 0") auto

lemma same_leaf:
  assumes "k \<le> j" and "j < (k div L + 1) * (L::nat)" shows "j div L = k div L" and "k mod L \<le> j mod L"
proof -
  have "k div L \<le> j div L" using assms(1) by (rule div_le_mono)
  moreover have "j div L < k div L + 1" using assms(2) by (rule less_mult_imp_div_less)
  ultimately show "j div L = k div L" by simp
  then show "k mod L \<le> j mod L" using assms(1) by (metis div_mult_mod_eq add_le_cancel_left)
qed

lemma leaf_step:
  assumes leaf: "\<forall>j. j div L = k div L \<longrightarrow> g j = lf (j mod L)" and "0 < L"
    and cont: "scan_leaf L lf (k mod L) = None \<longrightarrow> first_from g ((k div L + 1) * L) w"
  shows "first_from g k (case scan_leaf L lf (k mod L) of Some v \<Rightarrow> v | None \<Rightarrow> w)"
proof (cases "scan_leaf L lf (k mod L)")
  case None
  then have z: "\<forall>j. k mod L \<le> j \<and> j < L \<longrightarrow> lf j = 0" using scan_leaf_spec[where len = L and lf = lf and i = "k mod L"] by simp
  have "first_from g k w"
  proof (rule first_from_skip[OF _ _ cont[rule_format, OF None]])
    show "g i = 0" if "k \<le> i" "i < (k div L + 1) * L" for i
      using same_leaf[OF that] leaf z assms(2) by simp
    show "k \<le> (k div L + 1) * L" using dividend_less_div_times[OF assms(2), of k] by (simp add: algebra_simps)
  qed
  then show ?thesis using None by simp
next
  case (Some v)
  then obtain j where j: "v \<noteq> 0" "k mod L \<le> j" "j < L" "lf j = v" "\<forall>l. k mod L \<le> l \<and> l < j \<longrightarrow> lf l = 0"
    using scan_leaf_spec[where len = L and lf = lf and i = "k mod L"] by auto
  let ?j = "k div L * L + j"
  have jd: "?j div L = k div L" "?j mod L = j" using leaf_key[OF j(3)] by auto
  have "k \<le> ?j" using j(2) by (metis div_mult_mod_eq add_le_cancel_left)
  moreover have "g ?j = v" using leaf jd j(4) by simp
  moreover have "g i = 0" if "k \<le> i" "i < ?j" for i
  proof -
    have "i < (k div L + 1) * L" using that(2) j(3) by simp
    note s = same_leaf[OF that(1) this]
    have "i mod L < j" using that(2) s(1) by (metis div_mult_mod_eq add_less_cancel_left)
    then show ?thesis using leaf s j(5) by simp
  qed
  ultimately show ?thesis using Some j(1) unfolding first_from_def by auto
qed

lemma Next1_first: "first_from (get1 b arr) k (Next1 b arr k)"
proof (induction b arr k rule: Next1.induct)
  case (1 b arr k)
  consider "2 ^ b \<le> k" | "k < 2 ^ b" "arr k \<noteq> 0" | "k < 2 ^ b" "arr k = 0" by linarith
  then show ?case
  proof cases
    case 1
    then show ?thesis by (auto simp: Next1.simps get1_def div_greater_zero_iff intro!: first_from_end)
  next
    case 2
    moreover from this have "get1 b arr k = arr k" by (simp add: get1_def)
    ultimately show ?thesis using first_from_here[of "get1 b arr" k] by (simp add: Next1.simps)
  next
    case 3
    have "get1 b arr i = 0" if "k \<le> i" "i < k + 1" for i using that 3 by (cases "i = k") (auto simp: get1_def)
    then show ?thesis using first_from_skip[OF _ _ "1.IH"[OF 3(1)]] 3 by (subst Next1.simps) auto
  qed
qed

lemma set1_law: "k < 2 ^ b \<Longrightarrow> set1 b k v s = Inr (s(k := v)) \<and> get1 b (s(k := v)) = (get1 b s)(k := v)"
  by (auto simp: get1_def set1_def fun_eq_iff)

interpretation map1: page_map "get1 b" "set1 b" "\<lambda>_ k. k < 2 ^ b" "Next1 b" for b
proof unfold_locales
  show "\<exists>s'. set1 b k v s = Inr s' \<and> get1 b s' = (get1 b s)(k := v) \<and> (\<lambda>k. k < 2 ^ b) = (\<lambda>k. k < 2 ^ b)"
    if "k < 2 ^ b" for s k v using set1_law[OF that] by blast
qed (simp_all add: get1_def div_greater_zero_iff Next1_first)

definition ready2 :: "nat \<Rightarrow> root2 \<Rightarrow> nat \<Rightarrow> bool" where
  "ready2 b root k \<longleftrightarrow> k < 2 ^ b \<and> root (k div 2 ^ LEAF_BITS2 b) \<noteq> None"

lemma key2_bound:
  assumes "ROOT_BITS \<le> b" shows "(k::nat) div 2 ^ LEAF_BITS2 b < 2 ^ ROOT_BITS \<longleftrightarrow> k < 2 ^ b"
proof -
  have "(2::nat) ^ b = 2 ^ ROOT_BITS * 2 ^ LEAF_BITS2 b" using assms by (simp add: LEAF_BITS2_def flip: power_add)
  then show ?thesis by (simp add: div_less_iff_less_mult)
qed

lemma div_mod_inj: "k div L = k' div L \<Longrightarrow> k mod L = k' mod L \<Longrightarrow> k = (k'::nat)"
  by (metis div_mult_mod_eq)

lemma Next2_first: "ROOT_BITS \<le> b \<Longrightarrow> first_from (get2 b root) k (Next2 b root k)"
proof (induction b root k rule: Next2.induct)
  case (1 b root k)
  let ?L = "2 ^ LEAF_BITS2 b :: nat"
  let ?n = "(k div ?L + 1) * ?L"
  have top: "(2::nat) ^ b = 2 ^ ROOT_BITS * ?L" using "1.prems" by (simp add: LEAF_BITS2_def flip: power_add)
  show ?case
  proof (cases "k < 2 ^ b")
    case False
    then show ?thesis by (auto simp: Next2.simps get2_def Let_def div_greater_zero_iff intro!: first_from_end)
  next
    case True
    have range: "j < 2 ^ b" if "j div ?L = k div ?L" for j
      using that key2_bound[OF "1.prems", of j] key2_bound[OF "1.prems", of k] True by simp
    show ?thesis
    proof (cases "root (k div ?L)")
      case None
      have "get2 b root i = 0" if "k \<le> i" "i < ?n" for i
        using same_leaf[OF that] None by (simp add: get2_def Let_def)
      then have "first_from (get2 b root) k (Next2 b root ?n)"
        using first_from_skip[OF _ _ "1.IH"(1)[OF True refl refl None "1.prems"]] next_leaf_gt[of k "LEAF_BITS2 b"] by simp
      then show ?thesis using True None by (subst Next2.simps) simp
    next
      case (Some lf)
      have leaf: "\<forall>j. j div ?L = k div ?L \<longrightarrow> get2 b root j = lf (j mod ?L)"
        using Some range by (auto simp: get2_def Let_def div_greater_zero_iff)
      have un: "Next2 b root k = (case scan_leaf ?L lf (k mod ?L) of Some v \<Rightarrow> v | None \<Rightarrow> Next2 b root ?n)"
        using True Some by (subst Next2.simps) (simp add: Let_def split: option.split)
      show ?thesis unfolding un
        using "1.IH"(2)[OF True refl refl Some _ "1.prems"] by (intro leaf_step[OF leaf]) simp_all
    qed
  qed
qed
lemma set2_law:
  assumes "ROOT_BITS \<le> b" and "ready2 b root k"
  shows "\<exists>root'. set2 b k v root = Inr root' \<and> get2 b root' = (get2 b root)(k := v) \<and> ready2 b root' = ready2 b root"
proof -
  let ?L = "2 ^ LEAF_BITS2 b :: nat"
  obtain lf where lf: "root (k div ?L) = Some lf" "k < 2 ^ b" using assms(2) by (auto simp: ready2_def)
  let ?r = "root(k div ?L \<mapsto> lf(k mod ?L := v))"
  have "set2 b k v root = Inr ?r" using lf key2_bound[OF assms(1), of k] by (simp add: set2_def Let_def)
  moreover have "get2 b ?r = (get2 b root)(k := v)"
    using lf div_mod_inj[of _ ?L k] by (intro ext) (auto simp: get2_def Let_def)
  moreover have "ready2 b ?r = ready2 b root" using lf by (intro ext) (auto simp: ready2_def)
  ultimately show ?thesis by blast
qed

interpretation map2: page_map "get2 19" "set2 19" "ready2 19" "Next2 19"
  by unfold_locales
    (auto simp: set2_law Next2_first ROOT_BITS_def ready2_def get2_def Let_def div_greater_zero_iff)

subsubsection \<open>The three-level map\<close>

definition ready3 :: "nat \<Rightarrow> root3 \<Rightarrow> nat \<Rightarrow> bool" where
  "ready3 b root k \<longleftrightarrow> k < 2 ^ b \<and>
     (\<exists>r nd. root = Some r \<and> r (key3_1 b k) = Some nd \<and> nd (key3_2 b k) \<noteq> None)"

definition view3 :: "nat \<Rightarrow> root3 \<Rightarrow> nat \<Rightarrow> nat" where
  "view3 b root k = (case get3 b root k of Inl _ \<Rightarrow> 0 | Inr v \<Rightarrow> v)"

definition walk3 :: "nat \<Rightarrow> root3 \<Rightarrow> nat \<Rightarrow> nat" where
  "walk3 b root k = (case root of None \<Rightarrow> 0 | Some r \<Rightarrow> Next3 b r k)"

lemma key3_12: "k div 2 ^ LEAF_BITS3 b = key3_1 b k * 2 ^ INTERIOR_BITS b + key3_2 b k"
  unfolding key3_1_def key3_2_def power_add div_mult2_eq by (rule div_mult_mod_eq[symmetric])

lemma key3_inj:
  assumes "key3_1 b k = key3_1 b k'" and "key3_2 b k = key3_2 b k'" and "key3_3 b k = key3_3 b k'" shows "k = k'"
  by (rule div_mod_inj[of _ "2 ^ LEAF_BITS3 b"]) (use assms in \<open>simp_all add: key3_12 flip: key3_3_def\<close>)

lemma key3_same_leaf:
  "j div 2 ^ LEAF_BITS3 b = k div 2 ^ LEAF_BITS3 b \<Longrightarrow> key3_1 b j = key3_1 b k \<and> key3_2 b j = key3_2 b k"
  by (simp add: key3_1_def key3_2_def power_add div_mult2_eq)

lemma set3_law:
  assumes "ready3 b root k"
  shows "\<exists>root'. set3 b k v root = Inr root' \<and> view3 b root' = (view3 b root)(k := v) \<and> ready3 b root' = ready3 b root"
proof -
  obtain r nd lf where r: "root = Some r" "r (key3_1 b k) = Some nd" "nd (key3_2 b k) = Some lf" "k < 2 ^ b"
    using assms by (auto simp: ready3_def)
  let ?r = "Some (r(key3_1 b k \<mapsto> nd(key3_2 b k \<mapsto> lf(key3_3 b k := v))))"
  have "set3 b k v root = Inr ?r" using r by (simp add: set3_def)
  moreover have "view3 b ?r j = ((view3 b root)(k := v)) j" for j
    using r key3_inj[of b j k] by (cases "j = k") (auto simp: view3_def get3_def)
  moreover have "ready3 b ?r j = ready3 b root j" for j using r by (auto simp: ready3_def)
  ultimately show ?thesis by (intro exI[of _ ?r]) (simp add: fun_eq_iff)
qed

lemma leaf_in_range:
  assumes "j div 2 ^ l = k div 2 ^ l" and "k < 2 ^ b" and "l \<le> b" shows "j < (2::nat) ^ b"
proof -
  have "(2::nat) ^ b = 2 ^ (b - l) * 2 ^ l" using assms(3) by (simp flip: power_add)
  then show ?thesis using assms(1,2) by (metis div_less_iff_less_mult zero_less_numeral zero_less_power)
qed

lemma Next3_first: "first_from (view3 b (Some r)) k (Next3 b r k)"
proof (induction b r k rule: Next3.induct)
  case (1 b r k)
  let ?L = "2 ^ LEAF_BITS3 b :: nat"
  show ?case
  proof (cases "k < 2 ^ b")
    case False
    then show ?thesis
      by (auto simp: Next3.simps view3_def get3_def div_greater_zero_iff intro!: first_from_end)
  next
    case True
    show ?thesis
    proof (cases "r (key3_1 b k)")
      case None
      let ?n = "(key3_1 b k + 1) * 2 ^ (LEAF_BITS3 b + INTERIOR_BITS b)"
      have "view3 b (Some r) i = 0" if "k \<le> i" "i < ?n" for i
        using same_leaf(1)[OF that(1), of "2 ^ (LEAF_BITS3 b + INTERIOR_BITS b)"] that(2) None
        by (simp add: view3_def get3_def key3_1_def)
      moreover have "k \<le> ?n" using next_leaf_gt[of k "LEAF_BITS3 b + INTERIOR_BITS b"] by (simp add: key3_1_def)
      ultimately have "first_from (view3 b (Some r)) k (Next3 b r ?n)"
        using first_from_skip[OF _ _ "1.IH"(1)[OF True None]] by blast
      then show ?thesis using True None by (subst Next3.simps) simp
    next
      case (Some nd)
      let ?lf = "case nd (key3_2 b k) of None \<Rightarrow> (\<lambda>_. 0) | Some lf \<Rightarrow> lf"
      let ?n = "(k div ?L + 1) * ?L"
      have leaf: "\<forall>j. j div ?L = k div ?L \<longrightarrow> view3 b (Some r) j = ?lf (j mod ?L)"
      proof (intro allI impI)
        fix j assume j: "j div ?L = k div ?L"
        have "j < 2 ^ b" using leaf_in_range[OF j True] by (simp add: LEAF_BITS3_def)
        then show "view3 b (Some r) j = ?lf (j mod ?L)" using key3_same_leaf[OF j] Some
          by (auto simp: view3_def get3_def key3_3_def split: option.splits)
      qed
      have scan0: "scan_leaf ?L (\<lambda>_. 0) i = None" for i
        using scan_leaf_spec[where len = ?L and lf = "\<lambda>_. 0" and i = i] by (auto split: option.splits)
      have un: "Next3 b r k = (case scan_leaf ?L ?lf (k mod ?L) of Some v \<Rightarrow> v | None \<Rightarrow> Next3 b r ?n)"
        using True Some scan0 by (subst Next3.simps) (simp add: key3_3_def split: option.splits)
      show ?thesis unfolding un
      proof (rule leaf_step[OF leaf])
        show "scan_leaf ?L ?lf (k mod ?L) = None \<longrightarrow> first_from (view3 b (Some r)) ?n (Next3 b r ?n)"
          using "1.IH"(2)[OF True Some] by (auto simp: key3_3_def split: option.splits)
      qed simp
    qed
  qed
qed

interpretation map3: page_map "view3 35" "set3 35" "ready3 35" "walk3 35"
proof unfold_locales
  show "first_from (view3 35 s) k (walk3 35 s k)" for s k
  proof (cases s)
    case None
    then show ?thesis by (simp add: walk3_def view3_def get3_def first_from_def)
  next
    case (Some r)
    then show ?thesis using Next3_first[of 35 r k] by (simp add: walk3_def)
  qed
qed (auto simp: set3_law ready3_def view3_def get3_def div_greater_zero_iff split: option.splits)

subsection \<open>Ensure\<close>

lemma ready3_iff: "ready3 b (Some r) k \<longleftrightarrow> k < 2 ^ b \<and> (\<exists>nd. r (key3_1 b k) = Some nd \<and> nd (key3_2 b k) \<noteq> None)"
  by (auto simp: ready3_def)

lemma ensure_leaf_spec:
  assumes "ensure_leaf b al key (r, m) = (ok, r', m')"
  shows "view3 b (Some r') = view3 b (Some r)" and "ready3 b (Some r) k \<Longrightarrow> ready3 b (Some r') k"
    and "ok \<Longrightarrow> j div 2 ^ LEAF_BITS3 b = key div 2 ^ LEAF_BITS3 b \<Longrightarrow> j < 2 ^ b \<Longrightarrow> ready3 b (Some r') j"
    and "\<forall>sz m. fst (al sz m) \<Longrightarrow> ok"
proof -
  obtain nd m1 where cases: "(case r (key3_1 b key) of None \<Rightarrow> NewNode b al m | Some nd \<Rightarrow> (Some nd, m)) = (nd, m1)"
    by fastforce
  note un = assms[unfolded ensure_leaf_def prod.case cases]
  have n0: "r (key3_1 b key) = None \<Longrightarrow> nd = None \<or> nd = Some (\<lambda>_. None)"
    "r (key3_1 b key) = Some x \<Longrightarrow> nd = Some x" for x
    using cases by (auto simp: NewNode_def split: prod.splits if_splits)
  show "view3 b (Some r') = view3 b (Some r)"
    using un n0 by (intro ext) (auto simp: view3_def get3_def split: option.splits if_splits prod.splits)
  show "ready3 b (Some r) k \<Longrightarrow> ready3 b (Some r') k"
    using un n0 by (auto simp: ready3_iff split: option.splits if_splits prod.splits)
  show "ok \<Longrightarrow> j div 2 ^ LEAF_BITS3 b = key div 2 ^ LEAF_BITS3 b \<Longrightarrow> j < 2 ^ b \<Longrightarrow> ready3 b (Some r') j"
    using un key3_same_leaf[of j b key] by (auto simp: ready3_iff split: option.splits if_splits prod.splits)
  assume al: "\<forall>sz m. fst (al sz m)"
  have "nd \<noteq> None"
  proof (cases "r (key3_1 b key)")
    case None
    then show ?thesis using cases al[rule_format, of "8 * 2 ^ INTERIOR_BITS b" m]
      by (auto simp: NewNode_def split: prod.splits)
  qed (use n0(2) in auto)
  then show ok using un al by (auto split: option.splits if_splits prod.splits) (metis fst_conv)+
qed

lemma key3_1_bound: "2 * INTERIOR_BITS b \<le> b \<Longrightarrow> key3_1 b k < 2 ^ INTERIOR_BITS b \<longleftrightarrow> k < 2 ^ b"
proof -
  assume "2 * INTERIOR_BITS b \<le> b"
  then have "(2::nat) ^ b = 2 ^ INTERIOR_BITS b * 2 ^ (LEAF_BITS3 b + INTERIOR_BITS b)"
    by (simp add: LEAF_BITS3_def flip: power_add)
  then show ?thesis by (simp add: key3_1_def div_less_iff_less_mult)
qed

lemma Ensure3_spec:
  assumes "Ensure3 b al key end_key rm = (ok, r', m')" and "2 * INTERIOR_BITS b \<le> b"
  shows "view3 b (Some r') = view3 b (Some (fst rm)) \<and> (\<forall>k. ready3 b (Some (fst rm)) k \<longrightarrow> ready3 b (Some r') k) \<and>
    (ok \<longrightarrow> (\<forall>k. key \<le> k \<and> k \<le> end_key \<longrightarrow> ready3 b (Some r') k)) \<and>
    ((\<forall>sz m. fst (al sz m)) \<and> end_key < 2 ^ b \<longrightarrow> ok)"
  using assms
proof (induction b al key end_key rm rule: Ensure3.induct)
  case (1 b al key end_key rm)
  obtain r m where rm: "rm = (r, m)" by fastforce
  show ?case
  proof (cases "key \<le> end_key")
    case False
    then show ?thesis using "1.prems"(1) rm by (auto simp: Ensure3.simps)
  next
    case True
    obtain ok1 r1 m1 where e: "ensure_leaf b al key (r, m) = (ok1, r1, m1)" by (metis prod_cases3)
    note sp = ensure_leaf_spec[OF e]
    show ?thesis
    proof (cases "key3_1 b key < 2 ^ INTERIOR_BITS b")
      case False
      then have "2 ^ b \<le> key" using key3_1_bound[OF "1.prems"(2)] by (simp add: not_less)
      then show ?thesis using "1.prems"(1) rm True False by (simp add: Ensure3.simps)
    next
      case key: True
      have k2: "key3_2 b key < 2 ^ INTERIOR_BITS b" by (simp add: key3_2_def)
      show ?thesis
      proof (cases ok1)
        case False
        then have "ok = False" "r' = r1" using "1.prems"(1) rm True key k2 e by (simp_all add: Ensure3.simps)
        then show ?thesis using sp(1,2,4) False rm by auto
      next
        case ok1: True
        let ?n = "(key div 2 ^ LEAF_BITS3 b + 1) * 2 ^ LEAF_BITS3 b"
        have un: "Ensure3 b al ?n end_key (r1, m1) = (ok, r', m')"
          using "1.prems"(1) rm True key k2 e ok1 by (subst (asm) Ensure3.simps) simp
        have IH: "view3 b (Some r') = view3 b (Some r1)" "\<forall>k. ready3 b (Some r1) k \<longrightarrow> ready3 b (Some r') k"
          "ok \<longrightarrow> (\<forall>k. ?n \<le> k \<and> k \<le> end_key \<longrightarrow> ready3 b (Some r') k)"
          "(\<forall>sz m. fst (al sz m)) \<and> end_key < 2 ^ b \<longrightarrow> ok"
          using "1.IH"[OF True _ _ _ un "1.prems"(2)] key k2 e ok1 rm by auto
        have "ready3 b (Some r') k" if "key \<le> k" "k < ?n" for k
        proof -
          have s: "k div 2 ^ LEAF_BITS3 b = key div 2 ^ LEAF_BITS3 b" using same_leaf(1) that by blast
          have "key < 2 ^ b" using key key3_1_bound[OF "1.prems"(2)] by simp
          then have "k < 2 ^ b" using leaf_in_range[OF s] by (simp add: LEAF_BITS3_def)
          then show ?thesis using sp(3)[OF ok1 s] IH(2) by blast
        qed
        then have "ok \<longrightarrow> (\<forall>k. key \<le> k \<and> k \<le> end_key \<longrightarrow> ready3 b (Some r') k)" using IH(3) by (meson not_le)
        then show ?thesis using IH sp(1,2) rm by auto
      qed
    qed
  qed
qed

text \<open>What the allocator keeps, \<^verbatim>\<open>Ensure\<close> keeps.\<close>

lemma ensure_leaf_pres:
  assumes "\<forall>sz m. I m \<longrightarrow> I (snd (al sz m))" and "ensure_leaf b al key (r, m) = (ok, r', m')" and "I m"
  shows "I m'"
proof -
  obtain nd m1 where c: "(case r (key3_1 b key) of None \<Rightarrow> NewNode b al m | Some nd \<Rightarrow> (Some nd, m)) = (nd, m1)" by fastforce
  have "m1 = m \<or> m1 = snd (al (8 * 2 ^ INTERIOR_BITS b) m)"
    using c by (auto simp: NewNode_def split: option.splits prod.splits if_splits)
  then have i1: "I m1" using assms(1,3) by auto
  have "m' = m1 \<or> m' = snd (al (8 * 2 ^ LEAF_BITS3 b) m1)"
    using assms(2)[unfolded ensure_leaf_def prod.case c] by (auto split: option.splits prod.splits if_splits)
  then show ?thesis using assms(1) i1 by auto
qed

lemma Ensure3_pres:
  "Ensure3 b al key end_key rm = (ok, r', m') \<Longrightarrow> \<forall>sz m. I m \<longrightarrow> I (snd (al sz m)) \<Longrightarrow> I (snd rm) \<Longrightarrow> I m'"
proof (induction b al key end_key rm rule: Ensure3.induct)
  case (1 b al key end_key rm)
  obtain r m where rm: "rm = (r, m)" by fastforce
  obtain ok1 r1 m1 where e: "ensure_leaf b al key (r, m) = (ok1, r1, m1)" by (metis prod_cases3)
  have i1: "I m1" using ensure_leaf_pres[OF "1.prems"(2) e] "1.prems"(3) rm by simp
  let ?stop = "2 ^ INTERIOR_BITS b \<le> key3_1 b key \<or> 2 ^ INTERIOR_BITS b \<le> key3_2 b key"
  show ?case
  proof (cases "key \<le> end_key \<and> \<not> ?stop \<and> ok1")
    case True
    then have "Ensure3 b al ((key div 2 ^ LEAF_BITS3 b + 1) * 2 ^ LEAF_BITS3 b) end_key (r1, m1) = (ok, r', m')"
      using "1.prems"(1) rm e by (subst (asm) Ensure3.simps) simp
    then show ?thesis using "1.IH"[OF _ _ e[folded rm, symmetric] _ _ "1.prems"(2)] True i1 by simp
  next
    case False
    then have "m' = m \<or> m' = m1" using "1.prems"(1) rm e by (subst (asm) Ensure3.simps) (auto split: if_splits)
    then show ?thesis using i1 "1.prems"(3) rm by auto
  qed
qed

lemma last_key_eq: "0 < n \<Longrightarrow> start + n \<le> 2 ^ 64 \<Longrightarrow> last_key start n = start + n - 1"
proof -
  assume "0 < n" "start + n \<le> 2 ^ 64"
  then have "start + n + 2 ^ 64 - 1 = (start + n - 1) + 2 ^ 64" "start + n - 1 < 2 ^ 64" by simp_all
  then show ?thesis unfolding last_key_def by (metis mod_add_self2 mod_less)
qed

subsection \<open>The properties of the page maps\<close>




text \<open>C24: \<^verbatim>\<open>Ensure\<close> of the three-level map always ends; it changes no answer and keeps every ensured key ensured; when it
  returns true every key of the range is ensured, and it does so for every range of the map unless the
  allocation of a node fails.\<close>

theorem PageMap3_Ensure:
  assumes "Ensure3 b al start (last_key start n) (r, m) = (ok, r', m')" and "2 \<le> b" and "0 < n" and "start + n \<le> 2 ^ 64"
  shows "view3 b (Some r') = view3 b (Some r) \<and> (\<forall>k. ready3 b (Some r) k \<longrightarrow> ready3 b (Some r') k) \<and>
    (ok \<longrightarrow> (\<forall>k. start \<le> k \<and> k < start + n \<longrightarrow> ready3 b (Some r') k)) \<and>
    ((\<forall>sz m. fst (al sz m)) \<and> start + n \<le> 2 ^ b \<longrightarrow> ok)"
proof -
  have "2 * INTERIOR_BITS b \<le> b" using assms(2) unfolding INTERIOR_BITS_def by linarith
  then show ?thesis using Ensure3_spec[OF assms(1)] last_key_eq[OF assms(3,4)] assms(3) by (auto simp: Suc_le_eq)
qed

theorem PageMap3_Ensure_witness:
  "fst (Ensure3 35 (\<lambda>_ m. (True, m)) 4095 (last_key 4095 3) (\<lambda>_. None, ()))"
proof -
  obtain ok r' m' where e: "Ensure3 35 (\<lambda>_ m. (True, m)) 4095 (last_key 4095 3) (\<lambda>_. None, ()) = (ok, r', m')"
    by (metis prod_cases3)
  then show ?thesis using PageMap3_Ensure[OF e] by simp
qed

end
