(* ===== verification/PageHeap.thy ===== *)
theory PageHeap
  imports Complex_Main SizeMap Span PackedCache PageMap
begin

section \<open>The page heap (page_heap.h, page_heap.cc)\<close>

text \<open>
  \<^verbatim>\<open>class PageHeap\<close>.  A span is named by the address of its descriptor.  The free lists are the
  sequences that the theory of the span lists shows the pointer code to implement; the lists of
  \<^verbatim>\<open>free_[k]\<close> have index \<open>k\<close>, those of \<^verbatim>\<open>large_\<close> index \<^verbatim>\<open>kMaxPages\<close>.  \<open>pagetree\<close> is the
  root node of \<^verbatim>\<open>pagemap_\<close>, a \<^verbatim>\<open>TCMalloc_PageMap3<35>\<close>: setting the entry of a page whose node was never made by \<^verbatim>\<open>Ensure\<close> is the
  fault \<open>Segv\<close>.  The root node itself is taken as made by the constructor; \<^verbatim>\<open>PreallocateMoreMemory\<close> does nothing for this map.
  The statistics are integers; the page counts of \<^verbatim>\<open>EnsureLimit\<close> wrap at 64 bits.

  The heap calls the operating system, the allocator of span descriptors, the recorder of growth
  and the allocator of the nodes of the page map: these are the fields of \<open>penv\<close>, functions on a world \<open>'w\<close>, and
  the locale \<open>page_env\<close> says what the heap relies on.  \<^verbatim>\<open>tcmalloc_release_rate\<close> and \<^verbatim>\<open>tcmalloc_heap_limit_mb\<close>
  are fields of \<open>pflags\<close>; the rate is a rational number.  The loop of \<^verbatim>\<open>ReleaseAtLeastNPages\<close> and the
  retry of \<^verbatim>\<open>AllocLarge\<close> take fuel.
\<close>

record 'w penv =
  sys_alloc :: "nat \<Rightarrow> 'w \<Rightarrow> ((nat \<times> nat) option \<times> 'w) res"
  sys_release :: "nat \<Rightarrow> nat \<Rightarrow> 'w \<Rightarrow> bool \<times> 'w"
  sys_taken :: "'w \<Rightarrow> nat"
  span_new :: "'w \<Rightarrow> (nat \<times> 'w) res"
  span_delete :: "nat \<Rightarrow> 'w \<Rightarrow> 'w res"
  record_growth :: "nat \<Rightarrow> 'w \<Rightarrow> 'w res"
  map_alloc :: "'w res allocator"

record pflags =
  release_rate :: rat
  heap_limit_mb :: int

record 'w pageheap =
  spans :: "nat \<Rightarrow> span option"
  pagetree :: "nat \<Rightarrow> (nat \<Rightarrow> leaf option) option"
  pagemap_cache :: cache
  normal :: "nat \<Rightarrow> nat list"
  returned :: "nat \<Rightarrow> nat list"
  system_bytes :: int
  free_bytes :: int
  unmapped_bytes :: int
  committed_bytes :: int
  scavenge_counter :: int
  release_index :: nat
  aggressive_decommit :: bool
  world :: 'w

definition kMaxReleaseDelay :: int where "kMaxReleaseDelay = 2 ^ 20"
definition kDefaultReleaseDelay :: int where "kDefaultReleaseDelay = 2 ^ 18"
definition kMinSystemAlloc :: nat where "kMinSystemAlloc = kMaxPages"
definition kMaxValidPages :: nat where "kMaxValidPages = (2 ^ 64 - 1) div 2 ^ kPageShift"
definition kForcedCoalesceInterval :: int where "kForcedCoalesceInterval = 128 * 1024 * 1024"

definition new_PageHeap :: "'w \<Rightarrow> 'w pageheap" where
  "new_PageHeap w =
     \<lparr>spans = (\<lambda>_. None), pagetree = (\<lambda>_. None), pagemap_cache = Clear 35 64 0 (\<lambda>_. 0),
      normal = (\<lambda>_. []), returned = (\<lambda>_. []),
      system_bytes = 0, free_bytes = 0, unmapped_bytes = 0, committed_bytes = 0,
      scavenge_counter = 0, release_index = kMaxPages, aggressive_decommit = False, world = w\<rparr>"

definition GetDescriptor :: "nat \<Rightarrow> 'w pageheap \<Rightarrow> nat" where
  "GetDescriptor p h = view3 35 (Some (pagetree h)) p"

definition GetSizeClassIfCached :: "nat \<Rightarrow> 'w pageheap \<Rightarrow> nat" where
  "GetSizeClassIfCached p h = GetOrDefault 35 64 p 0 (pagemap_cache h)"

definition CacheSizeClass :: "nat \<Rightarrow> nat \<Rightarrow> 'w pageheap \<Rightarrow> 'w pageheap" where
  "CacheSizeClass p cl h = h\<lparr>pagemap_cache := Put 35 64 p cl (pagemap_cache h)\<rparr>"

definition SetAggressiveDecommit :: "bool \<Rightarrow> 'w pageheap \<Rightarrow> 'w pageheap" where
  "SetAggressiveDecommit b h = h\<lparr>aggressive_decommit := b\<rparr>"

definition get_span :: "'w pageheap \<Rightarrow> nat \<Rightarrow> span res" where
  "get_span h i = of_opt Segv (spans h i)"

definition put_span :: "nat \<Rightarrow> span \<Rightarrow> 'w pageheap \<Rightarrow> 'w pageheap" where
  "put_span i s h = h\<lparr>spans := (spans h)(i \<mapsto> s)\<rparr>"

definition bytes :: "nat \<Rightarrow> int" where "bytes n = int n * 2 ^ kPageShift"

text \<open>\<^verbatim>\<open>(span->length < kMaxPages) ? &free_[span->length] : &large_\<close>\<close>

definition list_of :: "nat \<Rightarrow> nat" where "list_of n = (if n < kMaxPages then n else kMaxPages)"

subsection \<open>Spans and free lists\<close>

definition alloc_span :: "'w penv \<Rightarrow> nat \<Rightarrow> nat \<Rightarrow> 'w pageheap \<Rightarrow> (nat \<times> 'w pageheap) res" where
  "alloc_span e p n h =
     bindR (span_new e (world h)) (\<lambda>(i, w). Inr (i, put_span i (NewSpan p n) (h\<lparr>world := w\<rparr>)))"

definition DeleteSpan :: "'w penv \<Rightarrow> nat \<Rightarrow> 'w pageheap \<Rightarrow> 'w pageheap res" where
  "DeleteSpan e i h =
     bindR (span_delete e i (world h)) (\<lambda>w. Inr (h\<lparr>spans := (spans h)(i := None), world := w\<rparr>))"

definition set_page :: "nat \<Rightarrow> nat \<Rightarrow> 'w pageheap \<Rightarrow> 'w pageheap res" where
  "set_page p i h = bindR (set3 35 p i (Some (pagetree h))) (\<lambda>r. bindR (of_opt Segv r) (\<lambda>t. Inr (h\<lparr>pagetree := t\<rparr>)))"

definition ensure_pages :: "'w penv \<Rightarrow> nat \<Rightarrow> nat \<Rightarrow> 'w pageheap \<Rightarrow> (bool \<times> 'w pageheap) res" where
  "ensure_pages e p n h =
     (case Ensure3 35 (map_alloc e) p (last_key p n) (pagetree h, Inr (world h)) of
        (ok, r, m) \<Rightarrow> bindR m (\<lambda>w. Inr (ok, h\<lparr>pagetree := r, world := w\<rparr>)))"

definition RecordSpan :: "nat \<Rightarrow> 'w pageheap \<Rightarrow> 'w pageheap res" where
  "RecordSpan i h =
     bindR (get_span h i) (\<lambda>s.
     bindR (set_page (start s) i h) (\<lambda>h.
       if 1 < len s then set_page (start s + len s - 1) i h else Inr h))"

definition PrependToFreeList :: "nat \<Rightarrow> 'w pageheap \<Rightarrow> 'w pageheap res" where
  "PrependToFreeList i h =
     bindR (get_span h i) (\<lambda>s.
       let k = list_of (len s) in
       Inr (if location s = ON_NORMAL_FREELIST
            then h\<lparr>free_bytes := free_bytes h + bytes (len s), normal := (normal h)(k := i # normal h k)\<rparr>
            else h\<lparr>unmapped_bytes := unmapped_bytes h + bytes (len s), returned := (returned h)(k := i # returned h k)\<rparr>))"

text \<open>The span is on the list that its location and length select.\<close>

definition RemoveFromFreeList :: "nat \<Rightarrow> 'w pageheap \<Rightarrow> 'w pageheap res" where
  "RemoveFromFreeList i h =
     bindR (get_span h i) (\<lambda>s.
       let k = list_of (len s) in
       Inr (if location s = ON_NORMAL_FREELIST
            then h\<lparr>free_bytes := free_bytes h - bytes (len s), normal := (normal h)(k := remove1 i (normal h k))\<rparr>
            else h\<lparr>unmapped_bytes := unmapped_bytes h - bytes (len s), returned := (returned h)(k := remove1 i (returned h k))\<rparr>))"

definition CommitSpan :: "nat \<Rightarrow> 'w pageheap \<Rightarrow> 'w pageheap res" where
  "CommitSpan i h = bindR (get_span h i) (\<lambda>s. Inr (h\<lparr>committed_bytes := committed_bytes h + bytes (len s)\<rparr>))"

definition DecommitSpan :: "'w penv \<Rightarrow> nat \<Rightarrow> 'w pageheap \<Rightarrow> (bool \<times> 'w pageheap) res" where
  "DecommitSpan e i h =
     bindR (get_span h i) (\<lambda>s.
       case sys_release e (start s * 2 ^ kPageShift) (len s * 2 ^ kPageShift) (world h) of (rv, w) \<Rightarrow>
         let h = h\<lparr>world := w\<rparr> in
         Inr (rv, if rv then h\<lparr>committed_bytes := committed_bytes h - bytes (len s)\<rparr> else h))"

definition MayMergeSpans :: "'w pageheap \<Rightarrow> span \<Rightarrow> span \<Rightarrow> bool" where
  "MayMergeSpans h sp other =
     (if aggressive_decommit h then location other \<noteq> IN_USE else location sp = location other)"

text \<open>The two coalescing steps of \<^verbatim>\<open>MergeIntoFreeList\<close>; the first component is \<^verbatim>\<open>temp_committed\<close>.\<close>

definition merge_prev :: "'w penv \<Rightarrow> nat \<Rightarrow> 'w pageheap \<Rightarrow> (int \<times> 'w pageheap) res" where
  "merge_prev e i h =
     bindR (get_span h i) (\<lambda>s.
       let prev = GetDescriptor (start s - 1) h in
       if prev = 0 then Inr (0, h)
       else bindR (get_span h prev) (\<lambda>t.
         if \<not> MayMergeSpans h s t then Inr (0, h)
         else
           let temp = (if aggressive_decommit h \<and> location t = ON_RETURNED_FREELIST then bytes (len t) else 0) in
           bindR (RemoveFromFreeList prev h) (\<lambda>h.
           bindR (DeleteSpan e prev h) (\<lambda>h.
             let s = s\<lparr>start := start s - len t, len := len s + len t\<rparr> in
             bindR (set_page (start s) i (put_span i s h)) (\<lambda>h. Inr (temp, h))))))"

definition merge_next :: "'w penv \<Rightarrow> nat \<Rightarrow> nat \<Rightarrow> int \<Rightarrow> 'w pageheap \<Rightarrow> (int \<times> 'w pageheap) res" where
  "merge_next e i pn temp h =
     bindR (get_span h i) (\<lambda>s.
       let nextp = GetDescriptor pn h in
       if nextp = 0 then Inr (temp, h)
       else bindR (get_span h nextp) (\<lambda>t.
         if \<not> MayMergeSpans h s t then Inr (temp, h)
         else
           let temp = (if aggressive_decommit h \<and> location t = ON_RETURNED_FREELIST then temp + bytes (len t) else temp) in
           bindR (RemoveFromFreeList nextp h) (\<lambda>h.
           bindR (DeleteSpan e nextp h) (\<lambda>h.
             let s = s\<lparr>len := len s + len t\<rparr> in
             bindR (set_page (start s + len s - 1) i (put_span i s h)) (\<lambda>h. Inr (temp, h))))))"

definition MergeIntoFreeList :: "'w penv \<Rightarrow> nat \<Rightarrow> 'w pageheap \<Rightarrow> 'w pageheap res" where
  "MergeIntoFreeList e i h =
     bindR (get_span h i) (\<lambda>s0.
     bindR (merge_prev e i h) (\<lambda>(temp, h).
     bindR (merge_next e i (start s0 + len s0) temp h) (\<lambda>(temp, h).
     bindR
       (if aggressive_decommit h then
          bindR (DecommitSpan e i h) (\<lambda>(rv, h).
            if rv then
              bindR (get_span h i) (\<lambda>s.
                Inr ((put_span i (s\<lparr>location := ON_RETURNED_FREELIST\<rparr>) h)
                       \<lparr>committed_bytes := committed_bytes h + temp\<rparr>))
            else Inr h)
        else Inr h)
       (PrependToFreeList i))))"

definition Carve :: "'w penv \<Rightarrow> nat \<Rightarrow> nat \<Rightarrow> 'w pageheap \<Rightarrow> (nat \<times> 'w pageheap) res" where
  "Carve e i n h =
     bindR (get_span h i) (\<lambda>s.
       let old_location = location s in
       bindR (RemoveFromFreeList i h) (\<lambda>h.
         let s = s\<lparr>location := IN_USE\<rparr>; h = put_span i s h; extra = len s - n in
         bindR
           (if 0 < extra then
              bindR (alloc_span e (start s + n) extra h) (\<lambda>(j, h).
              bindR (get_span h j) (\<lambda>l.
                let h = put_span j (l\<lparr>location := old_location\<rparr>) h in
                bindR (RecordSpan j h) (\<lambda>h.
                bindR (PrependToFreeList j h) (\<lambda>h.
                  set_page (start s + n - 1) i (put_span i (s\<lparr>len := n\<rparr>) h)))))
            else Inr h)
           (\<lambda>h. if old_location = ON_RETURNED_FREELIST
                then bindR (CommitSpan i h) (\<lambda>h. Inr (i, h)) else Inr (i, h))))"

definition Split :: "'w penv \<Rightarrow> nat \<Rightarrow> nat \<Rightarrow> 'w pageheap \<Rightarrow> (nat \<times> 'w pageheap) res" where
  "Split e i n h =
     bindR (get_span h i) (\<lambda>s.
       let extra = len s - n in
       bindR (alloc_span e (start s + n) extra h) (\<lambda>(j, h).
       bindR (RecordSpan j h) (\<lambda>h.
       bindR (set_page (start s + n - 1) i h) (\<lambda>h.
         Inr (j, put_span i (s\<lparr>len := n\<rparr>) h)))))"

subsection \<open>Releasing memory to the system\<close>

definition ReleaseLastNormalSpan :: "'w penv \<Rightarrow> nat \<Rightarrow> 'w pageheap \<Rightarrow> (nat \<times> 'w pageheap) res" where
  "ReleaseLastNormalSpan e k h =
     (let i = last (normal h k) in
      bindR (DecommitSpan e i h) (\<lambda>(rv, h).
        if rv then
          bindR (RemoveFromFreeList i h) (\<lambda>h.
          bindR (get_span h i) (\<lambda>s.
          bindR (MergeIntoFreeList e i (put_span i (s\<lparr>location := ON_RETURNED_FREELIST\<rparr>) h)) (\<lambda>h.
            Inr (len s, h))))
        else Inr (0, h)))"

text \<open>One pass over the lists, \<open>n\<close> of them left; the first component tells that the release failed.\<close>

fun release_pass :: "'w penv \<Rightarrow> nat \<Rightarrow> nat \<Rightarrow> nat \<Rightarrow> 'w pageheap \<Rightarrow> (bool \<times> nat \<times> 'w pageheap) res" where
  "release_pass e 0 num_pages released h = Inr (False, released, h)"
| "release_pass e (Suc n) num_pages released h =
     (if released < num_pages then
        let h = (if kMaxPages < release_index h then h\<lparr>release_index := 0\<rparr> else h); k = release_index h in
        if normal h k \<noteq> [] then
          bindR (ReleaseLastNormalSpan e k h) (\<lambda>(released_len, h).
            if released_len = 0 then Inr (True, released, h)
            else release_pass e n num_pages (released + released_len) (h\<lparr>release_index := release_index h + 1\<rparr>))
        else release_pass e n num_pages released (h\<lparr>release_index := release_index h + 1\<rparr>)
      else Inr (False, released, h))"

fun release_loop :: "'w penv \<Rightarrow> nat \<Rightarrow> nat \<Rightarrow> nat \<Rightarrow> 'w pageheap \<Rightarrow> (nat \<times> 'w pageheap) res" where
  "release_loop e 0 num_pages released h = Inl Diverge"
| "release_loop e (Suc fuel) num_pages released h =
     (if released < num_pages \<and> 0 < free_bytes h then
        bindR (release_pass e (kMaxPages + 1) num_pages released h) (\<lambda>(stop, released, h).
          if stop then Inr (released, h) else release_loop e fuel num_pages released h)
      else Inr (released, h))"

definition ReleaseAtLeastNPages :: "'w penv \<Rightarrow> nat \<Rightarrow> nat \<Rightarrow> 'w pageheap \<Rightarrow> (nat \<times> 'w pageheap) res" where
  "ReleaseAtLeastNPages e fuel num_pages h = release_loop e fuel num_pages 0 h"

definition IncrementalScavenge :: "'w penv \<Rightarrow> pflags \<Rightarrow> nat \<Rightarrow> nat \<Rightarrow> 'w pageheap \<Rightarrow> 'w pageheap res" where
  "IncrementalScavenge e fl fuel n h =
     (let h = h\<lparr>scavenge_counter := scavenge_counter h - int n\<rparr> in
      if 0 \<le> scavenge_counter h then Inr h
      else if release_rate fl \<le> 1 / 10 ^ 6 then Inr (h\<lparr>scavenge_counter := kDefaultReleaseDelay\<rparr>)
      else
        bindR (ReleaseAtLeastNPages e fuel 1 h) (\<lambda>(released_pages, h).
          if released_pages = 0 then Inr (h\<lparr>scavenge_counter := kDefaultReleaseDelay\<rparr>)
          else
            let mult = 1000 / release_rate fl;
                wait = mult * of_nat released_pages;
                wait = (if of_int kMaxReleaseDelay < wait then of_int kMaxReleaseDelay else wait)
            in Inr (h\<lparr>scavenge_counter := \<lfloor>wait\<rfloor>\<rparr>)))"

definition Delete :: "'w penv \<Rightarrow> pflags \<Rightarrow> nat \<Rightarrow> nat \<Rightarrow> 'w pageheap \<Rightarrow> 'w pageheap res" where
  "Delete e fl fuel i h =
     bindR (get_span h i) (\<lambda>s.
       let n = len s; s = s\<lparr>sizeclass := 0, sample := False, location := ON_NORMAL_FREELIST\<rparr> in
       bindR (MergeIntoFreeList e i (put_span i s h)) (IncrementalScavenge e fl fuel n))"

definition wrap64 :: "int \<Rightarrow> nat" where "wrap64 x = nat (x mod 2 ^ 64)"

definition EnsureLimit :: "'w penv \<Rightarrow> pflags \<Rightarrow> nat \<Rightarrow> nat \<Rightarrow> bool \<Rightarrow> 'w pageheap \<Rightarrow> (bool \<times> 'w pageheap) res" where
  "EnsureLimit e fl fuel n withRelease h =
     (let limit = wrap64 (heap_limit_mb fl * 1024 * 1024 div 2 ^ kPageShift) in
      if limit = 0 then Inr (True, h)
      else
        let takenPages = wrap64 (int (sys_taken e (world h) div 2 ^ kPageShift) - unmapped_bytes h div 2 ^ kPageShift) in
        bindR
          (if limit < wrap64 (int takenPages + int n) \<and> withRelease then
             bindR (ReleaseAtLeastNPages e fuel (wrap64 (int takenPages + int n - int limit)) h) (\<lambda>(r, h).
               Inr (wrap64 (int takenPages - int r), h))
           else Inr (takenPages, h))
          (\<lambda>(takenPages, h). Inr (wrap64 (int takenPages + int n) \<le> limit, h)))"

subsection \<open>Allocation\<close>

text \<open>The best fit in a list of spans, by length and then by address, starting from \<open>best\<close> (0 for none).\<close>

fun best_fit :: "'w pageheap \<Rightarrow> nat \<Rightarrow> nat list \<Rightarrow> nat \<Rightarrow> nat res" where
  "best_fit h n [] best = Inr best"
| "best_fit h n (i # is) best =
     bindR (get_span h i) (\<lambda>s.
       if n \<le> len s then
         if best = 0 then best_fit h n is i
         else bindR (get_span h best) (\<lambda>b.
           best_fit h n is (if len s < len b \<or> len s = len b \<and> start s < start b then i else best))
       else best_fit h n is best)"

fun AllocLarge :: "'w penv \<Rightarrow> pflags \<Rightarrow> nat \<Rightarrow> nat \<Rightarrow> nat \<Rightarrow> 'w pageheap \<Rightarrow> (nat \<times> 'w pageheap) res" where
  "AllocLarge e fl rfuel 0 n h = Inl Diverge"
| "AllocLarge e fl rfuel (Suc fuel) n h =
     bindR (best_fit h n (normal h kMaxPages) 0) (\<lambda>bestNormal.
     bindR (best_fit h n (returned h kMaxPages) bestNormal) (\<lambda>best.
       if best = bestNormal then (if best = 0 then Inr (0, h) else Carve e best n h)
       else
         bindR (EnsureLimit e fl rfuel n False h) (\<lambda>(ok, h).
           if ok then Carve e best n h
           else
             bindR (EnsureLimit e fl rfuel n True h) (\<lambda>(ok, h).
               if ok then AllocLarge e fl rfuel fuel n h else Inr (0, h)))))"

text \<open>The search through the exact-size lists from length \<open>s\<close> on, \<open>m\<close> lists left.\<close>

fun search_lists :: "'w penv \<Rightarrow> pflags \<Rightarrow> nat \<Rightarrow> nat \<Rightarrow> nat \<Rightarrow> nat \<Rightarrow> 'w pageheap \<Rightarrow> (nat \<times> 'w pageheap) res" where
  "search_lists e fl rfuel 0 s n h = AllocLarge e fl rfuel rfuel n h"
| "search_lists e fl rfuel (Suc m) s n h =
     (if normal h s \<noteq> [] then Carve e (hd (normal h s)) n h
      else if returned h s \<noteq> [] then
        bindR (EnsureLimit e fl rfuel n True h) (\<lambda>(ok, h).
          if ok \<and> returned h s \<noteq> [] then Carve e (hd (returned h s)) n h
          else search_lists e fl rfuel m (s + 1) n h)
      else search_lists e fl rfuel m (s + 1) n h)"

definition SearchFreeAndLargeLists :: "'w penv \<Rightarrow> pflags \<Rightarrow> nat \<Rightarrow> nat \<Rightarrow> 'w pageheap \<Rightarrow> (nat \<times> 'w pageheap) res" where
  "SearchFreeAndLargeLists e fl fuel n h = search_lists e fl fuel (kMaxPages - n) n n h"

definition GrowHeap :: "'w penv \<Rightarrow> pflags \<Rightarrow> nat \<Rightarrow> nat \<Rightarrow> 'w pageheap \<Rightarrow> (bool \<times> 'w pageheap) res" where
  "GrowHeap e fl fuel n h =
     (if kMaxValidPages < n then Inr (False, h)
      else
        let ask = (if kMinSystemAlloc < n then n else kMinSystemAlloc);
            try_alloc = (\<lambda>ask h.
              bindR (EnsureLimit e fl fuel ask True h) (\<lambda>(ok, h).
                if ok then bindR (sys_alloc e (ask * 2 ^ kPageShift) (world h)) (\<lambda>(r, w). Inr (r, h\<lparr>world := w\<rparr>))
                else Inr (None, h)))
        in
        bindR (try_alloc ask h) (\<lambda>(r, h).
        bindR (if r = None \<and> n < ask then try_alloc n h else Inr (r, h)) (\<lambda>(r, h).
          case r of
            None \<Rightarrow> Inr (False, h)
          | Some (ptr, actual_size) \<Rightarrow>
              let ask = actual_size div 2 ^ kPageShift in
              bindR (record_growth e (ask * 2 ^ kPageShift) (world h)) (\<lambda>w.
                let h = h\<lparr>world := w, system_bytes := system_bytes h + bytes ask,
                          committed_bytes := committed_bytes h + bytes ask\<rparr>;
                    p = ptr div 2 ^ kPageShift
                in bindR (ensure_pages e (p - 1) (ask + 2) h) (\<lambda>(ok, h).
                     if ok then
                       bindR (alloc_span e p ask h) (\<lambda>(i, h).
                       bindR (RecordSpan i h) (\<lambda>h.
                       bindR (Delete e fl fuel i h) (\<lambda>h. Inr (True, h))))
                     else Inr (False, h))))))"

definition New :: "'w penv \<Rightarrow> pflags \<Rightarrow> nat \<Rightarrow> nat \<Rightarrow> 'w pageheap \<Rightarrow> (nat \<times> 'w pageheap) res" where
  "New e fl fuel n h =
     bindR (SearchFreeAndLargeLists e fl fuel n h) (\<lambda>(result, h).
       if result \<noteq> 0 then Inr (result, h)
       else
         bindR
           (if free_bytes h \<noteq> 0 \<and> unmapped_bytes h \<noteq> 0 \<and> system_bytes h div 4 \<le> free_bytes h + unmapped_bytes h \<and>
               system_bytes h div kForcedCoalesceInterval \<noteq> (system_bytes h + bytes n) mod 2 ^ 64 div kForcedCoalesceInterval
            then bindR (ReleaseAtLeastNPages e fuel 0x7fffffff h) (\<lambda>(_, h). SearchFreeAndLargeLists e fl fuel n h)
            else Inr (0, h))
           (\<lambda>(result, h).
             if result \<noteq> 0 then Inr (result, h)
             else
               bindR (GrowHeap e fl fuel n h) (\<lambda>(ok, h).
                 if ok then SearchFreeAndLargeLists e fl fuel n h else Inr (0, h))))"

subsection \<open>Size classes, statistics and checks\<close>

fun set_pages :: "nat \<Rightarrow> nat \<Rightarrow> nat \<Rightarrow> 'w pageheap \<Rightarrow> 'w pageheap res" where
  "set_pages i p 0 h = Inr h"
| "set_pages i p (Suc n) h = bindR (set_page p i h) (set_pages i (p + 1) n)"

definition RegisterSizeClass :: "nat \<Rightarrow> nat \<Rightarrow> 'w pageheap \<Rightarrow> 'w pageheap res" where
  "RegisterSizeClass i sc h =
     bindR (get_span h i) (\<lambda>s.
       set_pages i (start s + 1) (len s - 2) (put_span i (s\<lparr>sizeclass := sc\<rparr>) h))"

definition GetSmallSpanStats :: "'w pageheap \<Rightarrow> (nat \<Rightarrow> nat) \<times> (nat \<Rightarrow> nat)" where
  "GetSmallSpanStats h = (\<lambda>s. length (normal h s), \<lambda>s. length (returned h s))"

fun sum_len :: "'w pageheap \<Rightarrow> nat list \<Rightarrow> nat res" where
  "sum_len h [] = Inr 0"
| "sum_len h (i # is) = bindR (get_span h i) (\<lambda>s. bindR (sum_len h is) (\<lambda>n. Inr (len s + n)))"

definition GetLargeSpanStats :: "'w pageheap \<Rightarrow> (nat \<times> nat \<times> nat) res" where
  "GetLargeSpanStats h =
     bindR (sum_len h (normal h kMaxPages)) (\<lambda>normal_pages.
     bindR (sum_len h (returned h kMaxPages)) (\<lambda>returned_pages.
       Inr (length (normal h kMaxPages) + length (returned h kMaxPages), normal_pages, returned_pages)))"

datatype range_type = INUSE | FREE | UNMAPPED | UNKNOWN

text \<open>The fraction in use is given by its numerator, in bytes, over the length.\<close>

definition GetNextRange ::
  "(nat \<Rightarrow> nat) \<Rightarrow> nat \<Rightarrow> 'w pageheap \<Rightarrow> (nat \<times> nat \<times> range_type \<times> nat) option res" where
  "GetNextRange class_size start_page h =
     (let sp = Next3 35 (pagetree h) start_page in
      if sp = 0 then Inr None
      else bindR (get_span h sp) (\<lambda>s.
        let l = len s * 2 ^ kPageShift in
        Inr (Some (start s * 2 ^ kPageShift, l,
          (case location s of IN_USE \<Rightarrow> INUSE | ON_NORMAL_FREELIST \<Rightarrow> FREE | ON_RETURNED_FREELIST \<Rightarrow> UNMAPPED),
          (if location s = IN_USE then if 0 < sizeclass s then class_size (sizeclass s) * refcount s else l else 0)))))"

fun CheckList :: "'w pageheap \<Rightarrow> nat list \<Rightarrow> nat \<Rightarrow> nat \<Rightarrow> location \<Rightarrow> unit res" where
  "CheckList h [] min_pages max_pages freelist = Inr ()"
| "CheckList h (i # is) min_pages max_pages freelist =
     bindR (get_span h i) (\<lambda>s.
       if location s \<noteq> freelist then Inl Crash
       else if len s < min_pages then Inl Crash
       else if max_pages < len s then Inl Crash
       else if GetDescriptor (start s) h \<noteq> i then Inl Crash
       else if GetDescriptor (start s + len s - 1) h \<noteq> i then Inl Crash
       else CheckList h is min_pages max_pages freelist)"

fun check_lists :: "'w pageheap \<Rightarrow> nat \<Rightarrow> nat \<Rightarrow> unit res" where
  "check_lists h s 0 = Inr ()"
| "check_lists h s (Suc n) =
     bindR (CheckList h (normal h s) s s ON_NORMAL_FREELIST) (\<lambda>_.
     bindR (CheckList h (returned h s) s s ON_RETURNED_FREELIST) (\<lambda>_. check_lists h (s + 1) n))"

definition CheckExpensive :: "'w pageheap \<Rightarrow> bool res" where
  "CheckExpensive h =
     bindR (CheckList h (normal h kMaxPages) kMaxPages 1000000000 ON_NORMAL_FREELIST) (\<lambda>_.
     bindR (CheckList h (returned h kMaxPages) kMaxPages 1000000000 ON_RETURNED_FREELIST) (\<lambda>_.
     bindR (check_lists h 1 (kMaxPages - 1)) (\<lambda>_. Inr True)))"

end
