(* ===== verification/CentralFreeList.thy ===== *)
theory CentralFreeList
  imports MetaPageTable PageHeap
begin

section \<open>The central free lists (central_freelist.h, central_freelist.cc)\<close>

text \<open>
  \<^verbatim>\<open>class CentralFreeList\<close>: for every size class the spans that are cut into objects of that class, and
  the transfer cache of whole lists of objects.  The spans belong to the page heap, the first word of every
  object to the store \<open>objs\<close>, and the table of metadata entries to \<open>meta\<close>: \<^verbatim>\<open>Populate\<close> gives every span
  of objects a second span for its metadata, and \<^verbatim>\<open>ReleaseToSpans\<close> returns both.  A central free list is
  modelled for a single thread: its lock is released around the calls of the page heap and taken again, and
  no other thread runs in between.

  \<open>c_fuel\<close> is the fuel of every loop that walks over spans or objects.
\<close>

record 'w cenv =
  c_env :: "'w penv"
  c_flags :: pflags
  c_fuel :: nat
  c_config :: config
  c_mmap :: mmap
  c_sizes :: SizeMap

record cfl =
  size_class :: nat
  empty_spans :: "nat list"
  nonempty_spans :: "nat list"
  num_spans :: nat
  counter :: int
  tc_slots :: "nat \<Rightarrow> nat \<times> nat"
  used_slots :: nat
  cache_size :: nat
  max_cache_size :: nat

record 'w central =
  heap :: "'w pageheap"
  meta :: metalloc
  objs :: store
  central_cache :: "nat \<Rightarrow> cfl"
  race_counter :: nat

definition kMaxNumTransferEntries :: nat where "kMaxNumTransferEntries = 64"

definition set_cfl :: "nat \<Rightarrow> cfl \<Rightarrow> 'w central \<Rightarrow> 'w central" where
  "set_cfl cl l st = st\<lparr>central_cache := (central_cache st)(cl := l)\<rparr>"

text \<open>\<open>tc_slots\<close> is not initialised: its old contents stay.  The division by \<^verbatim>\<open>bytes * objs_to_move\<close> traps at 0.\<close>

definition CentralFreeList_Init :: "SizeMap \<Rightarrow> nat \<Rightarrow> cfl \<Rightarrow> cfl res" where
  "CentralFreeList_Init sm cl l =
     (let l = l\<lparr>size_class := cl, empty_spans := [], nonempty_spans := [], num_spans := 0, counter := 0,
                max_cache_size := kMaxNumTransferEntries, cache_size := 16\<rparr> in
      bindR
        (if 0 < cl then
           let bytes = int (class_to_size sm cl); objs_to_move = num_objects_to_move sm cl in
           if bytes * objs_to_move = 0 then Inl Trap
           else
             let l = l\<lparr>max_cache_size := min (max_cache_size l) (nat (max 1 (1024 * 1024 div (bytes * objs_to_move))))\<rparr>
             in Inr (l\<lparr>cache_size := min (cache_size l) (max_cache_size l)\<rparr>)
         else Inr l)
        (\<lambda>l. Inr (l\<lparr>used_slots := 0\<rparr>)))"

definition MapObjectToSpan :: "nat \<Rightarrow> 'w pageheap \<Rightarrow> nat" where
  "MapObjectToSpan object h = GetDescriptor (object div 2 ^ kPageShift) h"

text \<open>A span is on one of the two lists of its class; \<^verbatim>\<open>DLL_Remove\<close> takes it off that list.\<close>

definition unlink_span :: "nat \<Rightarrow> cfl \<Rightarrow> cfl" where
  "unlink_span i l = l\<lparr>empty_spans := remove1 i (empty_spans l), nonempty_spans := remove1 i (nonempty_spans l)\<rparr>"

subsection \<open>The metadata of a span\<close>

text \<open>The second half of the allocation of a span of objects: a span for its metadata, \<open>2 ^ alignment\<close> bytes to a
  slot, and the entries of the page table.  Without a metadata span the first span goes back: the result is null.\<close>

definition span_entries :: "'w cenv \<Rightarrow> span \<Rightarrow> nat \<Rightarrow> nat \<Rightarrow> metalloc \<Rightarrow> metalloc res" where
  "span_entries ce s metaptr alignment m =
     set_metapagetable_entries (c_config ce) (c_mmap ce) (of_nat (start s * 2 ^ kPageShift)) (of_nat (len s * 2 ^ kPageShift))
       (of_nat metaptr) (of_nat alignment) m"

definition attach_metadata ::
  "'w cenv \<Rightarrow> nat \<Rightarrow> nat \<Rightarrow> 'w pageheap \<times> metalloc \<Rightarrow> (nat \<times> 'w pageheap \<times> metalloc) res" where
  "attach_metadata ce alignment i hm =
     (case hm of (h, m) \<Rightarrow>
        bindR (get_span h i) (\<lambda>s.
          let rounding_offset = 2 ^ alignment - 1 in
          bindR (New (c_env ce) (c_flags ce) (c_fuel ce)
                   ((len s * unat (metadataBytes (c_config ce)) + rounding_offset) div 2 ^ alignment) h) (\<lambda>(j, h).
            if j \<noteq> 0 then
              bindR (get_span h j) (\<lambda>t.
              bindR (span_entries ce s (start t * 2 ^ kPageShift) alignment m) (\<lambda>m. Inr (i, h, m)))
            else
              bindR (Delete (c_env ce) (c_flags ce) (c_fuel ce) i h) (\<lambda>h. Inr (0, h, m)))))"

text \<open>The first half of the release of a span of objects: its entries are set again, from the metadata pointer 0 and
  the alignment 0, and its metadata span goes back.\<close>

definition detach_metadata ::
  "'w cenv \<Rightarrow> nat \<Rightarrow> 'w pageheap \<times> metalloc \<Rightarrow> ('w pageheap \<times> metalloc) res" where
  "detach_metadata ce i hm =
     (case hm of (h, m) \<Rightarrow>
        bindR (get_span h i) (\<lambda>s.
        bindR (get_metapagetable_entry (c_config ce) (c_mmap ce) (of_nat (start s * 2 ^ kPageShift)) m) (\<lambda>(metaentry, m).
        bindR (span_entries ce s 0 0 m) (\<lambda>m.
        bindR (Delete (c_env ce) (c_flags ce) (c_fuel ce) (MapObjectToSpan (unat (drop_bit 8 metaentry)) h) h) (\<lambda>h.
          Inr (h, m))))))"

subsection \<open>Releasing objects\<close>

text \<open>\<^verbatim>\<open>refcount\<close> is a field of 16 bits.\<close>

definition ReleaseToSpans :: "'w cenv \<Rightarrow> nat \<Rightarrow> nat \<Rightarrow> 'w central \<Rightarrow> 'w central res" where
  "ReleaseToSpans ce cl object st =
     (let i = MapObjectToSpan object (heap st) in
      bindR (get_span (heap st) i) (\<lambda>s.
        let l = central_cache st cl;
            l = (if objects s = 0 then let l = unlink_span i l in l\<lparr>nonempty_spans := i # nonempty_spans l\<rparr> else l);
            l = l\<lparr>counter := counter l + 1\<rparr>;
            s = s\<lparr>refcount := (refcount s + 2 ^ 16 - 1) mod 2 ^ 16\<rparr>
        in if refcount s = 0 then
             let sz = class_to_size (c_sizes ce) (sizeclass s) in
             if sz = 0 then Inl Trap
             else
               let l = l\<lparr>counter := counter l - int (len s * 2 ^ kPageShift div sz)\<rparr>;
                   l = (unlink_span i l)\<lparr>num_spans := num_spans l - 1\<rparr>;
                   h = put_span i s (heap st)
               in bindR (if \<not> fixedCompression (c_config ce) then detach_metadata ce i (h, meta st) else Inr (h, meta st))
                    (\<lambda>(h, m). bindR (Delete (c_env ce) (c_flags ce) (c_fuel ce) i h) (\<lambda>h.
                       Inr (set_cfl cl l (st\<lparr>heap := h, meta := m\<rparr>))))
           else
             Inr (set_cfl cl l (st\<lparr>objs := (objs st)(object := objects s),
                                    heap := put_span i (s\<lparr>objects := object\<rparr>) (heap st)\<rparr>))))"

fun release_list :: "'w cenv \<Rightarrow> nat \<Rightarrow> nat \<Rightarrow> nat \<Rightarrow> 'w central \<Rightarrow> 'w central res" where
  "release_list ce 0 cl start_obj st = Inl Diverge"
| "release_list ce (Suc fuel) cl start_obj st =
     (if start_obj \<noteq> 0 then
        bindR (SLL_Next start_obj (objs st)) (\<lambda>next.
        bindR (ReleaseToSpans ce cl start_obj st) (\<lambda>st. release_list ce fuel cl next st))
      else Inr st)"

definition ReleaseListToSpans :: "'w cenv \<Rightarrow> nat \<Rightarrow> nat \<Rightarrow> 'w central \<Rightarrow> 'w central res" where
  "ReleaseListToSpans ce cl start_obj st = release_list ce (c_fuel ce) cl start_obj st"

subsection \<open>The transfer cache\<close>

definition ShrinkCache :: "'w cenv \<Rightarrow> nat \<Rightarrow> bool \<Rightarrow> 'w central \<Rightarrow> (bool \<times> 'w central) res" where
  "ShrinkCache ce cl force st =
     (let l = central_cache st cl in
      if cache_size l = 0 then Inr (False, st)
      else if \<not> force \<and> used_slots l = cache_size l then Inr (False, st)
      else if used_slots l = cache_size l then
        let l = l\<lparr>cache_size := cache_size l - 1, used_slots := used_slots l - 1\<rparr> in
        bindR (ReleaseListToSpans ce cl (fst (tc_slots l (used_slots l))) (set_cfl cl l st)) (\<lambda>st. Inr (True, st))
      else Inr (True, set_cfl cl (l\<lparr>cache_size := cache_size l - 1\<rparr>) st))"

definition EvictRandomSizeClass :: "'w cenv \<Rightarrow> nat \<Rightarrow> bool \<Rightarrow> 'w central \<Rightarrow> (bool \<times> 'w central) res" where
  "EvictRandomSizeClass ce locked_size_class force st =
     (let t = race_counter st;
          st = st\<lparr>race_counter := race_counter st + 1\<rparr>;
          (t, st) = (if kNumClasses \<le> t then (t mod kNumClasses, st\<lparr>race_counter := t mod kNumClasses\<rparr>) else (t, st))
      in if t = locked_size_class then Inr (False, st) else ShrinkCache ce t force st)"

definition MakeCacheSpace :: "'w cenv \<Rightarrow> nat \<Rightarrow> 'w central \<Rightarrow> (bool \<times> 'w central) res" where
  "MakeCacheSpace ce cl st =
     (let l = central_cache st cl in
      if used_slots l < cache_size l then Inr (True, st)
      else if cache_size l = max_cache_size l then Inr (False, st)
      else
        bindR (EvictRandomSizeClass ce (size_class l) False st) (\<lambda>(ok, st).
        bindR (if ok then Inr (True, st) else EvictRandomSizeClass ce (size_class l) True st) (\<lambda>(ok, st).
          let l = central_cache st cl in
          if ok \<and> cache_size l < max_cache_size l
          then Inr (True, set_cfl cl (l\<lparr>cache_size := cache_size l + 1\<rparr>) st)
          else Inr (False, st))))"

definition InsertRange :: "'w cenv \<Rightarrow> nat \<Rightarrow> nat \<Rightarrow> nat \<Rightarrow> nat \<Rightarrow> 'w central \<Rightarrow> 'w central res" where
  "InsertRange ce cl start_obj end_obj N st =
     bindR
       (if int N = num_objects_to_move (c_sizes ce) (size_class (central_cache st cl))
        then MakeCacheSpace ce cl st else Inr (False, st))
       (\<lambda>(room, st).
         if room then
           let l = central_cache st cl; slot = used_slots l in
           Inr (set_cfl cl (l\<lparr>used_slots := slot + 1, tc_slots := (tc_slots l)(slot := (start_obj, end_obj))\<rparr>) st)
         else ReleaseListToSpans ce cl start_obj st)"

subsection \<open>Fetching objects\<close>

text \<open>The walk of \<^verbatim>\<open>FetchFromOneSpans\<close>: the number of objects, the last of them and what follows it.\<close>

function fetch_walk :: "nat \<Rightarrow> nat \<Rightarrow> nat \<Rightarrow> store \<Rightarrow> (nat \<times> nat \<times> nat) res" where
  "fetch_walk N result prev m =
     bindR (SLL_Next prev m) (\<lambda>curr.
       if result + 1 < N \<and> curr \<noteq> 0 then fetch_walk N (result + 1) curr m else Inr (result + 1, prev, curr))"
  by pat_completeness auto

termination by (relation "measure (\<lambda>(N, result, prev, m). N - result)") auto

declare fetch_walk.simps [simp del]

definition FetchFromOneSpans :: "nat \<Rightarrow> nat \<Rightarrow> 'w central \<Rightarrow> (nat \<times> nat \<times> nat \<times> 'w central) res" where
  "FetchFromOneSpans cl N st =
     (let l = central_cache st cl in
      case nonempty_spans l of
        [] \<Rightarrow> Inr (0, 0, 0, st)
      | i # _ \<Rightarrow>
          bindR (get_span (heap st) i) (\<lambda>s.
          bindR (fetch_walk N 0 (objects s) (objs st)) (\<lambda>(result, prev, curr).
            let l = (if curr = 0 then let l = unlink_span i l in l\<lparr>empty_spans := i # empty_spans l\<rparr> else l);
                first = objects s;
                s = s\<lparr>objects := curr\<rparr>
            in bindR (SLL_SetNext prev 0 (objs st)) (\<lambda>m.
                 let s = s\<lparr>refcount := (refcount s + result) mod 2 ^ 16\<rparr>;
                     l = l\<lparr>counter := counter l - int result\<rparr>
                 in Inr (result, first, prev,
                      set_cfl cl l (st\<lparr>objs := m, heap := put_span i s (heap st)\<rparr>))))))"

text \<open>The loop that cuts a span into objects.  \<open>tail\<close> is where the next pointer goes: \<open>None\<close> is the field
  \<^verbatim>\<open>objects\<close> of the span, whose value is \<open>first\<close>; \<open>Some a\<close> is the first word of the object at \<open>a\<close>.\<close>

definition set_tail :: "nat option \<Rightarrow> nat \<Rightarrow> nat \<times> store \<Rightarrow> nat \<times> store" where
  "set_tail tail p fm = (case fm of (first, m) \<Rightarrow> case tail of None \<Rightarrow> (p, m) | Some a \<Rightarrow> (first, m(a := p)))"

fun cut_span :: "nat \<Rightarrow> nat \<Rightarrow> nat \<Rightarrow> nat \<Rightarrow> nat option \<Rightarrow> nat \<Rightarrow> nat \<times> store \<Rightarrow> (nat \<times> nat \<times> store) res" where
  "cut_span 0 sz limit ptr tail num fm = Inl Diverge"
| "cut_span (Suc fuel) sz limit ptr tail num fm =
     (if ptr + sz \<le> limit then cut_span fuel sz limit (ptr + sz) (Some ptr) (num + 1) (set_tail tail ptr fm)
      else Inr (num, set_tail tail 0 fm))"

fun cache_classes :: "nat \<Rightarrow> nat \<Rightarrow> nat \<Rightarrow> 'w pageheap \<Rightarrow> 'w pageheap" where
  "cache_classes p 0 cl h = h"
| "cache_classes p (Suc n) cl h = cache_classes (p + 1) n cl (CacheSizeClass p cl h)"

definition Populate :: "'w cenv \<Rightarrow> nat \<Rightarrow> 'w central \<Rightarrow> 'w central res" where
  "Populate ce cl st =
     (let sc = size_class (central_cache st cl); npages = class_to_pages (c_sizes ce) sc in
      bindR (New (c_env ce) (c_flags ce) (c_fuel ce) npages (heap st)) (\<lambda>(i, h).
      bindR
        (if i \<noteq> 0 then
           bindR (RegisterSizeClass i sc h) (\<lambda>h.
           bindR (page_table_init (c_config ce) (c_mmap ce) (meta st)) (\<lambda>m.
             if \<not> fixedCompression (c_config ce) then
               bindR (AlignmentBitsForSize (class_to_size (c_sizes ce) sc)) (\<lambda>alignment.
                 attach_metadata ce alignment i (h, m))
             else Inr (i, h, m)))
         else Inr (0, h, meta st))
        (\<lambda>(i, h, m).
          if i = 0 then Inr (st\<lparr>heap := h, meta := m\<rparr>)
          else
            bindR (get_span h i) (\<lambda>s.
              let h = cache_classes (start s) npages sc h;
                  ptr = start s * 2 ^ kPageShift;
                  limit = ptr + npages * 2 ^ kPageShift;
                  sz = class_to_size (c_sizes ce) sc
              in bindR (cut_span (c_fuel ce) sz limit ptr None 0 (objects s, objs st)) (\<lambda>(num, first, os).
                   let h = put_span i (s\<lparr>objects := first, refcount := 0\<rparr>) h;
                       l = central_cache st cl
                   in Inr (set_cfl cl (l\<lparr>nonempty_spans := i # nonempty_spans l, num_spans := num_spans l + 1,
                                          counter := counter l + int num\<rparr>)
                        (st\<lparr>heap := h, meta := m, objs := os\<rparr>)))))))"

definition FetchFromOneSpansSafe :: "'w cenv \<Rightarrow> nat \<Rightarrow> nat \<Rightarrow> 'w central \<Rightarrow> (nat \<times> nat \<times> nat \<times> 'w central) res" where
  "FetchFromOneSpansSafe ce cl N st =
     bindR (FetchFromOneSpans cl N st) (\<lambda>(result, start_obj, end_obj, st).
       if result = 0 then bindR (Populate ce cl st) (FetchFromOneSpans cl N)
       else Inr (result, start_obj, end_obj, st))"

function fetch_more :: "nat \<Rightarrow> nat \<Rightarrow> nat \<Rightarrow> nat \<Rightarrow> 'w central \<Rightarrow> (nat \<times> nat \<times> 'w central) res" where
  "fetch_more cl N result start_obj st =
     (if result < N then
        bindR (FetchFromOneSpans cl (N - result) st) (\<lambda>(n, head, tail, st).
          if n = 0 then Inr (result, start_obj, st)
          else bindR (SLL_PushRange head tail (start_obj, objs st)) (\<lambda>(start_obj, m).
            fetch_more cl N (result + n) start_obj (st\<lparr>objs := m\<rparr>)))
      else Inr (result, start_obj, st))"
  by pat_completeness auto

termination by (relation "measure (\<lambda>(cl, N, result, start_obj, st). N - result)") auto

declare fetch_more.simps [simp del]

definition RemoveRange :: "'w cenv \<Rightarrow> nat \<Rightarrow> nat \<Rightarrow> 'w central \<Rightarrow> (nat \<times> nat \<times> nat \<times> 'w central) res" where
  "RemoveRange ce cl N st =
     (let l = central_cache st cl in
      if int N = num_objects_to_move (c_sizes ce) (size_class l) \<and> 0 < used_slots l then
        let slot = used_slots l - 1; (head, tail) = tc_slots l slot in
        Inr (N, head, tail, set_cfl cl (l\<lparr>used_slots := slot\<rparr>) st)
      else
        bindR (FetchFromOneSpansSafe ce cl N st) (\<lambda>(result, start_obj, end_obj, st).
          if result \<noteq> 0 then
            bindR (fetch_more cl N result start_obj st) (\<lambda>(result, start_obj, st). Inr (result, start_obj, end_obj, st))
          else Inr (0, start_obj, end_obj, st)))"

subsection \<open>Statistics\<close>

definition tc_length :: "SizeMap \<Rightarrow> cfl \<Rightarrow> int" where
  "tc_length sm l = int (used_slots l) * num_objects_to_move sm (size_class l)"

definition OverheadBytes :: "SizeMap \<Rightarrow> cfl \<Rightarrow> nat res" where
  "OverheadBytes sm l =
     (if size_class l = 0 then Inr 0
      else
        let pages_per_span = class_to_pages sm (size_class l); object_size = class_to_size sm (size_class l) in
        if object_size = 0 then Inl Trap
        else Inr (num_spans l * (pages_per_span * kPageSize mod object_size)))"

end
