(* ===== verification/PageHeap_Inv.thy ===== *)
theory PageHeap_Inv
  imports PageHeap
begin

section \<open>The invariant of the page heap\<close>

text \<open>
  The spans of the heap are disjoint and non-empty, the page map has the nodes for all their pages, is right at their boundaries and null
  outside them, the free lists hold the free spans of their length, and the statistics are the sums over
  the lists.  Inside an operation some spans are on no list although they are marked free: these
  are the detached spans \<open>D\<close>.
\<close>

text \<open>What the page map holds, and the pages whose entry can be set.\<close>

definition pagemap :: "'w pageheap \<Rightarrow> nat \<Rightarrow> nat" where "pagemap h = view3 35 (Some (pagetree h))"

definition has_node :: "'w pageheap \<Rightarrow> nat \<Rightarrow> bool" where "has_node h = ready3 35 (Some (pagetree h))"

definition pg :: "span \<Rightarrow> nat set" where "pg s = {start s..<start s + len s}"

definition spans_ok :: "nat set \<Rightarrow> 'w pageheap \<Rightarrow> bool" where
  "spans_ok P h \<longleftrightarrow> finite (dom (spans h)) \<and>
     (\<forall>i s. spans h i = Some s \<longrightarrow> i \<noteq> 0 \<and> 0 < len s \<and> 0 < start s \<and> pg s \<subseteq> P \<and> (\<forall>p\<in>pg s. has_node h p) \<and>
        pagemap h (start s) = i \<and> pagemap h (start s + len s - 1) = i) \<and>
     (\<forall>i j s t. spans h i = Some s \<longrightarrow> spans h j = Some t \<longrightarrow> i \<noteq> j \<longrightarrow> pg s \<inter> pg t = {}) \<and>
     (\<forall>p. pagemap h p \<noteq> 0 \<longrightarrow> (\<exists>i s. spans h i = Some s \<and> p \<in> pg s))"

definition flist :: "'w pageheap \<Rightarrow> location \<Rightarrow> nat \<Rightarrow> nat list" where
  "flist h loc = (case loc of ON_NORMAL_FREELIST \<Rightarrow> normal h | _ \<Rightarrow> returned h)"

definition lbytes :: "'w pageheap \<Rightarrow> location \<Rightarrow> int" where
  "lbytes h loc = (case loc of ON_NORMAL_FREELIST \<Rightarrow> free_bytes h | _ \<Rightarrow> unmapped_bytes h)"

definition at_loc :: "location \<Rightarrow> nat set \<Rightarrow> 'w pageheap \<Rightarrow> nat set" where
  "at_loc loc D h = {i. i \<notin> D \<and> (\<exists>s. spans h i = Some s \<and> location s = loc)}"

definition total :: "location \<Rightarrow> nat set \<Rightarrow> 'w pageheap \<Rightarrow> nat" where
  "total loc D h = (\<Sum>i\<in>at_loc loc D h. len (the (spans h i)))"

definition lists_ok :: "nat set \<Rightarrow> 'w pageheap \<Rightarrow> bool" where
  "lists_ok D h \<longleftrightarrow> (\<forall>loc. loc \<noteq> IN_USE \<longrightarrow>
     (\<forall>k. distinct (flist h loc k) \<and> set (flist h loc k) = {i \<in> at_loc loc D h. list_of (len (the (spans h i))) = k}) \<and>
     lbytes h loc = bytes (total loc D h))"

definition prep :: "nat \<Rightarrow> span \<Rightarrow> 'w pageheap \<Rightarrow> 'w pageheap" where
  "prep i s h = (let k = list_of (len s) in
     if location s = ON_NORMAL_FREELIST
     then h\<lparr>free_bytes := free_bytes h + bytes (len s), normal := (normal h)(k := i # normal h k)\<rparr>
     else h\<lparr>unmapped_bytes := unmapped_bytes h + bytes (len s), returned := (returned h)(k := i # returned h k)\<rparr>)"

definition unlink :: "nat \<Rightarrow> span \<Rightarrow> 'w pageheap \<Rightarrow> 'w pageheap" where
  "unlink i s h = (let k = list_of (len s) in
     if location s = ON_NORMAL_FREELIST
     then h\<lparr>free_bytes := free_bytes h - bytes (len s), normal := (normal h)(k := remove1 i (normal h k))\<rparr>
     else h\<lparr>unmapped_bytes := unmapped_bytes h - bytes (len s), returned := (returned h)(k := remove1 i (returned h k))\<rparr>)"

lemma GetDescriptor_eq: "GetDescriptor p h = pagemap h p"
  by (simp add: GetDescriptor_def pagemap_def)

lemma pagetree_frame [simp]:
  "pagemap (h\<lparr>spans := a\<rparr>) = pagemap h" "pagemap (h\<lparr>pagemap_cache := b\<rparr>) = pagemap h" "pagemap (h\<lparr>normal := c\<rparr>) = pagemap h"
  "pagemap (h\<lparr>returned := c\<rparr>) = pagemap h" "pagemap (h\<lparr>system_bytes := x\<rparr>) = pagemap h" "pagemap (h\<lparr>free_bytes := x\<rparr>) = pagemap h"
  "pagemap (h\<lparr>unmapped_bytes := x\<rparr>) = pagemap h" "pagemap (h\<lparr>committed_bytes := x\<rparr>) = pagemap h"
  "pagemap (h\<lparr>scavenge_counter := x\<rparr>) = pagemap h" "pagemap (h\<lparr>release_index := k\<rparr>) = pagemap h"
  "pagemap (h\<lparr>aggressive_decommit := g\<rparr>) = pagemap h" "pagemap (h\<lparr>world := w\<rparr>) = pagemap h"
  "has_node (h\<lparr>spans := a\<rparr>) = has_node h" "has_node (h\<lparr>pagemap_cache := b\<rparr>) = has_node h" "has_node (h\<lparr>normal := c\<rparr>) = has_node h"
  "has_node (h\<lparr>returned := c\<rparr>) = has_node h" "has_node (h\<lparr>system_bytes := x\<rparr>) = has_node h" "has_node (h\<lparr>free_bytes := x\<rparr>) = has_node h"
  "has_node (h\<lparr>unmapped_bytes := x\<rparr>) = has_node h" "has_node (h\<lparr>committed_bytes := x\<rparr>) = has_node h"
  "has_node (h\<lparr>scavenge_counter := x\<rparr>) = has_node h" "has_node (h\<lparr>release_index := k\<rparr>) = has_node h"
  "has_node (h\<lparr>aggressive_decommit := g\<rparr>) = has_node h" "has_node (h\<lparr>world := w\<rparr>) = has_node h"
  by (simp_all add: pagemap_def has_node_def)

lemma get_span_Some [simp]: "spans h i = Some s \<Longrightarrow> get_span h i = Inr s"
  by (simp add: get_span_def)

lemma PrependToFreeList_eq: "spans h i = Some s \<Longrightarrow> PrependToFreeList i h = Inr (prep i s h)"
  by (simp add: PrependToFreeList_def prep_def Let_def)

lemma RemoveFromFreeList_eq: "spans h i = Some s \<Longrightarrow> RemoveFromFreeList i h = Inr (unlink i s h)"
  by (simp add: RemoveFromFreeList_def unlink_def Let_def)

lemma prep_frame [simp]:
  "spans (prep i s h) = spans h" "pagemap (prep i s h) = pagemap h" "has_node (prep i s h) = has_node h" "world (prep i s h) = world h"
  "system_bytes (prep i s h) = system_bytes h" "committed_bytes (prep i s h) = committed_bytes h"
  "aggressive_decommit (prep i s h) = aggressive_decommit h" "release_index (prep i s h) = release_index h"
  by (simp_all add: prep_def Let_def)

lemma unlink_frame [simp]:
  "spans (unlink i s h) = spans h" "pagemap (unlink i s h) = pagemap h" "has_node (unlink i s h) = has_node h" "world (unlink i s h) = world h"
  "system_bytes (unlink i s h) = system_bytes h" "committed_bytes (unlink i s h) = committed_bytes h"
  "aggressive_decommit (unlink i s h) = aggressive_decommit h" "release_index (unlink i s h) = release_index h"
  by (simp_all add: unlink_def Let_def)

lemma flist_prep:
  "location s \<noteq> IN_USE \<Longrightarrow> loc \<noteq> IN_USE \<Longrightarrow>
     flist (prep i s h) loc k = (if loc = location s \<and> k = list_of (len s) then i # flist h loc k else flist h loc k)"
  "location s \<noteq> IN_USE \<Longrightarrow> loc \<noteq> IN_USE \<Longrightarrow>
     lbytes (prep i s h) loc = (if loc = location s then lbytes h loc + bytes (len s) else lbytes h loc)"
  by (cases loc; cases "location s"; simp add: prep_def Let_def flist_def lbytes_def)+

lemma flist_unlink:
  "location s \<noteq> IN_USE \<Longrightarrow> loc \<noteq> IN_USE \<Longrightarrow>
     flist (unlink i s h) loc k = (if loc = location s \<and> k = list_of (len s) then remove1 i (flist h loc k) else flist h loc k)"
  "location s \<noteq> IN_USE \<Longrightarrow> loc \<noteq> IN_USE \<Longrightarrow>
     lbytes (unlink i s h) loc = (if loc = location s then lbytes h loc - bytes (len s) else lbytes h loc)"
  by (cases loc; cases "location s"; simp add: unlink_def Let_def flist_def lbytes_def)+

lemma put_span_frame [simp]:
  "spans (put_span i s h) = (spans h)(i \<mapsto> s)" "pagemap (put_span i s h) = pagemap h" "has_node (put_span i s h) = has_node h" "world (put_span i s h) = world h"
  "flist (put_span i s h) = flist h" "lbytes (put_span i s h) = lbytes h" "system_bytes (put_span i s h) = system_bytes h"
  "committed_bytes (put_span i s h) = committed_bytes h" "aggressive_decommit (put_span i s h) = aggressive_decommit h"
  "unmapped_bytes (put_span i s h) = unmapped_bytes h" "normal (put_span i s h) = normal h"
  "release_index (put_span i s h) = release_index h"
  by (simp_all add: put_span_def flist_def lbytes_def fun_eq_iff split: location.splits)

text \<open>The effect of setting the entry of a page that has its node.\<close>

definition tree_set :: "nat \<Rightarrow> nat \<Rightarrow> (nat \<Rightarrow> (nat \<Rightarrow> leaf option) option) \<Rightarrow> nat \<Rightarrow> (nat \<Rightarrow> leaf option) option" where
  "tree_set p i t = (case set3 35 p i (Some t) of Inr (Some t') \<Rightarrow> t' | _ \<Rightarrow> t)"

definition mark_page :: "nat \<Rightarrow> nat \<Rightarrow> 'w pageheap \<Rightarrow> 'w pageheap" where
  "mark_page p i h = h\<lparr>pagetree := tree_set p i (pagetree h)\<rparr>"

lemma set3_node:
  assumes "has_node h p"
  obtains t where "set3 35 p i (Some (pagetree h)) = Inr (Some t)" and "view3 35 (Some t) = (pagemap h)(p := i)"
    and "ready3 35 (Some t) = has_node h"
proof -
  obtain r where r: "set3 35 p i (Some (pagetree h)) = Inr r" "view3 35 r = (pagemap h)(p := i)" "ready3 35 r = has_node h"
    using set3_law[of 35 "Some (pagetree h)" p i] assms by (auto simp: has_node_def pagemap_def)
  moreover have "r \<noteq> None" using r(1) by (auto simp: set3_def split: if_splits option.splits)
  ultimately show thesis using that by auto
qed

lemma set_page_node: "has_node h p \<Longrightarrow> set_page p i h = Inr (mark_page p i h)"
  by (erule set3_node[where i = i]) (simp add: set_page_def mark_page_def tree_set_def)

lemma pagemap_mark_page [simp]: "has_node h p \<Longrightarrow> pagemap (mark_page p i h) = (pagemap h)(p := i)"
  by (erule set3_node[where i = i]) (simp add: mark_page_def tree_set_def pagemap_def)

lemma node_mark_page [simp]: "has_node (mark_page p i h) = has_node h"
proof (cases "set3 35 p i (Some (pagetree h))")
  case (Inl x)
  then show ?thesis by (simp add: mark_page_def tree_set_def has_node_def)
next
  case (Inr r)
  then have "has_node h p" by (auto simp: set3_def has_node_def ready3_def split: if_splits option.splits)
  then show ?thesis by (rule set3_node[where i = i]) (simp add: mark_page_def tree_set_def has_node_def)
qed

lemma mark_page_frame [simp]:
  "spans (mark_page p i h) = spans h" "world (mark_page p i h) = world h"
  "flist (mark_page p i h) = flist h" "lbytes (mark_page p i h) = lbytes h" "system_bytes (mark_page p i h) = system_bytes h"
  "committed_bytes (mark_page p i h) = committed_bytes h" "aggressive_decommit (mark_page p i h) = aggressive_decommit h"
  "unmapped_bytes (mark_page p i h) = unmapped_bytes h" "normal (mark_page p i h) = normal h"
  "release_index (mark_page p i h) = release_index h" "pagemap_cache (mark_page p i h) = pagemap_cache h"
  by (simp_all add: mark_page_def flist_def lbytes_def fun_eq_iff split: location.splits)

lemma mark_page_tree: "\<exists>t. mark_page p i h = h\<lparr>pagetree := t\<rparr>"
  by (auto simp: mark_page_def)

lemma pagetree_lists [simp]: "flist (h\<lparr>pagetree := t\<rparr>) = flist h" "lbytes (h\<lparr>pagetree := t\<rparr>) = lbytes h"
  by (simp_all add: flist_def lbytes_def fun_eq_iff split: location.splits)

lemma RecordSpan_node:
  assumes "spans h i = Some s" and "0 < len s" and "has_node h (start s)" and "has_node h (start s + len s - 1)"
  obtains t where "RecordSpan i h = Inr (h\<lparr>pagetree := t\<rparr>)" and "has_node (h\<lparr>pagetree := t\<rparr>) = has_node h"
    and "pagemap (h\<lparr>pagetree := t\<rparr>) = (pagemap h)(start s := i, start s + len s - 1 := i)"
proof (cases "1 < len s")
  case True
  let ?h = "mark_page (start s + len s - 1) i (mark_page (start s) i h)"
  have "RecordSpan i h = Inr ?h" "has_node ?h = has_node h" "pagemap ?h = (pagemap h)(start s := i, start s + len s - 1 := i)"
    using assms True by (simp_all add: RecordSpan_def set_page_node)
  moreover obtain t where "?h = h\<lparr>pagetree := t\<rparr>" by (auto simp: mark_page_def)
  ultimately show thesis using that by metis
next
  case False
  let ?h = "mark_page (start s) i h"
  have "len s = 1" using assms(2) False by simp
  then have "RecordSpan i h = Inr ?h" "has_node ?h = has_node h" "pagemap ?h = (pagemap h)(start s := i, start s + len s - 1 := i)"
    using assms by (simp_all add: RecordSpan_def set_page_node)
  moreover obtain t where "?h = h\<lparr>pagetree := t\<rparr>" using mark_page_tree by blast
  ultimately show thesis using that by metis
qed

subsection \<open>The free lists\<close>

lemma lists_ok_cong:
  assumes "lists_ok D h" and "\<And>i. i \<notin> D \<Longrightarrow> spans h' i = spans h i"
    and "flist h' = flist h" and "lbytes h' = lbytes h"
  shows "lists_ok D h'"
proof -
  have a: "at_loc loc D h' = at_loc loc D h" for loc using assms(2) by (auto simp: at_loc_def)
  have b: "the (spans h' i) = the (spans h i)" if "i \<in> at_loc loc D h" for i loc
    using that assms(2) by (auto simp: at_loc_def)
  have "total loc D h' = total loc D h" for loc using b by (simp add: total_def a cong: sum.cong)
  then show ?thesis using assms(1) a b by (simp add: lists_ok_def assms(3,4) cong: conj_cong)
qed

lemma lists_ok_D:
  assumes "lists_ok D h" and "\<And>i s. (i \<in> D) \<noteq> (i \<in> D') \<Longrightarrow> spans h i = Some s \<Longrightarrow> location s = IN_USE"
  shows "lists_ok D' h"
proof -
  have a: "at_loc loc D' h = at_loc loc D h" if "loc \<noteq> IN_USE" for loc using assms(2) that by (fastforce simp: at_loc_def)
  then show ?thesis using assms(1) by (simp add: lists_ok_def total_def)
qed

lemma bytes_add [simp]: "bytes (a + b) = bytes a + bytes b"
  by (simp add: bytes_def algebra_simps)

lemma lists_ok_prep:
  assumes "lists_ok D h" and "spans h i = Some s" and "i \<in> D" and "location s \<noteq> IN_USE" and "finite (dom (spans h))"
  shows "lists_ok (D - {i}) (prep i s h)"
proof -
  have a: "at_loc loc (D - {i}) (prep i s h) = (if loc = location s then insert i (at_loc loc D h) else at_loc loc D h)" for loc
    using assms(2) by (auto simp: at_loc_def)
  have f: "finite (at_loc loc D h)" for loc by (rule finite_subset[OF _ assms(5)]) (auto simp: at_loc_def)
  have n: "i \<notin> at_loc loc D h" for loc using assms(3) by (simp add: at_loc_def)
  have t: "total loc (D - {i}) (prep i s h) = (if loc = location s then len s + total loc D h else total loc D h)" for loc
    using f n assms(2) by (simp add: total_def a)
  have "distinct (flist (prep i s h) loc k) \<and>
      set (flist (prep i s h) loc k) = {j \<in> at_loc loc (D - {i}) (prep i s h). list_of (len (the (spans (prep i s h) j))) = k}"
    if "loc \<noteq> IN_USE" for loc k
    using assms(1,2,4) that n by (auto simp: lists_ok_def a flist_prep)
  then show ?thesis using assms(1,4) by (auto simp: lists_ok_def t flist_prep(2))
qed

lemma lists_ok_unlink:
  assumes "lists_ok D h" and "spans h i = Some s" and "i \<notin> D" and "location s \<noteq> IN_USE" and "finite (dom (spans h))"
  shows "lists_ok (insert i D) (unlink i s h)"
proof -
  have a: "at_loc loc (insert i D) (unlink i s h) = at_loc loc D h - {i}" for loc
    using assms(2) by (auto simp: at_loc_def)
  have f: "finite (at_loc loc D h)" for loc by (rule finite_subset[OF _ assms(5)]) (auto simp: at_loc_def)
  have m: "i \<in> at_loc loc D h \<longleftrightarrow> loc = location s" for loc using assms(2,3) by (auto simp: at_loc_def)
  have t: "total loc D h = (if loc = location s then len s + total loc (insert i D) (unlink i s h)
      else total loc (insert i D) (unlink i s h))" for loc
  proof (cases "loc = location s")
    case True
    then show ?thesis using sum.remove[OF f, of i loc "\<lambda>i. len (the (spans h i))"] m[of loc] assms(2) by (simp add: total_def a)
  next
    case False
    then show ?thesis using m[of loc] by (simp add: total_def a)
  qed
  have "distinct (flist (unlink i s h) loc k) \<and> set (flist (unlink i s h) loc k) =
      {j \<in> at_loc loc (insert i D) (unlink i s h). list_of (len (the (spans (unlink i s h) j))) = k}"
    if "loc \<noteq> IN_USE" for loc k
  proof (cases "loc = location s \<and> k = list_of (len s)")
    case True
    then show ?thesis using assms(1,4) that by (auto simp: lists_ok_def a flist_unlink)
  next
    case False
    then show ?thesis using assms(1,2,4) that m[of loc] by (auto simp: lists_ok_def a flist_unlink)
  qed
  moreover have "lbytes (unlink i s h) loc = bytes (total loc (insert i D) (unlink i s h))" if "loc \<noteq> IN_USE" for loc
    using assms(1,4) that t[of loc] by (auto simp: lists_ok_def flist_unlink(2))
  ultimately show ?thesis by (simp add: lists_ok_def)
qed

lemma lists_okD:
  assumes "lists_ok D h" and "i \<in> set (flist h loc k)" and "loc \<noteq> IN_USE"
  shows "\<exists>s. spans h i = Some s \<and> i \<notin> D \<and> location s = loc \<and> list_of (len s) = k"
proof -
  have "set (flist h loc k) = {i \<in> at_loc loc D h. list_of (len (the (spans h i))) = k}"
    using assms(1,3) unfolding lists_ok_def by blast
  then show ?thesis using assms(2) by (auto simp: at_loc_def)
qed

subsection \<open>The spans\<close>

lemma spans_ok_cong:
  "spans_ok P h \<Longrightarrow> spans h' = spans h \<Longrightarrow> pagemap h' = pagemap h \<Longrightarrow> has_node h' = has_node h \<Longrightarrow> spans_ok P h'"
  by (simp add: spans_ok_def)

lemma spans_okD:
  assumes "spans_ok P h" and "spans h i = Some s"
  shows "i \<noteq> 0" "0 < len s" "0 < start s" "pg s \<subseteq> P" "pagemap h (start s) = i" "pagemap h (start s + len s - 1) = i"
    "\<forall>p\<in>pg s. has_node h p"
  using assms by (auto simp: spans_ok_def)

lemma spans_ok_ends:
  assumes "spans_ok P h" and "spans h i = Some s" and "start s \<le> p" and "p < start s + len s"
  shows "has_node h p"
  using spans_okD(7)[OF assms(1,2)] assms(3,4) by (simp add: pg_def)

lemma spans_ok_disj:
  "spans_ok P h \<Longrightarrow> spans h i = Some s \<Longrightarrow> spans h j = Some t \<Longrightarrow> i \<noteq> j \<Longrightarrow> pg s \<inter> pg t = {}"
  by (auto simp: spans_ok_def)

lemma spans_ok_map:
  "spans_ok P h \<Longrightarrow> pagemap h p \<noteq> 0 \<Longrightarrow> \<exists>i s. spans h i = Some s \<and> p \<in> pg s"
  by (auto simp: spans_ok_def)

lemma neighbour:
  assumes ok: "spans_ok P h" and s: "spans h i = Some s" and "p = start s - 1 \<or> p = start s + len s" and "pagemap h p = j" "j \<noteq> 0"
  shows "\<exists>t. spans h j = Some t \<and> j \<noteq> i \<and> p \<in> pg t \<and> (if p = start s - 1 then start t + len t = start s else start t = p)"
proof -
  obtain j' t where t: "spans h j' = Some t" "p \<in> pg t" using spans_ok_map[OF ok] assms(4,5) by blast
  have b: "0 < start s" "0 < len s" using spans_okD[OF ok s] by auto
  then have "p \<notin> pg s" using assms(3) by (auto simp: pg_def)
  then have ne: "j' \<noteq> i" using t s by auto
  have d: "pg t \<inter> pg s = {}" by (rule spans_ok_disj[OF ok t(1) s ne])
  note tb = spans_okD[OF ok t(1)]
  show ?thesis
  proof (cases "p = start s - 1")
    case True
    have "start s \<notin> pg t" using d b by (auto simp: pg_def)
    then have e: "start t + len t = start s" using t(2) True b by (auto simp: pg_def)
    then have "p = start t + len t - 1" using True by simp
    then have "j = j'" using tb(6) assms(4) by simp
    then show ?thesis using t ne e True by auto
  next
    case False
    then have p: "p = start s + len s" using assms(3) by simp
    have "p - 1 \<in> pg s" using p b by (auto simp: pg_def)
    then have "p - 1 \<notin> pg t" using d by blast
    then have e: "start t = p" using t(2) p b by (auto simp: pg_def)
    then have "j = j'" using tb(5) assms(4) by simp
    then show ?thesis using t ne e False by auto
  qed
qed

lemma pg_ends: "0 < len u \<Longrightarrow> start u \<in> pg u \<and> start u + len u - 1 \<in> pg u"
  by (auto simp: pg_def)

definition disj :: "(nat \<Rightarrow> span option) \<Rightarrow> bool" where
  "disj m \<longleftrightarrow> (\<forall>i j s t. m i = Some s \<longrightarrow> m j = Some t \<longrightarrow> i \<noteq> j \<longrightarrow> pg s \<inter> pg t = {})"

lemma disj_upd: "disj m \<Longrightarrow> (\<And>x u. m x = Some u \<Longrightarrow> x \<noteq> i \<Longrightarrow> pg u \<inter> pg s = {}) \<Longrightarrow> disj (m(i \<mapsto> s))"
  unfolding disj_def by (metis Int_commute fun_upd_apply option.inject)

lemma disj_del: "disj m \<Longrightarrow> disj (m(j := None))"
  unfolding disj_def by (metis fun_upd_apply option.distinct(1))

lemma spans_ok_disjD: "spans_ok P h \<Longrightarrow> disj (spans h)"
  by (simp add: spans_ok_def disj_def)

text \<open>One span is changed in place, without its boundaries.\<close>

lemma spans_ok_put:
  assumes "spans_ok P h" and "spans h i = Some s" and "start s' = start s" and "len s' = len s"
  shows "spans_ok P (put_span i s' h)"
proof -
  have p: "pg s' = pg s" using assms(3,4) by (simp add: pg_def)
  have "pg a \<inter> pg b = {}" if "((spans h)(i \<mapsto> s')) x = Some a" "((spans h)(i \<mapsto> s')) y = Some b" "x \<noteq> y" for x y a b
    using that spans_ok_disj[OF assms(1)] assms(2) p by (auto split: if_splits)
  moreover have "\<exists>i' t. ((spans h)(i \<mapsto> s')) i' = Some t \<and> q \<in> pg t" if "pagemap h q \<noteq> 0" for q
    using spans_ok_map[OF assms(1) that] assms(2) p by (metis fun_upd_apply option.inject)
  moreover have "finite (dom (spans h))" using assms(1) by (simp add: spans_ok_def)
  ultimately show ?thesis using assms p spans_okD[OF assms(1)] unfolding spans_ok_def put_span_frame
    by (auto split: if_splits)
qed

text \<open>Two adjacent spans become one: \<open>t\<close> is absorbed by \<open>s\<close>.\<close>

lemma spans_ok_absorb:
  assumes ok: "spans_ok P h" and s: "spans h i = Some s" and t: "spans h j = Some t" and ne: "i \<noteq> j"
    and adj: "start t + len t = start s \<and> start s' = start t \<and> b = start t \<or>
      start t = start s + len s \<and> start s' = start s \<and> b = start s + len s + len t - 1"
    and l: "len s' = len s + len t"
    and h': "spans h' = (spans h)(j := None, i \<mapsto> s')" "pagemap h' = (pagemap h)(b := i)" "has_node h' = has_node h"
  shows "spans_ok P h'"
proof -
  note sb = spans_okD[OF ok s] and tb = spans_okD[OF ok t]
  have p: "pg s' = pg s \<union> pg t" using adj l by (auto simp: pg_def)
  have b: "b \<in> pg s'" "b \<in> pg t" using adj l sb tb by (auto simp: pg_def)
  have other: "spans h x = Some u \<Longrightarrow> x \<noteq> i \<Longrightarrow> x \<noteq> j \<Longrightarrow> pg u \<inter> pg s' = {} \<and> b \<notin> pg u" for x u
    using spans_ok_disj[OF ok _ s] spans_ok_disj[OF ok _ t] p b(1) by blast
  have mem: "spans h x = Some u \<Longrightarrow> start u \<in> pg u \<and> start u + len u - 1 \<in> pg u" for x u
    using pg_ends[OF spans_okD(2)[OF ok]] .
  have 1: "x \<noteq> 0 \<and> 0 < len u \<and> 0 < start u \<and> pg u \<subseteq> P \<and> (\<forall>p\<in>pg u. has_node h' p) \<and> pagemap h' (start u) = x \<and> pagemap h' (start u + len u - 1) = x"
    if u: "spans h' x = Some u" for x u
  proof (cases "x = i")
    case True
    then have u': "u = s'" using u h' by simp
    have "pagemap h' (start s') = i \<and> pagemap h' (start s' + len s' - 1) = i"
    proof (cases "start t + len t = start s \<and> start s' = start t \<and> b = start t")
      case c: True
      then have "start s' + len s' - 1 = start s + len s - 1" using l by linarith
      then show ?thesis using c sb(6) h'(2) by (metis fun_upd_apply)
    next
      case False
      then have c: "start s' = start s" "b = start s + len s + len t - 1" using adj by auto
      then have "b = start s' + len s' - 1" using l by simp
      then show ?thesis using c sb(5) h'(2) by (metis fun_upd_apply)
    qed
    moreover have "0 < start s'" using adj sb(3) tb(3) by auto
    ultimately show ?thesis using True u' sb tb l p h'(3) by auto
  next
    case False
    then have u': "spans h x = Some u" "x \<noteq> j" using u h' by (auto split: if_splits)
    then have "start u \<noteq> b" "start u + len u - 1 \<noteq> b" using other[OF u'(1) False] mem[OF u'(1)] by blast+
    then show ?thesis using spans_okD[OF ok u'(1)] h'(2,3) by simp
  qed
  have "disj (spans h')" unfolding h'(1)
    by (intro disj_upd disj_del spans_ok_disjD[OF ok]) (use other in \<open>auto split: if_splits\<close>)
  then have 2: "\<forall>x y u v. spans h' x = Some u \<longrightarrow> spans h' y = Some v \<longrightarrow> x \<noteq> y \<longrightarrow> pg u \<inter> pg v = {}" by (simp only: disj_def)
  have 3: "\<exists>x u. spans h' x = Some u \<and> q \<in> pg u" if q: "pagemap h' q \<noteq> 0" for q
  proof (cases "q \<in> pg s'")
    case True
    then show ?thesis using h'(1) by auto
  next
    case False
    then have "pagemap h q \<noteq> 0" using q h'(2) b by (auto split: if_splits)
    then obtain x u where x: "spans h x = Some u" "q \<in> pg u" using spans_ok_map[OF ok] by blast
    have "q \<notin> pg s" "q \<notin> pg t" using False p by blast+
    then have "x \<noteq> i" "x \<noteq> j" using x s t by (metis option.inject)+
    then have "spans h' x = Some u" using x(1) h'(1) by simp
    then show ?thesis using x(2) by blast
  qed
  have "finite (dom (spans h'))" using ok h' by (simp add: spans_ok_def)
  then show ?thesis unfolding spans_ok_def using 1 2 3 by simp
qed

text \<open>A span is cut in two, the second part under a fresh name.\<close>

lemma spans_ok_cut:
  assumes ok: "spans_ok P h" and s: "spans h i = Some s" and n: "0 < n" "n < len s" and j: "spans h j = None" "j \<noteq> 0"
    and s': "start s' = start s" "len s' = n" and t: "start t = start s + n" "len t = len s - n"
    and h': "spans h' = (spans h)(j \<mapsto> t, i \<mapsto> s')"
      "pagemap h' = (pagemap h)(start t := j, start t + len t - 1 := j, start s + n - 1 := i)" "has_node h' = has_node h"
  shows "spans_ok P h'"
proof -
  note sb = spans_okD[OF ok s]
  have ij: "i \<noteq> j" using s j by auto
  have p: "pg s = pg s' \<union> pg t" "pg s' \<inter> pg t = {}" using n s' t by (auto simp: pg_def)
  have other: "spans h x = Some u \<Longrightarrow> x \<noteq> i \<Longrightarrow> pg u \<inter> pg s = {}" for x u by (rule spans_ok_disj[OF ok _ s])
  have mem: "spans h x = Some u \<Longrightarrow> start u \<in> pg u \<and> start u + len u - 1 \<in> pg u" for x u
    using pg_ends[OF spans_okD(2)[OF ok]] .
  have ch: "q \<in> pg s" if "pagemap h' q \<noteq> pagemap h q" for q
  proof -
    have "q = start t \<or> q = start t + len t - 1 \<or> q = start s + n - 1" using that h'(2) by (auto split: if_splits)
    then show ?thesis using n t by (auto simp: pg_def)
  qed
  have 1: "x \<noteq> 0 \<and> 0 < len u \<and> 0 < start u \<and> pg u \<subseteq> P \<and> (\<forall>p\<in>pg u. has_node h' p) \<and> pagemap h' (start u) = x \<and> pagemap h' (start u + len u - 1) = x"
    if u: "spans h' x = Some u" for x u
  proof -
    consider "x = i" "u = s'" | "x = j" "u = t" | "x \<noteq> i" "x \<noteq> j" "spans h x = Some u"
      using u h' by (auto split: if_splits)
    then show ?thesis
    proof cases
      case 1
      then show ?thesis using sb s' n p h'(2,3) t by auto
    next
      case 2
      then show ?thesis using sb s' n p h'(2,3) t j by auto
    next
      case 3
      then have "start u \<notin> pg s" "start u + len u - 1 \<notin> pg s" using other mem by blast+
      then have "pagemap h' (start u) = pagemap h (start u)" "pagemap h' (start u + len u - 1) = pagemap h (start u + len u - 1)"
        using ch by blast+
      then show ?thesis using spans_okD[OF ok 3(3)] h'(3) by simp
    qed
  qed
  have "disj ((spans h)(i \<mapsto> s'))" by (intro disj_upd spans_ok_disjD[OF ok]) (use other p in blast)
  then have "disj ((spans h)(i \<mapsto> s', j \<mapsto> t))" by (rule disj_upd) (use other p in \<open>auto split: if_splits\<close>)
  then have "disj (spans h')" using ij by (simp add: h'(1) fun_upd_twist)
  then have 2: "\<forall>x y u v. spans h' x = Some u \<longrightarrow> spans h' y = Some v \<longrightarrow> x \<noteq> y \<longrightarrow> pg u \<inter> pg v = {}" by (simp only: disj_def)
  have 3: "\<exists>x u. spans h' x = Some u \<and> q \<in> pg u" if q: "pagemap h' q \<noteq> 0" for q
  proof (cases "q \<in> pg s")
    case True
    then have "q \<in> pg s' \<or> q \<in> pg t" using p(1) by auto
    then show ?thesis using h'(1) ij by auto
  next
    case False
    then have "pagemap h q \<noteq> 0" using q ch by metis
    then obtain x u where x: "spans h x = Some u" "q \<in> pg u" using spans_ok_map[OF ok] by blast
    have "x \<noteq> i" "x \<noteq> j" using x s j False by (metis option.inject option.distinct(1))+
    then have "spans h' x = Some u" using x(1) h'(1) by simp
    then show ?thesis using x(2) by blast
  qed
  have "finite (dom (spans h'))" using ok h' by (simp add: spans_ok_def)
  then show ?thesis unfolding spans_ok_def using 1 2 3 by simp
qed

text \<open>A span of fresh pages is added.\<close>

lemma spans_ok_add:
  assumes ok: "spans_ok P h" and j: "spans h j = None" "j \<noteq> 0" and t: "0 < len t" "0 < start t" "pg t \<inter> P = {}"
    and h': "spans h' = (spans h)(j \<mapsto> t)" "pagemap h' = (pagemap h)(start t := j, start t + len t - 1 := j)"
      "\<And>p. has_node h p \<or> p \<in> pg t \<Longrightarrow> has_node h' p"
  shows "spans_ok (P \<union> pg t) h'"
proof -
  note mem = pg_ends
  have other: "pg u \<inter> pg t = {}" if "spans h x = Some u" for x u using spans_okD(4)[OF ok that] t(3) by blast
  have 1: "x \<noteq> 0 \<and> 0 < len u \<and> 0 < start u \<and> pg u \<subseteq> P \<union> pg t \<and> (\<forall>p\<in>pg u. has_node h' p) \<and> pagemap h' (start u) = x \<and> pagemap h' (start u + len u - 1) = x"
    if u: "spans h' x = Some u" for x u
  proof (cases "x = j")
    case False
    then have u': "spans h x = Some u" using u h' by simp
    note ub = spans_okD[OF ok u']
    have "start u \<notin> pg t" "start u + len u - 1 \<notin> pg t" using other[OF u'] mem[OF ub(2)] by blast+
    then have "start u \<noteq> start t" "start u \<noteq> start t + len t - 1" "start u + len u - 1 \<noteq> start t" "start u + len u - 1 \<noteq> start t + len t - 1"
      using mem[OF t(1)] by metis+
    then show ?thesis using ub h'(2,3) by auto
  qed (use u h' j t in auto)
  have "disj (spans h')" unfolding h'(1) by (intro disj_upd spans_ok_disjD[OF ok]) (rule other)
  then have 2: "\<forall>x y u v. spans h' x = Some u \<longrightarrow> spans h' y = Some v \<longrightarrow> x \<noteq> y \<longrightarrow> pg u \<inter> pg v = {}" by (simp only: disj_def)
  have 3: "\<exists>x u. spans h' x = Some u \<and> q \<in> pg u" if q: "pagemap h' q \<noteq> 0" for q
  proof (cases "q \<in> pg t")
    case False
    then have "pagemap h q \<noteq> 0" using q h'(2) mem[OF t(1)] by (auto split: if_splits)
    then obtain x u where "spans h x = Some u" "q \<in> pg u" using spans_ok_map[OF ok] by blast
    then show ?thesis using j h'(1) by (intro exI[of _ x] exI[of _ u]) auto
  qed (use h' in auto)
  have "finite (dom (spans h'))" using ok h' by (simp add: spans_ok_def)
  then show ?thesis unfolding spans_ok_def using 1 2 3 by simp
qed

end
