(* ===== verification/PageHeap_Release.thy ===== *)
theory PageHeap_Release
  imports PageHeap_Inv
begin

section \<open>Coalescing and releasing memory\<close>

text \<open>
  The interface between the page heap and its environment, the locale \<open>page_env\<close>, and in it: freeing a span keeps the
  invariant and coalesces, and the loop that releases memory to the system ends.
\<close>

subsection \<open>The environment of the heap\<close>

definition page_range :: "nat \<Rightarrow> nat \<Rightarrow> nat set" where
  "page_range p sz = {p div 2 ^ kPageShift..<p div 2 ^ kPageShift + sz div 2 ^ kPageShift}"

text \<open>\<open>wok L P w\<close>: in the world \<open>w\<close> the span descriptors \<open>L\<close> are allocated and the pages \<open>P\<close> belong to the heap.\<close>

locale page_env =
  fixes e :: "'w penv" and wok :: "nat set \<Rightarrow> nat set \<Rightarrow> 'w \<Rightarrow> bool"
  assumes sys_alloc_none: "wok L P w \<Longrightarrow> sys_alloc e n w = Inr (None, w') \<Longrightarrow> wok L P w'"
    and sys_alloc_some: "wok L P w \<Longrightarrow> sys_alloc e n w = Inr (Some (p, sz), w') \<Longrightarrow>
      2 ^ kPageShift \<le> p \<and> n \<le> sz \<and> page_range p sz \<inter> P = {} \<and> wok L (P \<union> page_range p sz) w'"
    and sys_release_ok: "wok L P w \<Longrightarrow> wok L P (snd (sys_release e a n w)) \<and> sys_taken e (snd (sys_release e a n w)) = sys_taken e w"
    and span_new_ok: "wok L P w \<Longrightarrow> span_new e w = Inr (i, w') \<Longrightarrow> i \<noteq> 0 \<and> i \<notin> L \<and> wok (insert i L) P w'"
    and span_delete_ok: "wok L P w \<Longrightarrow> i \<in> L \<Longrightarrow> \<exists>w'. span_delete e i w = Inr w' \<and> wok (L - {i}) P w' \<and> sys_taken e w' = sys_taken e w"
    and record_growth_ok: "wok L P w \<Longrightarrow> record_growth e n w = Inr w' \<Longrightarrow> wok L P w'"
    and map_alloc_ok: "wok L P w \<Longrightarrow> map_alloc e n (Inr w) = (b, Inr w') \<Longrightarrow> wok L P w'"
    and map_alloc_fault: "map_alloc e n (Inl x) = (False, Inl x)"
    and pages_bound: "wok L P w \<Longrightarrow> P \<subseteq> {..<2 ^ 35}"

definition used :: "'w pageheap \<Rightarrow> (nat \<times> span) set" where
  "used h = {(i, s). spans h i = Some s \<and> location s = IN_USE}"

definition keeps :: "'w pageheap \<Rightarrow> 'w pageheap \<Rightarrow> bool" where
  "keeps h h' \<longleftrightarrow> used h' = used h \<and> pagemap_cache h' = pagemap_cache h \<and> aggressive_decommit h' = aggressive_decommit h \<and>
     (\<forall>j t p. (j, t) \<in> used h \<longrightarrow> p \<in> pg t \<longrightarrow> pagemap h' p = pagemap h p)"

text \<open>A span that is not in use has no size class and no sample.\<close>

definition clean :: "span \<Rightarrow> bool" where "clean s \<longleftrightarrow> location s = IN_USE \<or> sizeclass s = 0 \<and> \<not> sample s"

definition clean_ok :: "'w pageheap \<Rightarrow> bool" where "clean_ok h \<longleftrightarrow> (\<forall>i s. spans h i = Some s \<longrightarrow> clean s)"

lemma clean_okD: "clean_ok h \<Longrightarrow> spans h i = Some s \<Longrightarrow> location s \<noteq> IN_USE \<Longrightarrow> sizeclass s = 0 \<and> \<not> sample s"
  by (auto simp: clean_ok_def clean_def)

lemma clean_put: "clean_ok h \<Longrightarrow> clean s \<Longrightarrow> clean_ok (put_span i s h)"
  by (simp add: clean_ok_def)

lemma keeps_refl [simp]: "keeps h h" by (simp add: keeps_def)

lemma keeps_trans [trans]: "keeps h h' \<Longrightarrow> keeps h' h'' \<Longrightarrow> keeps h h''"
  by (simp add: keeps_def)

lemma frame_simps [simp]:
  "pagemap_cache (prep i s h) = pagemap_cache h" "pagemap_cache (unlink i s h) = pagemap_cache h"
  "pagemap_cache (put_span i s h) = pagemap_cache h"
  by (simp_all add: prep_def unlink_def put_span_def Let_def)

lemma field_frame [simp]:
  "flist (h\<lparr>committed_bytes := c\<rparr>) = flist h" "lbytes (h\<lparr>committed_bytes := c\<rparr>) = lbytes h"
  "flist (h\<lparr>world := w\<rparr>) = flist h" "lbytes (h\<lparr>world := w\<rparr>) = lbytes h"
  "flist (h\<lparr>release_index := r\<rparr>) = flist h" "lbytes (h\<lparr>release_index := r\<rparr>) = lbytes h"
  "flist (h\<lparr>scavenge_counter := x\<rparr>) = flist h" "lbytes (h\<lparr>scavenge_counter := x\<rparr>) = lbytes h"
  "flist (h\<lparr>system_bytes := x\<rparr>) = flist h" "lbytes (h\<lparr>system_bytes := x\<rparr>) = lbytes h"
  by (simp_all add: flist_def lbytes_def fun_eq_iff split: location.splits)

lemma bytes_nonneg [simp]: "0 \<le> bytes n" by (simp add: bytes_def)

context page_env
begin

abbreviation taken :: "'w pageheap \<Rightarrow> nat" where "taken h \<equiv> sys_taken e (world h)"

definition inv :: "nat set \<Rightarrow> nat set \<Rightarrow> 'w pageheap \<Rightarrow> bool" where
  "inv D P h \<longleftrightarrow> spans_ok P h \<and> lists_ok D h \<and> clean_ok h \<and> wok (dom (spans h)) P (world h)"

lemma invD: assumes "inv D P h" shows "spans_ok P h" "lists_ok D h" "wok (dom (spans h)) P (world h)" "finite (dom (spans h))" "clean_ok h"
  using assms by (auto simp: inv_def spans_ok_def)

text \<open>A neighbour on a free list is absorbed by the detached span \<open>i\<close>.\<close>

lemma absorb:
  assumes i: "inv {i} P h" and s: "spans h i = Some s" and t: "spans h j = Some t" "j \<noteq> i"
    and loc: "location s \<noteq> IN_USE" "location t \<noteq> IN_USE" "location s' = location s"
    and adj: "start t + len t = start s \<and> start s' = start t \<and> b = start t \<or>
      start t = start s + len s \<and> start s' = start s \<and> b = start s + len s + len t - 1"
    and l: "len s' = len s + len t" and c: "sizeclass s' = sizeclass s" "sample s' = sample s"
  obtains h1 h2 h' where "RemoveFromFreeList j h = Inr h1" and "DeleteSpan e j h1 = Inr h2"
    and "set_page b i (put_span i s' h2) = Inr h'"
    and "inv {i} P h'" and "spans h' i = Some s'" and "keeps h h'" and "release_index h' = release_index h \<and> taken h' = taken h"
    and "committed_bytes h' = committed_bytes h" and "system_bytes h' = system_bytes h"
    and "\<And>loc. loc \<noteq> IN_USE \<Longrightarrow> lbytes h' loc = lbytes h loc - (if loc = location t then bytes (len t) else 0)"
    and "\<And>loc. loc \<noteq> IN_USE \<Longrightarrow> at_loc loc {i} h' \<subseteq> at_loc loc {i} h"
proof -
  note iD = invD[OF i]
  let ?h1 = "unlink j t h"
  have w1: "wok (dom (spans ?h1)) P (world ?h1)" using iD(3) by simp
  then obtain w where w: "span_delete e j (world ?h1) = Inr w" "wok (dom (spans ?h1) - {j}) P w" "sys_taken e w = taken h"
    using span_delete_ok[OF w1, of j] t by auto
  let ?h2 = "?h1\<lparr>spans := (spans ?h1)(j := None), world := w\<rparr>"
  let ?h' = "mark_page b i (put_span i s' ?h2)"
  have bt: "b \<in> pg t" using adj spans_okD(2)[OF iD(1) t(1)] by (auto simp: pg_def)
  then have nb: "has_node h b" using spans_okD(7)[OF iD(1) t(1)] by blast
  then have sb: "set_page b i (put_span i s' ?h2) = Inr ?h'" by (simp add: set_page_node)
  have fl: "flist ?h' = flist ?h1" "lbytes ?h' = lbytes ?h1"
    by (simp_all add: flist_def lbytes_def fun_eq_iff split: location.splits)
  have sp: "spans ?h' = (spans h)(j := None, i \<mapsto> s')" "pagemap ?h' = (pagemap h)(b := i)" "has_node ?h' = has_node h"
    using nb by simp_all
  have "spans_ok P ?h'" by (rule spans_ok_absorb[OF iD(1) s t(1) t(2)[symmetric] adj l sp])
  moreover have "lists_ok {i} ?h'"
  proof -
    have "lists_ok {j, i} ?h1" using lists_ok_unlink[OF iD(2) t(1) _ loc(2) iD(4)] t(2) by simp
    then have "lists_ok {j, i} ?h'" by (rule lists_ok_cong) (use fl in auto)
    then show ?thesis by (rule lists_ok_D) (use t(2) in \<open>auto split: if_splits\<close>)
  qed
  moreover have "dom (spans ?h') = dom (spans ?h1) - {j}" using s t(2) by auto
  moreover have "clean_ok ?h'" using iD(5) s loc c by (auto simp: clean_ok_def clean_def split: if_splits)
  ultimately have inv: "inv {i} P ?h'" using w(2) by (simp add: inv_def)
  have us: "used ?h' = used h" using s t loc by (auto simp: used_def split: if_splits)
  have "pagemap ?h' p = pagemap h p" if u: "(x, u) \<in> used h" "p \<in> pg u" for x u p
  proof -
    have x: "spans h x = Some u" "x \<noteq> j" using u(1) t(1) loc(2) by (auto simp: used_def)
    then have "pg u \<inter> pg t = {}" using spans_ok_disj[OF iD(1) x(1) t(1)] by simp
    then show ?thesis using bt u(2) sp(2) by auto
  qed
  then have "keeps h ?h'" using us by (simp add: keeps_def)
  moreover have "lbytes ?h' loc = lbytes h loc - (if loc = location t then bytes (len t) else 0)" if "loc \<noteq> IN_USE" for loc
    using flist_unlink(2)[OF loc(2) that, of j h] unfolding fl(2) by (auto split: if_splits)
  moreover have "at_loc loc {i} ?h' \<subseteq> at_loc loc {i} h" for loc by (auto simp: at_loc_def split: if_splits)
  moreover have "RemoveFromFreeList j h = Inr ?h1" by (rule RemoveFromFreeList_eq[OF t(1)])
  moreover have "DeleteSpan e j ?h1 = Inr ?h2" using w(1) by (simp add: DeleteSpan_def)
  ultimately show ?thesis using inv sp(1) sb w(3) by (intro that[of ?h1 ?h2 ?h']) simp_all
qed

lemma merge_prev_ok:
  assumes i: "inv {i} P h" and s: "spans h i = Some s" and loc: "location s \<noteq> IN_USE"
  obtains temp h' s' where "merge_prev e i h = Inr (temp, h')" and "inv {i} P h'" and "spans h' i = Some s'"
    and "location s' = location s" and "start s' + len s' = start s + len s" and "keeps h h'" and "release_index h' = release_index h \<and> taken h' = taken h"
    and "committed_bytes h' = committed_bytes h" and "system_bytes h' = system_bytes h"
    and "\<And>loc. loc \<noteq> IN_USE \<Longrightarrow> at_loc loc {i} h' \<subseteq> at_loc loc {i} h"
    and "\<And>loc. \<not> aggressive_decommit h \<Longrightarrow> loc \<noteq> IN_USE \<Longrightarrow>
      lbytes h' loc = lbytes h loc - (if loc = location s then bytes (len s') - bytes (len s) else 0)"
    and "lbytes h ON_RETURNED_FREELIST + bytes (len s) \<le> lbytes h' ON_RETURNED_FREELIST + bytes (len s')"
    and "aggressive_decommit h \<Longrightarrow> lbytes h' ON_RETURNED_FREELIST + temp = lbytes h ON_RETURNED_FREELIST"
proof -
  note R = that
  let ?j = "pagemap h (start s - 1)"
  have None: thesis if r: "merge_prev e i h = Inr (0, h)"
    by (rule R[OF r i s]) simp_all
  show thesis
  proof (cases "?j = 0")
    case True
    then show thesis using None s by (simp add: merge_prev_def GetDescriptor_eq Let_def)
  next
    case False
    obtain t where t: "spans h ?j = Some t" "?j \<noteq> i" "start t + len t = start s"
      using neighbour[OF invD(1)[OF i] s, of "start s - 1"] False by auto
    show thesis
    proof (cases "MayMergeSpans h s t")
      case no: False
      then show thesis using None s t False by (simp add: merge_prev_def GetDescriptor_eq Let_def)
    next
      case True
      then have lt: "location t \<noteq> IN_USE" using loc by (auto simp: MayMergeSpans_def split: if_splits)
      let ?s' = "s\<lparr>start := start s - len t, len := len s + len t\<rparr>"
      have st: "start s - len t = start t" using t(3) by simp
      obtain h1 h2 h' where a: "RemoveFromFreeList ?j h = Inr h1" and
        d: "DeleteSpan e ?j h1 = Inr h2" "set_page (start ?s') i (put_span i ?s' h2) = Inr h'" and b:
        "inv {i} P h'" "spans h' i = Some ?s'" "keeps h h'" "release_index h' = release_index h \<and> taken h' = taken h"
        "committed_bytes h' = committed_bytes h" "system_bytes h' = system_bytes h"
        "\<And>loc. loc \<noteq> IN_USE \<Longrightarrow> lbytes h' loc = lbytes h loc - (if loc = location t then bytes (len t) else 0)"
        "\<And>loc. loc \<noteq> IN_USE \<Longrightarrow> at_loc loc {i} h' \<subseteq> at_loc loc {i} h"
        by (rule absorb[OF i s t(1,2) loc lt, of ?s' "start ?s'"]) (use t(3) st in auto)
      let ?temp = "if aggressive_decommit h \<and> location t = ON_RETURNED_FREELIST then bytes (len t) else 0"
      have r: "merge_prev e i h = Inr (?temp, h')"
        using s t(1) False True a d by (simp add: merge_prev_def GetDescriptor_eq Let_def)
      have "lbytes h' loc = lbytes h loc - (if loc = location s then bytes (len ?s') - bytes (len s) else 0)"
        if "\<not> aggressive_decommit h" "loc \<noteq> IN_USE" for loc
        using b(7)[OF that(2)] True that(1) by (simp add: MayMergeSpans_def)
      moreover have "lbytes h ON_RETURNED_FREELIST + bytes (len s) \<le> lbytes h' ON_RETURNED_FREELIST + bytes (len ?s')"
        using b(7)[of ON_RETURNED_FREELIST] by (auto split: if_splits)
      moreover have "aggressive_decommit h \<Longrightarrow> lbytes h' ON_RETURNED_FREELIST + ?temp = lbytes h ON_RETURNED_FREELIST"
        using b(7)[of ON_RETURNED_FREELIST] by (auto split: if_splits)
      ultimately show thesis by (intro R[OF r b(1,2) _ _ b(3-6,8)]) (use t(3) in auto)
    qed
  qed
qed

lemma merge_next_ok:
  assumes i: "inv {i} P h" and s: "spans h i = Some s" and loc: "location s \<noteq> IN_USE" and pn: "pn = start s + len s"
  obtains temp' h' s' where "merge_next e i pn temp h = Inr (temp', h')" and "inv {i} P h'" and "spans h' i = Some s'"
    and "location s' = location s" and "keeps h h'" and "release_index h' = release_index h \<and> taken h' = taken h"
    and "committed_bytes h' = committed_bytes h" and "system_bytes h' = system_bytes h"
    and "\<And>loc. loc \<noteq> IN_USE \<Longrightarrow> at_loc loc {i} h' \<subseteq> at_loc loc {i} h"
    and "\<And>loc. \<not> aggressive_decommit h \<Longrightarrow> loc \<noteq> IN_USE \<Longrightarrow>
      lbytes h' loc = lbytes h loc - (if loc = location s then bytes (len s') - bytes (len s) else 0)"
    and "lbytes h ON_RETURNED_FREELIST + bytes (len s) \<le> lbytes h' ON_RETURNED_FREELIST + bytes (len s')"
    and "aggressive_decommit h \<Longrightarrow> lbytes h' ON_RETURNED_FREELIST + temp' = lbytes h ON_RETURNED_FREELIST + temp"
proof -
  note R = that
  let ?j = "pagemap h pn"
  have None: thesis if r: "merge_next e i pn temp h = Inr (temp, h)"
    by (rule R[OF r i s]) simp_all
  show thesis
  proof (cases "?j = 0")
    case True
    then show thesis using None s by (simp add: merge_next_def GetDescriptor_eq Let_def)
  next
    case False
    obtain t where t: "spans h ?j = Some t" "?j \<noteq> i" "start t = start s + len s"
      using neighbour[OF invD(1)[OF i] s, of pn] False pn spans_okD(3)[OF invD(1)[OF i] s] by (auto split: if_splits)
    show thesis
    proof (cases "MayMergeSpans h s t")
      case no: False
      then show thesis using None s t False by (simp add: merge_next_def GetDescriptor_eq Let_def)
    next
      case True
      then have lt: "location t \<noteq> IN_USE" using loc by (auto simp: MayMergeSpans_def split: if_splits)
      let ?s' = "s\<lparr>len := len s + len t\<rparr>" and ?b = "start s + (len s + len t) - 1"
      obtain h1 h2 h' where a: "RemoveFromFreeList ?j h = Inr h1" and
        d: "DeleteSpan e ?j h1 = Inr h2" "set_page ?b i (put_span i ?s' h2) = Inr h'" and b:
        "inv {i} P h'" "spans h' i = Some ?s'" "keeps h h'" "release_index h' = release_index h \<and> taken h' = taken h"
        "committed_bytes h' = committed_bytes h" "system_bytes h' = system_bytes h"
        "\<And>loc. loc \<noteq> IN_USE \<Longrightarrow> lbytes h' loc = lbytes h loc - (if loc = location t then bytes (len t) else 0)"
        "\<And>loc. loc \<noteq> IN_USE \<Longrightarrow> at_loc loc {i} h' \<subseteq> at_loc loc {i} h"
        by (rule absorb[OF i s t(1,2) loc lt, of ?s' ?b]) (use t(3) in \<open>auto simp: add.assoc\<close>)
      let ?temp = "if aggressive_decommit h \<and> location t = ON_RETURNED_FREELIST then temp + bytes (len t) else temp"
      have r: "merge_next e i pn temp h = Inr (?temp, h')"
        using s t(1) False True a d by (simp add: merge_next_def GetDescriptor_eq Let_def)
      have "lbytes h' loc = lbytes h loc - (if loc = location s then bytes (len ?s') - bytes (len s) else 0)"
        if "\<not> aggressive_decommit h" "loc \<noteq> IN_USE" for loc
        using b(7)[OF that(2)] True that(1) by (simp add: MayMergeSpans_def)
      moreover have "lbytes h ON_RETURNED_FREELIST + bytes (len s) \<le> lbytes h' ON_RETURNED_FREELIST + bytes (len ?s')"
        using b(7)[of ON_RETURNED_FREELIST] by (auto split: if_splits)
      moreover have "aggressive_decommit h \<Longrightarrow> lbytes h' ON_RETURNED_FREELIST + ?temp = lbytes h ON_RETURNED_FREELIST + temp"
        using b(7)[of ON_RETURNED_FREELIST] by (auto split: if_splits)
      ultimately show thesis by (intro R[OF r b(1,2) _ b(3-6,8)]) auto
    qed
  qed
qed

lemma inv_frame:
  "inv D P h \<Longrightarrow> spans h' = spans h \<Longrightarrow> pagemap h' = pagemap h \<Longrightarrow> has_node h' = has_node h \<Longrightarrow> flist h' = flist h \<Longrightarrow> lbytes h' = lbytes h \<Longrightarrow>
     wok (dom (spans h)) P (world h') \<Longrightarrow> inv D P h'"
  unfolding inv_def using spans_ok_cong[of P h h'] lists_ok_cong[of D h h'] by (simp add: clean_ok_def)

lemma inv_committed: "inv D P h \<Longrightarrow> inv D P (h\<lparr>committed_bytes := c\<rparr>)"
  using inv_frame[of D P h "h\<lparr>committed_bytes := c\<rparr>"] invD(3)[of D P h] by simp

lemma inv_put:
  assumes "inv {i} P h" and "spans h i = Some s" and "start s' = start s" and "len s' = len s" and "clean s'"
  shows "inv {i} P (put_span i s' h)"
proof -
  note iD = invD[OF assms(1)]
  have "lists_ok {i} (put_span i s' h)" by (rule lists_ok_cong[OF iD(2)]) auto
  moreover have "dom (spans (put_span i s' h)) = dom (spans h)" using assms(2) by auto
  ultimately show ?thesis using spans_ok_put[OF iD(1) assms(2-4)] iD(3) clean_put[OF iD(5) assms(5)] by (simp add: inv_def)
qed

lemma inv_attach:
  assumes "inv {i} P h" and "spans h i = Some s" and "location s \<noteq> IN_USE" shows "inv {} P (prep i s h)"
  using lists_ok_prep[OF invD(2)[OF assms(1)] assms(2) _ assms(3) invD(4)[OF assms(1)]] invD[OF assms(1)]
    spans_ok_cong[of P h "prep i s h"] by (simp add: inv_def clean_ok_def)

lemma inv_detach:
  assumes "inv {} P h" and "spans h i = Some s" and "location s \<noteq> IN_USE" shows "inv {i} P (unlink i s h)"
  using lists_ok_unlink[OF invD(2)[OF assms(1)] assms(2) _ assms(3) invD(4)[OF assms(1)]] invD[OF assms(1)]
    spans_ok_cong[of P h "unlink i s h"] by (simp add: inv_def clean_ok_def)

lemma inv_in_use:
  assumes "spans h i = Some s" and "location s = IN_USE" shows "inv {i} P h \<longleftrightarrow> inv {} P h"
  using lists_ok_D[of "{}" h "{i}"] lists_ok_D[of "{i}" h "{}"] assms by (auto simp: inv_def)

lemma keeps_put:
  "spans h i = Some s \<Longrightarrow> location s \<noteq> IN_USE \<Longrightarrow> location s' \<noteq> IN_USE \<Longrightarrow> keeps h (put_span i s' h)"
  by (auto simp: keeps_def used_def split: if_splits)

lemma keeps_frame:
  "spans h' = spans h \<Longrightarrow> pagemap h' = pagemap h \<Longrightarrow> pagemap_cache h' = pagemap_cache h \<Longrightarrow>
     aggressive_decommit h' = aggressive_decommit h \<Longrightarrow> keeps h h'"
  by (simp add: keeps_def used_def)

abbreviation bal :: "'w pageheap \<Rightarrow> int" where "bal h \<equiv> unmapped_bytes h + committed_bytes h - system_bytes h"

definition release_works :: bool where
  "release_works \<longleftrightarrow> (\<forall>L P p n w. wok L P w \<longrightarrow> 0 < n \<longrightarrow> fst (sys_release e (p * 2 ^ kPageShift) (n * 2 ^ kPageShift) w))"

lemma DecommitSpan_ok:
  assumes "inv D P h" and "spans h i = Some s"
  obtains rv h' where "DecommitSpan e i h = Inr (rv, h')" and "inv D P h'" and "spans h' = spans h" and "keeps h h'"
    and "release_index h' = release_index h \<and> taken h' = taken h" and "system_bytes h' = system_bytes h" and "normal h' = normal h"
    and "lbytes h' = lbytes h" and "committed_bytes h' = committed_bytes h - (if rv then bytes (len s) else 0)"
    and "release_works \<Longrightarrow> rv"
proof -
  obtain rv w where w: "sys_release e (start s * 2 ^ kPageShift) (len s * 2 ^ kPageShift) (world h) = (rv, w)" by fastforce
  have wk: "wok (dom (spans h)) P w" "sys_taken e w = taken h" using sys_release_ok[OF invD(3)[OF assms(1)]] w by (metis snd_conv)+
  let ?h' = "if rv then h\<lparr>world := w, committed_bytes := committed_bytes h - bytes (len s)\<rparr> else h\<lparr>world := w\<rparr>"
  have r: "DecommitSpan e i h = Inr (rv, ?h')" using assms(2) w by (simp add: DecommitSpan_def Let_def)
  have fl: "flist ?h' = flist h" "lbytes ?h' = lbytes h"
    by (simp_all add: flist_def lbytes_def fun_eq_iff split: location.splits)
  have "inv D P ?h'" by (rule inv_frame[OF assms(1)]) (use fl wk in auto)
  moreover have "keeps h ?h'" by (rule keeps_frame) auto
  moreover have "release_works \<Longrightarrow> rv"
    using w invD(3)[OF assms(1)] spans_okD(2)[OF invD(1)[OF assms(1)] assms(2)] unfolding release_works_def by (metis fst_conv)
  ultimately show thesis by (intro that[OF r]) (use fl wk in auto)
qed

lemma at_loc_attach:
  "spans h i = Some s \<Longrightarrow> at_loc loc {} h = at_loc loc {i} h \<union> (if location s = loc then {i} else {})"
  by (auto simp: at_loc_def)

lemma at_loc_cong: "(\<And>j. j \<notin> D \<Longrightarrow> spans h' j = spans h j) \<Longrightarrow> at_loc loc D h' = at_loc loc D h"
  by (auto simp: at_loc_def)

lemma MergeIntoFreeList_ok:
  assumes i: "inv {i} P h" and s: "spans h i = Some s" and loc: "location s \<noteq> IN_USE"
  obtains h' where "MergeIntoFreeList e i h = Inr h'" and "inv {} P h'" and "keeps h h'" and "release_index h' = release_index h \<and> taken h' = taken h"
    and "system_bytes h' = system_bytes h"
    and "at_loc ON_NORMAL_FREELIST {} h' \<subseteq> at_loc ON_NORMAL_FREELIST {i} h \<union> (if location s = ON_NORMAL_FREELIST then {i} else {})"
    and "\<not> aggressive_decommit h \<Longrightarrow> committed_bytes h' = committed_bytes h \<and>
      (\<forall>loc. loc \<noteq> IN_USE \<longrightarrow> lbytes h' loc = lbytes h loc + (if loc = location s then bytes (len s) else 0))"
    and "location s = ON_RETURNED_FREELIST \<Longrightarrow> lbytes h ON_RETURNED_FREELIST + bytes (len s) \<le> lbytes h' ON_RETURNED_FREELIST"
    and "aggressive_decommit h \<Longrightarrow> release_works \<Longrightarrow> bal h' = bal h"
proof -
  obtain t1 h1 s1 where p: "merge_prev e i h = Inr (t1, h1)" "inv {i} P h1" "spans h1 i = Some s1"
    "location s1 = location s" "start s1 + len s1 = start s + len s" "keeps h h1" "release_index h1 = release_index h \<and> taken h1 = taken h"
    "committed_bytes h1 = committed_bytes h" "system_bytes h1 = system_bytes h"
    "\<And>loc. loc \<noteq> IN_USE \<Longrightarrow> at_loc loc {i} h1 \<subseteq> at_loc loc {i} h"
    "\<And>loc. \<not> aggressive_decommit h \<Longrightarrow> loc \<noteq> IN_USE \<Longrightarrow>
      lbytes h1 loc = lbytes h loc - (if loc = location s then bytes (len s1) - bytes (len s) else 0)"
    "lbytes h ON_RETURNED_FREELIST + bytes (len s) \<le> lbytes h1 ON_RETURNED_FREELIST + bytes (len s1)"
    "aggressive_decommit h \<Longrightarrow> lbytes h1 ON_RETURNED_FREELIST + t1 = lbytes h ON_RETURNED_FREELIST"
    by (rule merge_prev_ok[OF i s loc]) (rule that)
  obtain t2 h2 s2 where n: "merge_next e i (start s + len s) t1 h1 = Inr (t2, h2)" "inv {i} P h2" "spans h2 i = Some s2"
    "location s2 = location s1" "keeps h1 h2" "release_index h2 = release_index h1 \<and> taken h2 = taken h1"
    "committed_bytes h2 = committed_bytes h1" "system_bytes h2 = system_bytes h1"
    "\<And>loc. loc \<noteq> IN_USE \<Longrightarrow> at_loc loc {i} h2 \<subseteq> at_loc loc {i} h1"
    "\<And>loc. \<not> aggressive_decommit h1 \<Longrightarrow> loc \<noteq> IN_USE \<Longrightarrow>
      lbytes h2 loc = lbytes h1 loc - (if loc = location s1 then bytes (len s2) - bytes (len s1) else 0)"
    "lbytes h1 ON_RETURNED_FREELIST + bytes (len s1) \<le> lbytes h2 ON_RETURNED_FREELIST + bytes (len s2)"
    "aggressive_decommit h1 \<Longrightarrow> lbytes h2 ON_RETURNED_FREELIST + t2 = lbytes h1 ON_RETURNED_FREELIST + t1"
    by (rule merge_next_ok[OF p(2,3) _ p(5)[symmetric], where temp = t1], use p(4) loc in simp) (rule that)
  have ag: "aggressive_decommit h1 = aggressive_decommit h" "aggressive_decommit h2 = aggressive_decommit h"
    using p(6) n(5) by (simp_all add: keeps_def)
  have at: "at_loc ON_NORMAL_FREELIST {i} h2 \<subseteq> at_loc ON_NORMAL_FREELIST {i} h" using p(10) n(9) by blast
  have k2: "keeps h h2" using p(6) n(5) by (rule keeps_trans)
  show thesis
  proof (cases "aggressive_decommit h")
    case False
    let ?h' = "prep i s2 h2"
    have r: "MergeIntoFreeList e i h = Inr ?h'"
      using s p(1) n(1,3) False ag by (simp add: MergeIntoFreeList_def PrependToFreeList_eq)
    have l2: "location s2 = location s" "location s2 \<noteq> IN_USE" using n(4) p(4) loc by auto
    have lb: "lbytes ?h' loc = lbytes h loc + (if loc = location s then bytes (len s) else 0)" if "loc \<noteq> IN_USE" for loc
      using flist_prep(2)[OF l2(2) that, of i h2] n(10)[of loc] p(11)[of loc] that False ag p(4) l2(1) by auto
    have "at_loc ON_NORMAL_FREELIST {} ?h' =
        at_loc ON_NORMAL_FREELIST {i} h2 \<union> (if location s = ON_NORMAL_FREELIST then {i} else {})"
      using at_loc_attach[of ?h' i s2] n(3) l2(1) at_loc_cong[of "{i}" ?h' h2] by simp
    then show thesis
      by (intro that[OF r inv_attach[OF n(2,3) l2(2)] keeps_trans[OF k2 keeps_frame]])
        (use p(7-9) n(6-8) at lb False in auto)
  next
    case True
    obtain rv h3 where d: "DecommitSpan e i h2 = Inr (rv, h3)" "inv {i} P h3" "spans h3 = spans h2" "keeps h2 h3"
      "release_index h3 = release_index h2 \<and> taken h3 = taken h2" "system_bytes h3 = system_bytes h2" "normal h3 = normal h2"
      "lbytes h3 = lbytes h2" "committed_bytes h3 = committed_bytes h2 - (if rv then bytes (len s2) else 0)"
      "release_works \<Longrightarrow> rv"
      by (rule DecommitSpan_ok[OF n(2,3)]) (rule that)
    let ?s3 = "if rv then s2\<lparr>location := ON_RETURNED_FREELIST\<rparr> else s2"
    let ?h4 = "if rv then (put_span i ?s3 h3)\<lparr>committed_bytes := committed_bytes h3 + t2\<rparr> else h3"
    have s3: "spans h3 i = Some s2" using n(3) d(3) by simp
    have l3: "location ?s3 \<noteq> IN_USE" "location s2 \<noteq> IN_USE" using n(4) p(4) loc by auto
    have s4: "spans ?h4 i = Some ?s3" using s3 by simp
    have r: "MergeIntoFreeList e i h = Inr (prep i ?s3 ?h4)"
      using s p(1) n(1) d(1) True ag s3 by (simp add: MergeIntoFreeList_def PrependToFreeList_eq)
    have i4: "inv {i} P ?h4"
    proof (cases rv)
      case True
      have "inv {i} P (put_span i ?s3 h3)" by (rule inv_put[OF d(2) s3])
          (use invD(5)[OF d(2)] s3 l3 in \<open>auto simp: clean_ok_def clean_def\<close>)
      then have "inv {i} P ((put_span i ?s3 h3)\<lparr>committed_bytes := committed_bytes h3 + t2\<rparr>)"
        by (rule inv_committed)
      then show ?thesis using True by simp
    qed (use d(2) in auto)
    have k4: "keeps h3 ?h4"
    proof (cases rv)
      case True
      have "keeps h3 (put_span i ?s3 h3)" by (rule keeps_put[OF s3 l3(2,1)])
      moreover have "keeps (put_span i ?s3 h3) ?h4" using True keeps_frame[of "(put_span i ?s3 h3)\<lparr>committed_bytes := committed_bytes h3 + t2\<rparr>" "put_span i ?s3 h3"] by simp
      ultimately show ?thesis by (rule keeps_trans)
    qed simp
    have k: "keeps h (prep i ?s3 ?h4)"
      using keeps_trans[OF keeps_trans[OF keeps_trans[OF k2 d(4)] k4] keeps_frame[of "prep i ?s3 ?h4" ?h4]] by simp
    have "at_loc ON_NORMAL_FREELIST {} (prep i ?s3 ?h4) =
        at_loc ON_NORMAL_FREELIST {i} h2 \<union> (if location ?s3 = ON_NORMAL_FREELIST then {i} else {})"
      using at_loc_attach[of "prep i ?s3 ?h4" i ?s3] s4 at_loc_cong[of "{i}" "prep i ?s3 ?h4" h2] d(3) by simp
    moreover have "location ?s3 = ON_NORMAL_FREELIST \<Longrightarrow> location s = ON_NORMAL_FREELIST" using n(4) p(4) by (simp split: if_splits)
    ultimately have a4: "at_loc ON_NORMAL_FREELIST {} (prep i ?s3 ?h4) \<subseteq>
        at_loc ON_NORMAL_FREELIST {i} h \<union> (if location s = ON_NORMAL_FREELIST then {i} else {})" using at by auto
    have lb: "lbytes h ON_RETURNED_FREELIST + bytes (len s) \<le> lbytes (prep i ?s3 ?h4) ON_RETURNED_FREELIST"
      if "location s = ON_RETURNED_FREELIST"
    proof -
      have "location ?s3 = ON_RETURNED_FREELIST" using that n(4) p(4) by simp
      then show ?thesis using flist_prep(2)[OF l3(1), of ON_RETURNED_FREELIST i ?h4] p(12) n(11) d(8) by (simp split: if_splits)
    qed
    have ba: "bal (prep i ?s3 ?h4) = bal h" if rw: "release_works"
    proof -
      have "rv" using d(10) rw by simp
      have ub: "lbytes x ON_RETURNED_FREELIST = unmapped_bytes x" for x :: "'w pageheap" by (simp add: lbytes_def)
      have "unmapped_bytes h2 + t2 = unmapped_bytes h" using p(13) n(12) True ag unfolding ub by simp
      moreover have "unmapped_bytes h3 = unmapped_bytes h2" using d(8) ub by metis
      moreover have "unmapped_bytes (prep i ?s3 ?h4) = unmapped_bytes h3 + bytes (len s2)" using \<open>rv\<close> by (simp add: prep_def Let_def)
      moreover have "committed_bytes (prep i ?s3 ?h4) = committed_bytes h - bytes (len s2) + t2" using \<open>rv\<close> d(9) n(7) p(8) by simp
      moreover have "system_bytes (prep i ?s3 ?h4) = system_bytes h" using \<open>rv\<close> d(6) n(8) p(9) by simp
      ultimately show ?thesis by simp
    qed
    show thesis by (intro that[OF r inv_attach[OF i4 s4 l3(1)] k _ _ a4]) (use p(7-9) n(6-8) d(5,6) True lb ba in auto)
  qed
qed

abbreviation free_spans :: "'w pageheap \<Rightarrow> nat set" where "free_spans h \<equiv> at_loc ON_NORMAL_FREELIST {} h"

lemma on_normal:
  assumes "inv {} P h" and "i \<in> set (normal h k)"
  obtains s where "spans h i = Some s" "location s = ON_NORMAL_FREELIST" "list_of (len s) = k"
  using lists_okD[OF invD(2)[OF assms(1)], of i ON_NORMAL_FREELIST k] assms(2) by (auto simp: flist_def)

lemma on_returned:
  assumes "inv {} P h" and "i \<in> set (returned h k)"
  obtains s where "spans h i = Some s" "location s = ON_RETURNED_FREELIST" "list_of (len s) = k"
  using lists_okD[OF invD(2)[OF assms(1)], of i ON_RETURNED_FREELIST k] assms(2) by (auto simp: flist_def)

lemma ReleaseLastNormalSpan_ok:
  assumes i: "inv {} P h" and ne: "normal h k \<noteq> []"
  obtains n h' where "ReleaseLastNormalSpan e k h = Inr (n, h')" and "inv {} P h'" and "keeps h h'"
    and "release_index h' = release_index h \<and> taken h' = taken h" and "system_bytes h' = system_bytes h"
    and "if n = 0 then normal h' = normal h \<and> spans h' = spans h \<and> free_bytes h' = free_bytes h else free_spans h' \<subset> free_spans h"
    and "\<not> aggressive_decommit h \<Longrightarrow> bal h' = bal h \<and> free_bytes h' = free_bytes h - bytes n \<and> unmapped_bytes h' = unmapped_bytes h + bytes n"
    and "unmapped_bytes h + bytes n \<le> unmapped_bytes h'"
    and "release_works \<Longrightarrow> n \<noteq> 0"
    and "aggressive_decommit h \<Longrightarrow> release_works \<Longrightarrow> bal h' = bal h - bytes n"
proof -
  let ?i = "last (normal h k)"
  obtain s where s: "spans h ?i = Some s" "location s = ON_NORMAL_FREELIST" by (rule on_normal[OF i last_in_set[OF ne]])
  obtain rv h1 where d: "DecommitSpan e ?i h = Inr (rv, h1)" "inv {} P h1" "spans h1 = spans h" "keeps h h1"
    "release_index h1 = release_index h \<and> taken h1 = taken h" "system_bytes h1 = system_bytes h" "normal h1 = normal h"
    "lbytes h1 = lbytes h" "committed_bytes h1 = committed_bytes h - (if rv then bytes (len s) else 0)"
    "release_works \<Longrightarrow> rv"
    by (rule DecommitSpan_ok[OF i s(1)]) (rule that)
  have fb: "lbytes x ON_NORMAL_FREELIST = free_bytes x" "lbytes x ON_RETURNED_FREELIST = unmapped_bytes x" for x :: "'w pageheap"
    by (simp_all add: lbytes_def)
  show thesis
  proof (cases rv)
    case False
    then have r: "ReleaseLastNormalSpan e k h = Inr (0, h1)" using d(1) by (simp add: ReleaseLastNormalSpan_def Let_def)
    have "free_bytes h1 = free_bytes h" "unmapped_bytes h1 = unmapped_bytes h" using d(8) fb by metis+
    then show thesis by (intro that[OF r d(2,4-6)]) (use d False in \<open>auto simp: bytes_def\<close>)
  next
    case True
    have s1: "spans h1 ?i = Some s" "location s \<noteq> IN_USE" using s d(3) by simp_all
    let ?h2 = "unlink ?i s h1" and ?s3 = "s\<lparr>location := ON_RETURNED_FREELIST\<rparr>"
    let ?h3 = "put_span ?i ?s3 ?h2"
    have s2: "spans ?h2 ?i = Some s" using s1 by simp
    have i3: "inv {?i} P ?h3" by (rule inv_put[OF inv_detach[OF d(2) s1] s2])
      (use clean_okD[OF invD(5)[OF i] s(1)] s in \<open>auto simp: clean_def\<close>)
    have s3: "spans ?h3 ?i = Some ?s3" "location ?s3 \<noteq> IN_USE" by simp_all
    obtain h' where m: "MergeIntoFreeList e ?i ?h3 = Inr h'" "inv {} P h'" "keeps ?h3 h'" "release_index h' = release_index ?h3 \<and> taken h' = taken ?h3"
      "system_bytes h' = system_bytes ?h3"
      "free_spans h' \<subseteq> at_loc ON_NORMAL_FREELIST {?i} ?h3 \<union> (if location ?s3 = ON_NORMAL_FREELIST then {?i} else {})"
      "\<not> aggressive_decommit ?h3 \<Longrightarrow> committed_bytes h' = committed_bytes ?h3 \<and>
        (\<forall>loc. loc \<noteq> IN_USE \<longrightarrow> lbytes h' loc = lbytes ?h3 loc + (if loc = location ?s3 then bytes (len ?s3) else 0))"
      "location ?s3 = ON_RETURNED_FREELIST \<Longrightarrow> lbytes ?h3 ON_RETURNED_FREELIST + bytes (len ?s3) \<le> lbytes h' ON_RETURNED_FREELIST"
      "aggressive_decommit ?h3 \<Longrightarrow> release_works \<Longrightarrow> bal h' = bal ?h3"
      by (rule MergeIntoFreeList_ok[OF i3 s3]) (rule that)
    have r: "ReleaseLastNormalSpan e k h = Inr (len s, h')"
      using d(1) True s1 m(1) by (simp add: ReleaseLastNormalSpan_def Let_def RemoveFromFreeList_eq)
    have k: "keeps h h'"
      by (rule keeps_trans[OF d(4) keeps_trans[OF keeps_frame keeps_trans[OF keeps_put m(3)]]]) (use s s1 in auto)
    have l: "0 < len s" using spans_okD(2)[OF invD(1)[OF i] s(1)] .
    have "at_loc ON_NORMAL_FREELIST {?i} ?h3 = at_loc ON_NORMAL_FREELIST {?i} h" by (rule at_loc_cong) (use d(3) in auto)
    then have "free_spans h' \<subseteq> at_loc ON_NORMAL_FREELIST {?i} h" using m(6) by simp
    moreover have "?i \<in> free_spans h" using s by (simp add: at_loc_def)
    moreover have "at_loc ON_NORMAL_FREELIST {?i} h \<subseteq> free_spans h - {?i}" by (auto simp: at_loc_def)
    ultimately have sub: "free_spans h' \<subset> free_spans h" by blast
    have ub: "unmapped_bytes h + bytes (len s) \<le> unmapped_bytes h'"
      using m(8) flist_unlink(2)[OF s1(2), of ON_RETURNED_FREELIST ?i h1] s(2) d(8) fb(2)[of h] fb(2)[of h'] by simp
    have b: "bal h' = bal h \<and> free_bytes h' = free_bytes h - bytes (len s) \<and> unmapped_bytes h' = unmapped_bytes h + bytes (len s)"
      if na: "\<not> aggressive_decommit h"
    proof -
      have "\<not> aggressive_decommit ?h3" using na d(4) by (simp add: keeps_def)
      note mm = m(7)[OF this]
      have "lbytes ?h3 loc = lbytes h loc - (if loc = ON_NORMAL_FREELIST then bytes (len s) else 0)" if "loc \<noteq> IN_USE" for loc
        using flist_unlink(2)[OF s1(2) that, of ?i h1] s(2) d(8) by (auto split: if_splits)
      then have "lbytes h' ON_NORMAL_FREELIST = lbytes h ON_NORMAL_FREELIST - bytes (len s)"
        "lbytes h' ON_RETURNED_FREELIST = lbytes h ON_RETURNED_FREELIST + bytes (len s)" using mm by auto
      then show ?thesis unfolding fb using mm m(5) d(6,9) True by simp
    qed
    have ba: "bal h' = bal h - bytes (len s)" if "aggressive_decommit h" release_works
    proof -
      have "aggressive_decommit ?h3" using that(1) d(4) by (simp add: keeps_def)
      then have "bal h' = bal ?h3" using m(9) that(2) by blast
      moreover have "unmapped_bytes ?h3 = unmapped_bytes h" using fun_cong[OF d(8), of ON_RETURNED_FREELIST] s(2)
        by (simp add: fb unlink_def Let_def)
      ultimately show ?thesis using d(6,9) True by simp
    qed
    show thesis by (rule that[OF r m(2) k]) (use m(4,5) d(5,6) sub l b ub ba in auto)
  qed
qed

subsection \<open>Releasing memory\<close>

text \<open>What releasing keeps, \<open>n\<close> pages of the normal free lists being released.\<close>

definition steps :: "nat \<Rightarrow> 'w pageheap \<Rightarrow> 'w pageheap \<Rightarrow> bool" where
  "steps n h h' \<longleftrightarrow> keeps h h' \<and> system_bytes h' = system_bytes h \<and> free_spans h' \<subseteq> free_spans h \<and>
     taken h' = taken h \<and> unmapped_bytes h + bytes n \<le> unmapped_bytes h' \<and>
     (\<not> aggressive_decommit h \<longrightarrow> bal h' = bal h \<and> free_bytes h' = free_bytes h - bytes n \<and>
       unmapped_bytes h' = unmapped_bytes h + bytes n) \<and>
     (n \<noteq> 0 \<longrightarrow> free_spans h' \<noteq> free_spans h)"

lemma bytes_0 [simp]: "bytes 0 = 0" by (simp add: bytes_def)

lemma steps_refl [simp]: "steps 0 h h" by (simp add: steps_def)

lemma steps_trans: "steps n h h' \<Longrightarrow> steps m h' h'' \<Longrightarrow> steps (n + m) h h''"
  unfolding steps_def using keeps_trans by (auto simp: keeps_def)

lemma steps_frame:
  "spans h' = spans h \<Longrightarrow> pagemap h' = pagemap h \<Longrightarrow> pagemap_cache h' = pagemap_cache h \<Longrightarrow> lbytes h' = lbytes h \<Longrightarrow>
   aggressive_decommit h' = aggressive_decommit h \<Longrightarrow> system_bytes h' = system_bytes h \<Longrightarrow> committed_bytes h' = committed_bytes h \<Longrightarrow>
   taken h' = taken h \<Longrightarrow> steps 0 h h'"
proof -
  assume a: "spans h' = spans h" "pagemap h' = pagemap h" "pagemap_cache h' = pagemap_cache h" "lbytes h' = lbytes h"
    "aggressive_decommit h' = aggressive_decommit h" "system_bytes h' = system_bytes h" "committed_bytes h' = committed_bytes h"
    "taken h' = taken h"
  have "free_bytes h' = free_bytes h" "unmapped_bytes h' = unmapped_bytes h"
    using fun_cong[OF a(4), of ON_NORMAL_FREELIST] fun_cong[OF a(4), of ON_RETURNED_FREELIST] by (simp_all add: lbytes_def)
  then show ?thesis using a by (simp add: steps_def keeps_def used_def at_loc_def)
qed

lemma inv_release_index: "inv D P h \<Longrightarrow> inv D P (h\<lparr>release_index := r\<rparr>)"
  using inv_frame[of D P h "h\<lparr>release_index := r\<rparr>"] invD(3)[of D P h] by simp

definition list_at :: "nat \<Rightarrow> nat" where "list_at r = (if kMaxPages < r then 0 else r)"

lemma list_at_step: "(list_at (Suc (list_at r)) + m) mod (kMaxPages + 1) = (list_at r + Suc m) mod (kMaxPages + 1)"
proof (cases "list_at r = kMaxPages")
  case True
  then have "list_at r + Suc m = m + (kMaxPages + 1)" by simp
  then show ?thesis using True by (simp only: mod_add_self2) (simp add: list_at_def)
next
  case False
  then have "list_at (Suc (list_at r)) = Suc (list_at r)" by (auto simp: list_at_def split: if_splits)
  then show ?thesis by simp
qed

lemma release_pass_ok:
  "inv {} P h \<Longrightarrow> \<exists>stop r' h'. release_pass e n num r h = Inr (stop, r', h') \<and> inv {} P h' \<and> r \<le> r' \<and> steps (r' - r) h h' \<and>
     (\<not> stop \<and> r' < num \<and> free_spans h' = free_spans h \<longrightarrow> (\<forall>m<n. normal h ((list_at (release_index h) + m) mod (kMaxPages + 1)) = [])) \<and>
     (release_works \<longrightarrow> \<not> stop)"
proof (induction n arbitrary: r h)
  case 0
  then show ?case by auto
next
  case (Suc n)
  let ?k = "list_at (release_index h)"
  define h1 where "h1 = h\<lparr>release_index := ?k\<rparr>"
  have k: "?k mod (kMaxPages + 1) = ?k" by (simp add: list_at_def)
  have h1: "(if kMaxPages < release_index h then h\<lparr>release_index := 0\<rparr> else h) = h1" by (simp add: h1_def list_at_def)
  have i1: "inv {} P h1" "release_index h1 = ?k" "normal h1 = normal h" "steps 0 h h1"
    using inv_release_index[OF Suc.prems, of ?k] steps_frame[of h1 h] by (simp_all add: h1_def)
  show ?case
  proof (cases "r < num")
    case False
    then show ?thesis using Suc.prems by auto
  next
    case True
    have pass: "release_pass e (Suc n) num r h =
        (if normal h1 ?k \<noteq> [] then
           bindR (ReleaseLastNormalSpan e ?k h1) (\<lambda>(l, h).
             if l = 0 then Inr (True, r, h) else release_pass e n num (r + l) (h\<lparr>release_index := release_index h + 1\<rparr>))
         else release_pass e n num r (h1\<lparr>release_index := release_index h1 + 1\<rparr>))"
      using True by (simp add: h1 i1(2) Let_def)
    show ?thesis
    proof (cases "normal h1 ?k = []")
      case emp: True
      let ?h2 = "h1\<lparr>release_index := release_index h1 + 1\<rparr>"
      obtain stop r' h' where q: "release_pass e n num r ?h2 = Inr (stop, r', h')" "inv {} P h'" "r \<le> r'" "steps (r' - r) ?h2 h'"
        "\<not> stop \<and> r' < num \<and> free_spans h' = free_spans ?h2 \<longrightarrow>
          (\<forall>m<n. normal ?h2 ((list_at (release_index ?h2) + m) mod (kMaxPages + 1)) = [])" "release_works \<longrightarrow> \<not> stop"
        using Suc.IH[OF inv_release_index[OF i1(1)]] by blast
      have st: "steps (r' - r) h h'"
        using steps_trans[OF steps_trans[OF i1(4) steps_frame[of ?h2 h1]] q(4)] by simp
      have "normal h ((?k + m) mod (kMaxPages + 1)) = []"
        if c: "\<not> stop \<and> r' < num \<and> free_spans h' = free_spans h" and m: "m < Suc n" for m
      proof (cases m)
        case 0
        then show ?thesis using emp i1(3) k by simp
      next
        case (Suc m')
        have "free_spans ?h2 = free_spans h" by (simp add: at_loc_def h1_def)
        then have "\<forall>m<n. normal h ((list_at (Suc ?k) + m) mod (kMaxPages + 1)) = []" using q(5) c i1(2,3) by simp
        then have "normal h ((list_at (Suc ?k) + m') mod (kMaxPages + 1)) = []" using m Suc by simp
        then show ?thesis unfolding list_at_step Suc .
      qed
      moreover have "release_pass e (Suc n) num r h = Inr (stop, r', h')" unfolding pass using emp q(1) by simp
      ultimately show ?thesis using q(2,3,6) st by (intro exI[of _ stop] exI[of _ r'] exI[of _ h']) simp
    next
      case False
      obtain l h2 where l: "ReleaseLastNormalSpan e ?k h1 = Inr (l, h2)" "inv {} P h2" "keeps h1 h2"
        "release_index h2 = release_index h1 \<and> taken h2 = taken h1" "system_bytes h2 = system_bytes h1"
        "if l = 0 then normal h2 = normal h1 \<and> spans h2 = spans h1 \<and> free_bytes h2 = free_bytes h1 else free_spans h2 \<subset> free_spans h1"
        "\<not> aggressive_decommit h1 \<Longrightarrow> bal h2 = bal h1 \<and> free_bytes h2 = free_bytes h1 - bytes l \<and> unmapped_bytes h2 = unmapped_bytes h1 + bytes l"
        "unmapped_bytes h1 + bytes l \<le> unmapped_bytes h2" "release_works \<Longrightarrow> l \<noteq> 0"
        by (rule ReleaseLastNormalSpan_ok[OF i1(1) False]) (rule that)
      have sub: "free_spans h2 \<subseteq> free_spans h1" using l(6) by (auto simp: at_loc_def split: if_splits)
      have s12: "steps l h1 h2" using l(3-8) sub by (auto simp: steps_def)
      show ?thesis
      proof (cases "l = 0")
        case True
        then have "release_pass e (Suc n) num r h = Inr (True, r, h2)" unfolding pass using False l(1) by simp
        then show ?thesis using l(2) steps_trans[OF i1(4) s12] True l(9) by (intro exI[of _ True] exI[of _ r] exI[of _ h2]) auto
      next
        case nz: False
        let ?h3 = "h2\<lparr>release_index := release_index h2 + 1\<rparr>"
        obtain stop r' h' where q: "release_pass e n num (r + l) ?h3 = Inr (stop, r', h')" "inv {} P h'" "r + l \<le> r'"
          "steps (r' - (r + l)) ?h3 h'" "release_works \<longrightarrow> \<not> stop" using Suc.IH[OF inv_release_index[OF l(2)]] by blast
        have e: "0 + l + 0 + (r' - (r + l)) = r' - r" using q(3) by simp
        have st: "steps (r' - r) h h'"
          using steps_trans[OF steps_trans[OF steps_trans[OF i1(4) s12] steps_frame[of ?h3 h2]] q(4)] unfolding e by simp
        have "free_spans h' \<subseteq> free_spans h2" using q(4) by (simp add: steps_def at_loc_def)
        moreover have "free_spans h2 \<subset> free_spans h" using l(6) nz i1(4) by (simp add: h1_def at_loc_def)
        ultimately have "free_spans h' \<noteq> free_spans h" by blast
        moreover have "release_pass e (Suc n) num r h = Inr (stop, r', h')" unfolding pass using False l(1) nz q(1) by simp
        ultimately show ?thesis using q(2,3,5) st by (intro exI[of _ stop] exI[of _ r'] exI[of _ h']) simp
      qed
    qed
  qed
qed

lemma free_bytes_pos:
  assumes "inv {} P h" and "0 < free_bytes h"
  obtains k where "k \<le> kMaxPages" "normal h k \<noteq> []"
proof -
  have "free_bytes h = bytes (total ON_NORMAL_FREELIST {} h)"
    using invD(2)[OF assms(1)] by (auto simp: lists_ok_def lbytes_def dest!: spec[of _ ON_NORMAL_FREELIST])
  then have "total ON_NORMAL_FREELIST {} h \<noteq> 0" using assms(2) by (metis bytes_0 less_irrefl)
  then have "at_loc ON_NORMAL_FREELIST {} h \<noteq> {}" by (metis sum.empty total_def)
  then obtain i where i: "i \<in> at_loc ON_NORMAL_FREELIST {} h" by blast
  let ?k = "list_of (len (the (spans h i)))"
  have "set (flist h ON_NORMAL_FREELIST ?k) = {i \<in> at_loc ON_NORMAL_FREELIST {} h. list_of (len (the (spans h i))) = ?k}"
    using invD(2)[OF assms(1)] unfolding lists_ok_def by blast
  then have "normal h ?k \<noteq> []" using i by (auto simp: flist_def)
  then show thesis by (rule that[rotated]) (simp add: list_of_def)
qed

lemma free_spans_finite: "inv {} P h \<Longrightarrow> finite (free_spans h)"
  by (rule finite_subset[OF _ invD(4)]) (auto simp: at_loc_def)

lemma free_spans_pos: "inv {} P h \<Longrightarrow> 0 < free_bytes h \<Longrightarrow> 0 < card (free_spans h)"
proof -
  assume i: "inv {} P h" and "0 < free_bytes h"
  then obtain k where k: "normal h k \<noteq> []" using free_bytes_pos by blast
  obtain s where "spans h (hd (normal h k)) = Some s" "location s = ON_NORMAL_FREELIST" by (rule on_normal[OF i hd_in_set[OF k]])
  then have "hd (normal h k) \<in> free_spans h" by (simp add: at_loc_def)
  then show ?thesis using free_spans_finite[OF i] by (auto simp: card_gt_0_iff)
qed

lemma release_loop_ok:
  "inv {} P h \<Longrightarrow> card (free_spans h) < fuel \<Longrightarrow>
     \<exists>r' h'. release_loop e fuel num r h = Inr (r', h') \<and> inv {} P h' \<and> r \<le> r' \<and> steps (r' - r) h h' \<and>
       (release_works \<longrightarrow> num \<le> r' \<or> free_bytes h' \<le> 0)"
proof (induction fuel arbitrary: r h)
  case 0
  then show ?case by simp
next
  case (Suc fuel)
  show ?case
  proof (cases "r < num \<and> 0 < free_bytes h")
    case False
    then show ?thesis using Suc.prems by auto
  next
    case True
    obtain stop r1 h1 where q: "release_pass e (kMaxPages + 1) num r h = Inr (stop, r1, h1)" "inv {} P h1" "r \<le> r1"
      "steps (r1 - r) h h1" "\<not> stop \<and> r1 < num \<and> free_spans h1 = free_spans h \<longrightarrow>
        (\<forall>m<kMaxPages + 1. normal h ((list_at (release_index h) + m) mod (kMaxPages + 1)) = [])" "release_works \<longrightarrow> \<not> stop"
      using release_pass_ok[OF Suc.prems(1)] by blast
    show ?thesis
    proof (cases stop)
      case st: True
      then show ?thesis using q True by simp
    next
      case ns: False
      have loop: "release_loop e (Suc fuel) num r h = release_loop e fuel num r1 h1" using True q(1) ns by simp
      show ?thesis
      proof (cases "r1 < num")
        case False
        obtain f where "fuel = Suc f" using Suc.prems free_spans_pos[OF Suc.prems(1)] True by (cases fuel) auto
        then show ?thesis using loop False q(2-4) by simp
      next
        case lt: True
        obtain k where k: "k \<le> kMaxPages" "normal h k \<noteq> []" using free_bytes_pos[OF Suc.prems(1)] True by blast
        let ?a = "list_at (release_index h)"
        let ?m = "(k + (kMaxPages + 1) - ?a) mod (kMaxPages + 1)"
        have a: "?a \<le> kMaxPages" by (simp add: list_at_def)
        have "(?a + ?m) mod (kMaxPages + 1) = (?a + (k + (kMaxPages + 1) - ?a)) mod (kMaxPages + 1)" by (rule mod_add_right_eq)
        also have "?a + (k + (kMaxPages + 1) - ?a) = k + (kMaxPages + 1)" using a by simp
        also have "(k + (kMaxPages + 1)) mod (kMaxPages + 1) = k" using k(1) by (simp only: mod_add_self2) simp
        finally have "normal h ((?a + ?m) mod (kMaxPages + 1)) \<noteq> []" using k(2) by simp
        moreover have "?m < kMaxPages + 1" by simp
        ultimately have "free_spans h1 \<noteq> free_spans h" using q(5) ns lt by blast
        then have "free_spans h1 \<subset> free_spans h" using q(4) by (auto simp: steps_def)
        then have "card (free_spans h1) < card (free_spans h)" using free_spans_finite[OF Suc.prems(1)] by (rule psubset_card_mono[rotated])
        then have "card (free_spans h1) < fuel" using Suc.prems(2) by simp
        then obtain r' h' where i: "release_loop e fuel num r1 h1 = Inr (r', h')" "inv {} P h'" "r1 \<le> r'" "steps (r' - r1) h1 h'"
          "release_works \<longrightarrow> num \<le> r' \<or> free_bytes h' \<le> 0"
          using Suc.IH[OF q(2)] by blast
        have "steps (r' - r) h h'" using steps_trans[OF q(4) i(4)] q(3) i(3) by simp
        then show ?thesis using loop i q(3) by auto
      qed
    qed
  qed
qed

end
end
