(* ===== verification/PageHeap_Alloc.thy ===== *)
theory PageHeap_Alloc
  imports PageHeap_Release
begin

section \<open>Allocating and freeing spans\<close>

text \<open>
  The search of the free lists, carving, freeing and the growth of the heap keep the invariant; an allocation takes one
  span into use and leaves the others alone.  \<open>outcome r Q\<close> says that the run \<open>r\<close> returns a value with \<open>Q\<close>, or stops with the
  crash that reports the lack of memory for metadata.
\<close>

definition outcome :: "'a res \<Rightarrow> ('a \<Rightarrow> bool) \<Rightarrow> bool" where
  "outcome r Q \<longleftrightarrow> (case r of Inl x \<Rightarrow> x = Crash | Inr y \<Rightarrow> Q y)"

lemma outcome_simps [simp]: "outcome (Inr y) Q = Q y" "outcome (Inl x) Q = (x = Crash)"
  by (simp_all add: outcome_def)

lemma outcome_bind: "outcome x Q \<Longrightarrow> (\<And>y. Q y \<Longrightarrow> outcome (f y) R) \<Longrightarrow> outcome (bindR x f) R"
  by (cases x) simp_all

lemma outcome_mono: "outcome x Q \<Longrightarrow> (\<And>y. Q y \<Longrightarrow> R y) \<Longrightarrow> outcome x R"
  by (cases x) simp_all

text \<open>The environment fails only by the crash that reports the lack of memory for metadata.\<close>

locale page_env_total = page_env e wok for e :: "'w penv" and wok +
  assumes sys_alloc_total: "wok L P w \<Longrightarrow> sys_alloc e n w = Inl x \<Longrightarrow> x = Crash"
    and span_new_total: "wok L P w \<Longrightarrow> span_new e w = Inl x \<Longrightarrow> x = Crash"
    and record_growth_total: "wok L P w \<Longrightarrow> record_growth e n w = Inl x \<Longrightarrow> x = Crash"
    and map_alloc_total: "wok L P w \<Longrightarrow> map_alloc e n (Inr w) = (b, Inl x) \<Longrightarrow> x = Crash"

text \<open>The effect of an allocation: the span \<open>i\<close>, with \<open>n\<close> pages, becomes one of the spans in use; the others, and what the
  page map says of their pages, stay.\<close>

definition allocated :: "nat \<Rightarrow> 'w pageheap \<Rightarrow> nat \<Rightarrow> 'w pageheap \<Rightarrow> bool" where
  "allocated n h i h' \<longleftrightarrow> (if i = 0 then keeps h h' else
     (\<exists>s. len s = n \<and> sizeclass s = 0 \<and> \<not> sample s \<and> i \<notin> fst ` used h \<and> used h' = insert (i, s) (used h)) \<and>
     pagemap_cache h' = pagemap_cache h \<and> aggressive_decommit h' = aggressive_decommit h \<and>
     (\<forall>j t p. (j, t) \<in> used h \<longrightarrow> p \<in> pg t \<longrightarrow> pagemap h' p = pagemap h p))"

lemma keeps_allocated: "keeps h h' \<Longrightarrow> allocated n h' i h'' \<Longrightarrow> allocated n h i h''"
  by (auto simp: allocated_def keeps_def)

lemma allocated_committed [simp]: "allocated n h i (h'\<lparr>committed_bytes := c\<rparr>) = allocated n h i h'"
  by (simp add: allocated_def keeps_def used_def)

lemma prep_commute: "mark_page b i (put_span i s' (prep j l h)) = prep j l (mark_page b i (put_span i s' h))"
  by (simp add: prep_def mark_page_def put_span_def Let_def)

context page_env_total
begin

lemma Commit_ok:
  "spans h i = Some s \<Longrightarrow> CommitSpan i h = Inr (h\<lparr>committed_bytes := committed_bytes h + bytes (len s)\<rparr>)"
  by (simp add: CommitSpan_def)

definition carved :: "nat \<Rightarrow> nat set \<Rightarrow> 'w pageheap \<Rightarrow> nat \<Rightarrow> span \<Rightarrow> 'w pageheap \<Rightarrow> bool" where
  "carved n P h i s h' \<longleftrightarrow> inv {} P h' \<and> allocated n h i h' \<and> system_bytes h' = system_bytes h \<and>
     committed_bytes h' = committed_bytes h \<and> (\<exists>s'. spans h' i = Some s' \<and> len s' = n) \<and>
     unmapped_bytes h' = unmapped_bytes h - (if location s = ON_RETURNED_FREELIST then bytes n else 0)"

lemma carve_exact:
  assumes i: "inv {} P h" and s: "spans h i = Some s" and loc: "location s \<noteq> IN_USE"
  shows "carved (len s) P h i s (put_span i (s\<lparr>location := IN_USE\<rparr>) (unlink i s h))" (is "carved _ _ _ _ _ ?h'")
proof -
  let ?s1 = "s\<lparr>location := IN_USE\<rparr>"
  have "inv {i} P ?h'" by (rule inv_put[OF inv_detach[OF i s loc]]) (use s in \<open>simp_all add: clean_def\<close>)
  then have inv: "inv {} P ?h'" using inv_in_use[of ?h' i ?s1 P] by simp
  have i0: "i \<noteq> 0" using spans_okD(1)[OF invD(1)[OF i] s] .
  have "i \<notin> fst ` used h" "used ?h' = insert (i, ?s1) (used h)" using s loc by (auto simp: used_def split: if_splits)
  then have al: "allocated (len s) h i ?h'" using i0 clean_okD[OF invD(5)[OF i] s loc]
    by (auto simp: allocated_def intro!: exI[of _ ?s1])
  have "unmapped_bytes ?h' = unmapped_bytes h - (if location s = ON_RETURNED_FREELIST then bytes (len s) else 0)"
    using loc by (cases "location s") (simp_all add: unlink_def Let_def)
  then show ?thesis using inv al by (simp add: carved_def)
qed

lemma carve_split:
  assumes i: "inv {} P h" and s: "spans h i = Some s" and loc: "location s \<noteq> IN_USE" and n: "0 < n" "n < len s"
    and j: "span_new e (world h) = Inr (j, w)"
    and l: "start l = start s + n" "len l = len s - n" "location l = location s" "clean l"
    and s': "start s' = start s" "len s' = n" "location s' = IN_USE" "sizeclass s' = sizeclass s" "sample s' = sample s"
    and X: "spans X = (spans h)(j \<mapsto> l, i \<mapsto> s')"
      "pagemap X = (pagemap h)(start l := j, start l + len l - 1 := j, start s + n - 1 := i)" "has_node X = has_node h"
      "flist X = flist (unlink i s h)" "lbytes X = lbytes (unlink i s h)" "world X = w" "system_bytes X = system_bytes h"
      "committed_bytes X = committed_bytes h" "pagemap_cache X = pagemap_cache h" "aggressive_decommit X = aggressive_decommit h"
  shows "carved n P h i s (prep j l X)"
proof -
  note iD = invD[OF i]
  have jw: "j \<noteq> 0" "j \<notin> dom (spans h)" "wok (insert j (dom (spans h))) P w" using span_new_ok[OF iD(3) j] by auto
  have ij: "i \<noteq> j" using s jw(2) by auto
  have so: "spans_ok P X" by (rule spans_ok_cut[OF iD(1) s n _ jw(1) s'(1,2) l(1,2) X(1-3)]) (use jw(2) in auto)
  have ll: "location l \<noteq> IN_USE" using loc l(3) by simp
  have "lists_ok {i} (unlink i s h)" using invD(2)[OF inv_detach[OF i s loc]] .
  then have "lists_ok {i, j} (unlink i s h)" by (rule lists_ok_D) (use jw(2) in auto)
  then have "lists_ok {i, j} X" by (rule lists_ok_cong) (use X in auto)
  then have "lists_ok ({i, j} - {j}) (prep j l X)"
    by (rule lists_ok_prep) (use X ij ll so in \<open>auto simp: spans_ok_def\<close>)
  then have "lists_ok {} (prep j l X)" by (rule lists_ok_D) (use X s' in auto)
  moreover have "spans_ok P (prep j l X)" by (rule spans_ok_cong[OF so]) simp_all
  moreover have "clean_ok (prep j l X)" using iD(5) X(1) l(4) s'(3) by (auto simp: clean_ok_def clean_def)
  moreover have "dom (spans (prep j l X)) = insert j (dom (spans h))" using X(1) s by auto
  ultimately have inv: "inv {} P (prep j l X)" using jw(3) X(6) by (simp add: inv_def)
  have i0: "i \<noteq> 0" using spans_okD(1)[OF iD(1) s] .
  have u: "used (prep j l X) = insert (i, s') (used h)" "i \<notin> fst ` used h"
    using X(1) s loc s'(3) ll jw(2) by (auto simp: used_def split: if_splits)
  have "pagemap X p = pagemap h p" if "(x, t) \<in> used h" "p \<in> pg t" for x t p
  proof -
    have x: "spans h x = Some t" "x \<noteq> i" using that(1) s loc by (auto simp: used_def)
    then have "p \<notin> pg s" using spans_ok_disj[OF iD(1) x(1) s] that(2) by auto
    then have "p \<noteq> start l" "p \<noteq> start l + len l - 1" "p \<noteq> start s + n - 1" using n l(1,2) by (auto simp: pg_def)
    then show ?thesis using X(2) by simp
  qed
  then have al: "allocated n h i (prep j l X)"
    using u i0 clean_okD[OF iD(5) s loc] s' X(9,10) by (auto simp: allocated_def)
  have lb: "lbytes (prep j l X) ON_RETURNED_FREELIST = lbytes h ON_RETURNED_FREELIST - (if location s = ON_RETURNED_FREELIST then bytes n else 0)"
  proof -
    have "bytes (len s) = bytes n + bytes (len l)" using bytes_add[of n "len l"] l(2) n by simp
    then show ?thesis using flist_prep(2)[OF ll, of ON_RETURNED_FREELIST j X] flist_unlink(2)[OF loc, of ON_RETURNED_FREELIST i h]
        X(5) l(3) by (auto split: if_splits)
  qed
  then have "unmapped_bytes (prep j l X) = unmapped_bytes h - (if location s = ON_RETURNED_FREELIST then bytes n else 0)"
    by (simp add: lbytes_def)
  then show ?thesis using inv al X s'(2) by (simp add: carved_def)
qed

lemma Carve_ok:
  assumes i: "inv {} P h" and s: "spans h i = Some s" and loc: "location s \<noteq> IN_USE" and n: "0 < n" "n \<le> len s"
  shows "outcome (Carve e i n h) (\<lambda>(i', h'). i' = i \<and> inv {} P h' \<and> allocated n h i h' \<and>
    system_bytes h' = system_bytes h \<and> bal h' = bal h)"
proof -
  let ?s1 = "s\<lparr>location := IN_USE\<rparr>"
  let ?h1 = "put_span i ?s1 (unlink i s h)"
  let ?mid = "if 0 < len s - n then
              bindR (alloc_span e (start s + n) (len s - n) ?h1) (\<lambda>(j, h).
              bindR (get_span h j) (\<lambda>l.
                bindR (RecordSpan j (put_span j (l\<lparr>location := location s\<rparr>) h)) (\<lambda>h.
                bindR (PrependToFreeList j h) (\<lambda>h.
                  set_page (start s + n - 1) i (put_span i (?s1\<lparr>len := n\<rparr>) h)))))
            else Inr ?h1"
  have mid: "outcome ?mid (carved n P h i s)"
  proof (cases "n = len s")
    case True
    then show ?thesis using carve_exact[OF i s loc] by simp
  next
    case False
    then have lt: "n < len s" using n by simp
    show ?thesis
    proof (cases "span_new e (world h)")
      case (Inl x)
      then show ?thesis using span_new_total[OF invD(3)[OF i] Inl] lt by (simp add: alloc_span_def)
    next
      case (Inr jw)
      then obtain j w where j: "span_new e (world h) = Inr (j, w)" by (cases jw) auto
      have ij: "i \<noteq> j" using span_new_ok[OF invD(3)[OF i] j] s by auto
      define l where "l = (NewSpan (start s + n) (len s - n))\<lparr>location := location s\<rparr>"
      have l: "start l = start s + n" "len l = len s - n" "location l = location s" "clean l"
        by (simp_all add: l_def NewSpan_def clean_def)
      let ?H = "put_span j l (?h1\<lparr>world := w\<rparr>)"
      have nd: "has_node h p" if "start s \<le> p" "p < start s + len s" for p by (rule spans_ok_ends[OF invD(1)[OF i] s that])
      have "0 < len l" using l(2) lt by simp
      moreover have "has_node ?H (start l)" "has_node ?H (start l + len l - 1)" using nd l lt by simp_all
      ultimately obtain t where t: "RecordSpan j ?H = Inr (?H\<lparr>pagetree := t\<rparr>)" "has_node (?H\<lparr>pagetree := t\<rparr>) = has_node ?H"
        "pagemap (?H\<lparr>pagetree := t\<rparr>) = (pagemap ?H)(start l := j, start l + len l - 1 := j)"
        using RecordSpan_node[of ?H j l] by (metis fun_upd_same put_span_frame(1))
      define R where "R = ?H\<lparr>pagetree := t\<rparr>"
      have R: "has_node R = has_node h" "pagemap R = (pagemap h)(start l := j, start l + len l - 1 := j)" "spans R j = Some l"
        using t(2,3) by (simp_all add: R_def)
      let ?X = "mark_page (start s + n - 1) i (put_span i (?s1\<lparr>len := n\<rparr>) R)"
      have np: "has_node h (start s + n - 1)" using nd n(1) lt by simp
      have "?mid = Inr (prep j l ?X)"
      proof -
        have a: "alloc_span e (start s + n) (len s - n) ?h1 =
            Inr (j, put_span j (NewSpan (start s + n) (len s - n)) (?h1\<lparr>world := w\<rparr>))" using j by (simp add: alloc_span_def)
        have b: "put_span j l (put_span j (NewSpan (start s + n) (len s - n)) (?h1\<lparr>world := w\<rparr>)) = ?H"
          by (simp add: put_span_def)
        have p: "PrependToFreeList j R = Inr (prep j l R)" by (rule PrependToFreeList_eq[OF R(3)])
        have q: "set_page (start s + n - 1) i (put_span i (?s1\<lparr>len := n\<rparr>) (prep j l R)) = Inr (prep j l ?X)"
          using np R(1) by (simp add: set_page_node prep_commute)
        show ?thesis using lt a b t(1) p q by (simp add: l_def[symmetric] R_def[symmetric])
      qed
      moreover have "carved n P h i s (prep j l ?X)"
        by (rule carve_split[OF i s loc n(1) lt j l, of "?s1\<lparr>len := n\<rparr>"])
          (use ij R np in \<open>simp_all add: fun_upd_twist\<close>, simp_all add: R_def fun_upd_twist)
      ultimately show ?thesis by simp
    qed
  qed
  have c: "Carve e i n h = bindR ?mid (\<lambda>h. if location s = ON_RETURNED_FREELIST
      then bindR (CommitSpan i h) (\<lambda>h. Inr (i, h)) else Inr (i, h))"
    using s by (simp add: Carve_def RemoveFromFreeList_eq Let_def)
  show ?thesis unfolding c
  proof (rule outcome_bind[OF mid])
    fix h' assume h': "carved n P h i s h'"
    then obtain s' where s': "spans h' i = Some s'" "len s' = n" by (auto simp: carved_def)
    show "outcome (if location s = ON_RETURNED_FREELIST then bindR (CommitSpan i h') (\<lambda>h. Inr (i, h)) else Inr (i, h'))
        (\<lambda>(i', h'). i' = i \<and> inv {} P h' \<and> allocated n h i h' \<and> system_bytes h' = system_bytes h \<and> bal h' = bal h)"
      using h' s' by (simp add: Commit_ok carved_def inv_committed)
  qed
qed

subsection \<open>The limit and the search\<close>

lemma wrap64_id: "x < 2 ^ 64 \<Longrightarrow> wrap64 (int x) = x"
proof -
  assume "x < 2 ^ 64"
  then have "int x < 2 ^ 64" by (metis of_nat_less_iff of_nat_numeral of_nat_power)
  then show ?thesis by (simp add: wrap64_def)
qed

lemma wrap64_less: "wrap64 x < 2 ^ 64"
proof -
  have "x mod 2 ^ 64 < 2 ^ 64" by (rule pos_mod_bound) simp
  then show ?thesis unfolding wrap64_def by (simp add: nat_less_iff)
qed

text \<open>The pages that count towards the limit.\<close>

abbreviation limit :: "pflags \<Rightarrow> nat" where
  "limit fl \<equiv> wrap64 (heap_limit_mb fl * 1024 * 1024 div 2 ^ kPageShift)"

abbreviation pages_taken :: "'w pageheap \<Rightarrow> nat" where
  "pages_taken h \<equiv> wrap64 (int (taken h div 2 ^ kPageShift) - unmapped_bytes h div 2 ^ kPageShift)"

definition in_limit :: "pflags \<Rightarrow> nat \<Rightarrow> 'w pageheap \<Rightarrow> bool" where
  "in_limit fl n h \<longleftrightarrow> limit fl = 0 \<or> wrap64 (int (pages_taken h) + int n) \<le> limit fl"

lemma EnsureLimit_False: "EnsureLimit e fl fuel n False h = Inr (in_limit fl n h, h)"
  by (simp add: EnsureLimit_def in_limit_def Let_def)

text \<open>A limit that was exceeded and is kept after releasing memory has cost a free span.\<close>

lemma EnsureLimit_ok:
  assumes i: "inv {} P h" and f: "card (free_spans h) < fuel"
  obtains ok r h' where "EnsureLimit e fl fuel n True h = Inr (ok, h')" and "inv {} P h'" and "steps r h h'"
    and "ok \<and> \<not> in_limit fl n h \<longrightarrow> r \<noteq> 0"
proof (cases "in_limit fl n h")
  case True
  then have "EnsureLimit e fl fuel n True h = Inr (True, h)" by (auto simp: EnsureLimit_def in_limit_def Let_def)
  then show thesis by (rule that[OF _ i steps_refl]) (use True in simp)
next
  case False
  let ?t = "pages_taken h"
  obtain r h' where l: "release_loop e fuel (wrap64 (int ?t + int n - int (limit fl))) 0 h = Inr (r, h')" "inv {} P h'" "steps (r - 0) h h'"
    using release_loop_ok[OF i f] by blast
  have r: "EnsureLimit e fl fuel n True h = Inr (wrap64 (int (wrap64 (int ?t - int r)) + int n) \<le> limit fl, h')"
    using False l(1) by (simp add: EnsureLimit_def in_limit_def Let_def ReleaseAtLeastNPages_def)
  have "wrap64 (int (wrap64 (int ?t - int r)) + int n) \<le> limit fl \<longrightarrow> r \<noteq> 0"
  proof (intro impI notI)
    assume le: "wrap64 (int (wrap64 (int ?t - int r)) + int n) \<le> limit fl" and "r = 0"
    then have "int ?t - int r = int ?t" by simp
    then have "wrap64 (int ?t - int r) = ?t" by (metis wrap64_id[OF wrap64_less])
    then show False using le False unfolding in_limit_def by metis
  qed
  then show thesis using that[OF r l(2)] l(3) by simp
qed

text \<open>The result of a search: a span of the heap taken into use, or 0.\<close>

definition found :: "nat \<Rightarrow> nat set \<Rightarrow> 'w pageheap \<Rightarrow> nat \<times> 'w pageheap \<Rightarrow> bool" where
  "found n P h r \<longleftrightarrow> (case r of (i, h') \<Rightarrow> inv {} P h' \<and> allocated n h i h' \<and> system_bytes h' = system_bytes h \<and>
     (\<not> aggressive_decommit h \<longrightarrow> bal h' = bal h) \<and> (i = 0 \<longrightarrow> free_spans h' \<subseteq> free_spans h))"

lemma steps_found:
  assumes "steps r h h'" and "found n P h' x" shows "found n P h x"
proof -
  obtain i h'' where x: "x = (i, h'')" by fastforce
  have "allocated n h i h''" using keeps_allocated[of h h' n i h''] assms by (simp add: steps_def found_def x)
  moreover have "aggressive_decommit h' = aggressive_decommit h" using assms(1) by (simp add: steps_def keeps_def)
  ultimately show ?thesis using assms by (auto simp: steps_def found_def x)
qed

lemma Carve_found:
  assumes "inv {} P h" and "spans h i = Some s" and "location s \<noteq> IN_USE" and "0 < n" "n \<le> len s"
  shows "outcome (Carve e i n h) (found n P h)"
  by (rule outcome_mono[OF Carve_ok[OF assms]])
    (use spans_okD(1)[OF invD(1)[OF assms(1)] assms(2)] in \<open>auto simp: found_def\<close>)

text \<open>\<open>best_fit\<close> finds the span of least length, and among these of least address, that is long enough.\<close>

definition fits :: "'w pageheap \<Rightarrow> nat \<Rightarrow> nat \<Rightarrow> bool" where
  "fits h n i \<longleftrightarrow> (\<exists>s. spans h i = Some s \<and> n \<le> len s)"

definition better :: "'w pageheap \<Rightarrow> nat \<Rightarrow> nat \<Rightarrow> bool" where
  "better h i j \<longleftrightarrow> (let s = the (spans h i); t = the (spans h j) in len s < len t \<or> len s = len t \<and> start s \<le> start t)"

lemma best_fit_ok:
  "0 \<notin> set is \<Longrightarrow> \<forall>i\<in>set is. spans h i \<noteq> None \<Longrightarrow> best \<noteq> 0 \<longrightarrow> fits h n best \<Longrightarrow>
     \<exists>b. best_fit h n is best = Inr b \<and> (b = best \<or> b \<in> set is) \<and> (b \<noteq> 0 \<longrightarrow> fits h n b) \<and>
       (\<forall>i\<in>insert best (set is). i \<noteq> 0 \<longrightarrow> fits h n i \<longrightarrow> b \<noteq> 0 \<and> better h b i)"
proof (induction "is" arbitrary: best)
  case Nil
  then show ?case by (auto simp: better_def)
next
  case (Cons i "is")
  obtain s where s: "spans h i = Some s" using Cons.prems(2) by auto
  have i0: "i \<noteq> 0" and IH: "\<And>b. b \<noteq> 0 \<longrightarrow> fits h n b \<Longrightarrow> \<exists>c. best_fit h n is b = Inr c \<and> (c = b \<or> c \<in> set is) \<and> (c \<noteq> 0 \<longrightarrow> fits h n c) \<and>
       (\<forall>i\<in>insert b (set is). i \<noteq> 0 \<longrightarrow> fits h n i \<longrightarrow> c \<noteq> 0 \<and> better h c i)" using Cons by auto
  show ?case
  proof (cases "n \<le> len s")
    case False
    have "\<not> fits h n i" using False s by (simp add: fits_def)
    then show ?thesis using IH[OF Cons.prems(3)] False s by auto
  next
    case True
    then have fi: "fits h n i" using s by (simp add: fits_def)
    show ?thesis
    proof (cases "best = 0")
      case b0: True
      show ?thesis using IH[of i] fi True s b0 by auto
    next
      case False
      then obtain t where t: "spans h best = Some t" "n \<le> len t" using Cons.prems(3) by (auto simp: fits_def)
      define b where "b = (if len s < len t \<or> len s = len t \<and> start s < start t then i else best)"
      have bb: "fits h n b" "b \<noteq> 0" "b = i \<or> b = best" using fi Cons.prems(3) False i0 by (auto simp: b_def)
      then obtain c where c: "best_fit h n is b = Inr c" "c = b \<or> c \<in> set is" "c \<noteq> 0 \<longrightarrow> fits h n c"
        "\<forall>i\<in>insert b (set is). i \<noteq> 0 \<longrightarrow> fits h n i \<longrightarrow> c \<noteq> 0 \<and> better h c i" using IH[of b] by blast
      have "better h b i" "better h b best" using s t by (auto simp: better_def Let_def b_def)
      moreover have cb: "better h c b" "c \<noteq> 0" using c(4) bb by blast+
      ultimately have "better h c i" "better h c best" unfolding better_def Let_def by linarith+
      moreover have "best_fit h n (i # is) best = Inr c" using s t True False c(1) by (simp add: b_def)
      moreover have "c = best \<or> c \<in> set (i # is)" using c(2) bb(3) by auto
      ultimately show ?thesis using c(3,4) cb(2) by auto
    qed
  qed
qed

lemma list_spans:
  assumes "inv {} P h"
  shows "0 \<notin> set (normal h k)" "\<forall>i\<in>set (normal h k). spans h i \<noteq> None"
    "0 \<notin> set (returned h k)" "\<forall>i\<in>set (returned h k). spans h i \<noteq> None"
  using on_normal[OF assms] on_returned[OF assms] spans_okD(1)[OF invD(1)[OF assms]]
  by (metis option.distinct(1))+

lemma large_choice:
  assumes i: "inv {} P h"
  obtains bn b where "best_fit h n (normal h kMaxPages) 0 = Inr bn" and "best_fit h n (returned h kMaxPages) bn = Inr b"
    and "b \<noteq> 0 \<longrightarrow> (\<exists>s. spans h b = Some s \<and> location s \<noteq> IN_USE \<and> n \<le> len s)"
proof -
  obtain bn where n: "best_fit h n (normal h kMaxPages) 0 = Inr bn" "bn = 0 \<or> bn \<in> set (normal h kMaxPages)" "bn \<noteq> 0 \<longrightarrow> fits h n bn"
    using best_fit_ok[of "normal h kMaxPages" h 0 n] list_spans(1,2)[OF i] by blast
  obtain b where b: "best_fit h n (returned h kMaxPages) bn = Inr b" "b = bn \<or> b \<in> set (returned h kMaxPages)" "b \<noteq> 0 \<longrightarrow> fits h n b"
    using best_fit_ok[of "returned h kMaxPages" h bn n] list_spans(3,4)[OF i] n(3) by blast
  have "\<exists>s. spans h b = Some s \<and> location s \<noteq> IN_USE \<and> n \<le> len s" if b0: "b \<noteq> 0"
  proof -
    obtain s where s: "spans h b = Some s" "n \<le> len s" using b(3) b0 by (auto simp: fits_def)
    have "b \<in> set (normal h kMaxPages) \<or> b \<in> set (returned h kMaxPages)" using b(2) n(2) b0 by auto
    then have "location s \<noteq> IN_USE" using on_normal[OF i] on_returned[OF i] s(1)
      by (metis location.distinct(1,3) option.inject)
    then show ?thesis using s by blast
  qed
  then show thesis using that n(1) b(1) by blast
qed

lemma found_none: "inv {} P h \<Longrightarrow> found n P h (0, h)"
  by (simp add: found_def allocated_def)

lemma steps_card:
  assumes "inv {} P h" and "steps r h h'"
  shows "card (free_spans h') \<le> card (free_spans h)" and "r \<noteq> 0 \<Longrightarrow> card (free_spans h') < card (free_spans h)"
proof -
  note fin = free_spans_finite[OF assms(1)]
  show "card (free_spans h') \<le> card (free_spans h)" by (rule card_mono[OF fin]) (use assms(2) in \<open>simp add: steps_def\<close>)
  assume "r \<noteq> 0"
  then have "free_spans h' \<subset> free_spans h" using assms(2) by (auto simp: steps_def)
  then show "card (free_spans h') < card (free_spans h)" by (rule psubset_card_mono[OF fin])
qed

text \<open>Every retry of \<^verbatim>\<open>AllocLarge\<close> has released a free span.\<close>

lemma AllocLarge_ok:
  assumes "inv {} P h" and n: "0 < n" and "card (free_spans h) < rfuel" and "card (free_spans h) < fuel"
  shows "outcome (AllocLarge e fl rfuel fuel n h) (found n P h)"
  using assms(1,3,4)
proof (induction fuel arbitrary: h)
  case (Suc fuel)
  note i = Suc.prems(1)
  obtain bn b where b: "best_fit h n (normal h kMaxPages) 0 = Inr bn" "best_fit h n (returned h kMaxPages) bn = Inr b"
    "b \<noteq> 0 \<longrightarrow> (\<exists>s. spans h b = Some s \<and> location s \<noteq> IN_USE \<and> n \<le> len s)" by (rule large_choice[OF i])
  have c: "outcome (Carve e b n h) (found n P h)" if "b \<noteq> 0" using Carve_found[OF i _ _ n] b(3) that by blast
  have b0: "b \<noteq> bn \<Longrightarrow> b \<noteq> 0" using best_fit_ok[of "returned h kMaxPages" h bn n] list_spans(3)[OF i] b(1,2) best_fit_ok[of "normal h kMaxPages" h 0 n] list_spans[OF i]
    by (metis sum.inject(2))
  obtain ok r h' where l: "EnsureLimit e fl rfuel n True h = Inr (ok, h')" "inv {} P h'" "steps r h h'" "ok \<and> \<not> in_limit fl n h \<longrightarrow> r \<noteq> 0"
    by (rule EnsureLimit_ok[OF i Suc.prems(2)])
  have none: "found n P h (0, h')" by (rule steps_found[OF l(3) found_none[OF l(2)]])
  have retry: "outcome (AllocLarge e fl rfuel fuel n h') (found n P h)" if "ok" "\<not> in_limit fl n h"
  proof (rule outcome_mono[OF Suc.IH[OF l(2)]])
    show "card (free_spans h') < rfuel" using steps_card(1)[OF i l(3)] Suc.prems(2) by simp
    show "card (free_spans h') < fuel" using steps_card(2)[OF i l(3)] l(4) that Suc.prems(3) by simp
  qed (rule steps_found[OF l(3)])
  have "AllocLarge e fl rfuel (Suc fuel) n h = (if b = bn then (if b = 0 then Inr (0, h) else Carve e b n h)
      else if in_limit fl n h then Carve e b n h else if ok then AllocLarge e fl rfuel fuel n h' else Inr (0, h'))"
    by (simp add: b(1,2) l(1) EnsureLimit_False)
  then show ?case using c b0 none retry found_none[OF i] by (auto simp del: AllocLarge.simps)
qed simp

lemma search_lists_ok:
  assumes "inv {} P h" and "0 < n" and "n \<le> s" and "m \<noteq> 0 \<longrightarrow> s + m = kMaxPages" and "card (free_spans h) < fuel"
  shows "outcome (search_lists e fl fuel m s n h) (found n P h)"
  using assms
proof (induction m arbitrary: s h)
  case 0
  then show ?case using AllocLarge_ok[OF 0(1,2,5,5)] by simp
next
  case (Suc m)
  have sm: "s < kMaxPages" using Suc.prems(4) by simp
  have len: "list_of x = s \<Longrightarrow> x = s" for x using sm by (auto simp: list_of_def split: if_splits)
  have rest: "outcome (search_lists e fl fuel m (s + 1) n h') (found n P h)" if "inv {} P h'" "steps r h h'" for h' r
  proof (rule outcome_mono[OF Suc.IH[OF that(1) Suc.prems(2)]])
    have "free_spans h' \<subseteq> free_spans h" using that(2) by (simp add: steps_def)
    then have "card (free_spans h') \<le> card (free_spans h)" by (rule card_mono[OF free_spans_finite[OF Suc.prems(1)]])
    then show "card (free_spans h') < fuel" using Suc.prems(5) by simp
  qed (use Suc.prems steps_found[OF that(2)] in auto)
  show ?case
  proof (cases "normal h s = []")
    case False
    obtain t where t: "spans h (hd (normal h s)) = Some t" "location t = ON_NORMAL_FREELIST" "list_of (len t) = s"
      by (rule on_normal[OF Suc.prems(1) hd_in_set[OF False]])
    then have "outcome (Carve e (hd (normal h s)) n h) (found n P h)"
      using Carve_found[OF Suc.prems(1) t(1) _ Suc.prems(2)] Suc.prems(3) len[OF t(3)] by simp
    then show ?thesis using False by simp
  next
    case nn: True
    show ?thesis
    proof (cases "returned h s = []")
      case True
      then show ?thesis using nn rest[OF Suc.prems(1) steps_refl] by simp
    next
      case False
      obtain ok r h' where l: "EnsureLimit e fl fuel n True h = Inr (ok, h')" "inv {} P h'" "steps r h h'"
        by (rule EnsureLimit_ok[OF Suc.prems(1,5)])
      have "outcome (Carve e (hd (returned h' s)) n h') (found n P h)" if ne: "returned h' s \<noteq> []"
      proof -
        obtain t where t: "spans h' (hd (returned h' s)) = Some t" "location t = ON_RETURNED_FREELIST" "list_of (len t) = s"
          by (rule on_returned[OF l(2) hd_in_set[OF ne]])
        then have "outcome (Carve e (hd (returned h' s)) n h') (found n P h')"
          using Carve_found[OF l(2) t(1) _ Suc.prems(2)] Suc.prems(3) len[OF t(3)] by simp
        then show ?thesis by (rule outcome_mono) (rule steps_found[OF l(3)])
      qed
      then show ?thesis using nn False l(1) rest[OF l(2,3)] by simp
    qed
  qed
qed

lemma Search_ok:
  assumes "inv {} P h" and "0 < n" and "card (free_spans h) < fuel"
  shows "outcome (SearchFreeAndLargeLists e fl fuel n h) (found n P h)"
  unfolding SearchFreeAndLargeLists_def by (rule search_lists_ok) (use assms in auto)

subsection \<open>Freeing and growing\<close>

lemma inv_scavenge: "inv D P h \<Longrightarrow> inv D P (h\<lparr>scavenge_counter := x\<rparr>)"
  using inv_frame[of D P h "h\<lparr>scavenge_counter := x\<rparr>"] invD(3)[of D P h] by simp

lemma steps_scavenge: "steps 0 h (h\<lparr>scavenge_counter := x\<rparr>)"
  by (rule steps_frame) simp_all

lemma IncrementalScavenge_ok:
  assumes i: "inv {} P h" and f: "card (free_spans h) < fuel"
  obtains r h' where "IncrementalScavenge e fl fuel n h = Inr h'" and "inv {} P h'" and "steps r h h'"
proof -
  let ?h = "h\<lparr>scavenge_counter := scavenge_counter h - int n\<rparr>"
  have i1: "inv {} P ?h" "steps 0 h ?h" using inv_scavenge[OF i] steps_scavenge by auto
  have "card (free_spans ?h) < fuel" using f by (simp add: at_loc_def)
  then obtain r h' where l: "release_loop e fuel 1 0 ?h = Inr (r, h')" "inv {} P h'" "steps (r - 0) ?h h'"
    using release_loop_ok[OF i1(1)] by blast
  have st: "steps r h h'" using steps_trans[OF i1(2) l(3)] by simp
  have A: thesis if "IncrementalScavenge e fl fuel n h = Inr (?h\<lparr>scavenge_counter := x\<rparr>)" for x
    using \<open>\<And>h' r. IncrementalScavenge e fl fuel n h = Inr h' \<Longrightarrow> inv {} P h' \<Longrightarrow> steps r h h' \<Longrightarrow> thesis\<close>[OF that]
      inv_scavenge[OF i1(1), of x] steps_trans[OF i1(2) steps_scavenge, of x] by simp
  have B: thesis if "IncrementalScavenge e fl fuel n h = Inr (h'\<lparr>scavenge_counter := x\<rparr>)" for x
    using \<open>\<And>h' r. IncrementalScavenge e fl fuel n h = Inr h' \<Longrightarrow> inv {} P h' \<Longrightarrow> steps r h h' \<Longrightarrow> thesis\<close>[OF that]
      inv_scavenge[OF l(2), of x] steps_trans[OF st steps_scavenge, of x] by simp
  show thesis
  proof (cases "0 \<le> scavenge_counter h - int n")
    case True
    then show thesis using A[of "scavenge_counter h - int n"] by (simp add: IncrementalScavenge_def Let_def)
  next
    case neg: False
    show thesis
    proof (cases "release_rate fl \<le> 1 / 10 ^ 6")
      case True
      then show thesis using A[of kDefaultReleaseDelay] neg by (simp add: IncrementalScavenge_def Let_def)
    next
      case False
      show thesis using B l(1) neg False
        by (cases "r = 0") (simp_all add: IncrementalScavenge_def Let_def ReleaseAtLeastNPages_def)
    qed
  qed
qed

lemma Delete_ok:
  assumes i: "inv {} P h" and u: "(i, s) \<in> used h" and f: "card (free_spans h) + 1 < fuel"
  obtains h' where "Delete e fl fuel i h = Inr h'" and "inv {} P h'" and "used h' = used h - {(i, s)}"
    and "pagemap_cache h' = pagemap_cache h" and "aggressive_decommit h' = aggressive_decommit h"
    and "\<forall>j t p. (j, t) \<in> used h' \<longrightarrow> p \<in> pg t \<longrightarrow> pagemap h' p = pagemap h p"
    and "system_bytes h' = system_bytes h" and "\<not> aggressive_decommit h \<Longrightarrow> bal h' = bal h"
    and "free_spans h' \<subseteq> insert i (free_spans h)"
proof -
  have s: "spans h i = Some s" "location s = IN_USE" using u by (auto simp: used_def)
  let ?s1 = "s\<lparr>sizeclass := 0, sample := False, location := ON_NORMAL_FREELIST\<rparr>"
  let ?h1 = "put_span i ?s1 h"
  have i1: "inv {i} P ?h1" by (rule inv_put[of i P h s]) (use s i inv_in_use in \<open>auto simp: clean_def\<close>)
  have "location ?s1 \<noteq> location s" using s(2) by simp
  then have "?s1 \<noteq> s" by metis
  then have u1: "used ?h1 = used h - {(i, s)}" using s by (auto simp: used_def split: if_splits)
  obtain h2 where m: "MergeIntoFreeList e i ?h1 = Inr h2" "inv {} P h2" "keeps ?h1 h2" "system_bytes h2 = system_bytes ?h1"
    "free_spans h2 \<subseteq> at_loc ON_NORMAL_FREELIST {i} ?h1 \<union> (if location ?s1 = ON_NORMAL_FREELIST then {i} else {})"
    "\<not> aggressive_decommit ?h1 \<Longrightarrow> committed_bytes h2 = committed_bytes ?h1 \<and>
      (\<forall>loc. loc \<noteq> IN_USE \<longrightarrow> lbytes h2 loc = lbytes ?h1 loc + (if loc = location ?s1 then bytes (len ?s1) else 0))"
    by (rule MergeIntoFreeList_ok[OF i1, of ?s1]) (simp_all add: that)
  have "at_loc ON_NORMAL_FREELIST {i} ?h1 \<subseteq> free_spans h" by (auto simp: at_loc_def split: if_splits)
  then have fs: "free_spans h2 \<subseteq> insert i (free_spans h)" using m(5) by auto
  have "card (free_spans h2) \<le> card (insert i (free_spans h))" by (rule card_mono[OF _ fs]) (use free_spans_finite[OF i] in simp)
  also have "\<dots> \<le> card (free_spans h) + 1" by (simp add: card_insert_le_m1 free_spans_finite[OF i] card_insert_if)
  finally have "card (free_spans h2) < fuel" using f by simp
  then obtain r h' where v: "IncrementalScavenge e fl fuel (len s) h2 = Inr h'" "inv {} P h'" "steps r h2 h'"
    by (rule IncrementalScavenge_ok[OF m(2)])
  have k: "keeps ?h1 h'" using m(3) v(3) keeps_trans by (auto simp: steps_def)
  have r: "Delete e fl fuel i h = Inr h'" using s(1) m(1) v(1) by (simp add: Delete_def Let_def)
  have u': "used h' = used h - {(i, s)}" using k u1 by (simp add: keeps_def)
  have b: "bal h' = bal h" if "\<not> aggressive_decommit h"
  proof -
    have "unmapped_bytes h2 = unmapped_bytes h" using m(6) that by (auto simp: lbytes_def dest!: spec[of _ ON_RETURNED_FREELIST])
    moreover have "\<not> aggressive_decommit h2" using m(3) that by (simp add: keeps_def)
    ultimately show ?thesis using v(3) m(4,6) that by (simp add: steps_def)
  qed
  have pm: "\<forall>j t p. (j, t) \<in> used h' \<longrightarrow> p \<in> pg t \<longrightarrow> pagemap h' p = pagemap h p" using k u1 u' by (simp add: keeps_def)
  have ca: "pagemap_cache h' = pagemap_cache h" "aggressive_decommit h' = aggressive_decommit h" using k by (simp_all add: keeps_def)
  have "system_bytes h' = system_bytes h" "free_spans h' \<subseteq> free_spans h2" using v(3) m(4) by (simp_all add: steps_def)
  then show thesis using that[OF r v(2) u' ca pm _ b] fs by blast
qed

text \<open>\<^verbatim>\<open>Ensure\<close> of the page map: what the map holds stays, nodes are only added, and after a success every page asked for has its node.\<close>

lemma ensure_pages_ok:
  assumes w: "wok L P (world h)"
  shows "outcome (ensure_pages e p n h) (\<lambda>(ok, h'). (\<exists>t w. h' = h\<lparr>pagetree := t, world := w\<rparr> \<and> wok L P w) \<and> pagemap h' = pagemap h \<and>
    (\<forall>q. has_node h q \<longrightarrow> has_node h' q) \<and> (ok \<longrightarrow> 0 < n \<longrightarrow> p + n \<le> 2 ^ 64 \<longrightarrow> (\<forall>q. p \<le> q \<and> q < p + n \<longrightarrow> has_node h' q)))"
proof -
  let ?I = "\<lambda>m. outcome m (wok L P)"
  obtain ok t m where e: "Ensure3 35 (map_alloc e) p (last_key p n) (pagetree h, Inr (world h)) = (ok, t, m)" by (metis prod_cases3)
  have keep: "?I (snd (map_alloc e sz m))" if "?I m" for sz m
  proof (cases m)
    case (Inl x)
    then show ?thesis using that by (simp add: map_alloc_fault)
  next
    case (Inr w)
    obtain b y where y: "map_alloc e sz (Inr w) = (b, y)" by fastforce
    show ?thesis using that Inr y map_alloc_ok[of L P w sz b] map_alloc_total[of L P w sz b] by (cases y) auto
  qed
  have I: "?I m" using Ensure3_pres[OF e, of ?I] keep w by simp
  have bits: "2 * INTERIOR_BITS 35 \<le> 35" by (simp add: INTERIOR_BITS_def)
  note S = Ensure3_spec[OF e bits]
  show ?thesis
  proof (cases m)
    case (Inl x)
    then show ?thesis using I e by (simp add: ensure_pages_def)
  next
    case (Inr w')
    have "q \<le> last_key p n" if "p \<le> q" "q < p + n" "p + n \<le> 2 ^ 64" for q using last_key_eq[of n p] that by simp
    then show ?thesis using I e Inr S by (auto simp: ensure_pages_def pagemap_def has_node_def)
  qed
qed

text \<open>A span made of fresh pages, in use.\<close>

lemma inv_fresh_span:
  assumes i: "inv {} P h" and w: "wok (dom (spans h)) (P \<union> R) (world h0)" and h0: "spans h0 = spans h" "pagemap h0 = pagemap h"
      "flist h0 = flist h" "lbytes h0 = lbytes h"
      "\<forall>q. has_node h q \<or> q \<in> R \<longrightarrow> has_node h0 q"
    and R: "R = {p..<p + n}" "R \<inter> P = {}" "0 < p" "0 < n" and a: "alloc_span e p n h0 = Inr (j, h1)"
  obtains h2 where "RecordSpan j h1 = Inr h2" and "inv {} (P \<union> R) h2" and "used h2 = insert (j, NewSpan p n) (used h)" and "j \<notin> dom (spans h)"
    and "pagemap_cache h2 = pagemap_cache h0" and "aggressive_decommit h2 = aggressive_decommit h0"
    and "\<forall>x. x \<notin> R \<longrightarrow> pagemap h2 x = pagemap h x" and "system_bytes h2 = system_bytes h0" and "bal h2 = bal h0"
    and "free_spans h2 = free_spans h"
proof -
  note iD = invD[OF i]
  obtain w' where j: "span_new e (world h0) = Inr (j, w')" and h1: "h1 = put_span j (NewSpan p n) (h0\<lparr>world := w'\<rparr>)"
    using a by (auto simp: alloc_span_def bindR_eq_Inr)
  have jw: "j \<noteq> 0" "j \<notin> dom (spans h)" "wok (insert j (dom (spans h))) (P \<union> R) w'" using span_new_ok[OF w j] by auto
  let ?t = "NewSpan p n"
  have t: "start ?t = p" "len ?t = n" "location ?t = IN_USE" "pg ?t = R" using R(1) by (simp_all add: NewSpan_def pg_def)
  have nd: "has_node h1 q = has_node h0 q" "pagemap h1 = pagemap h" "spans h1 j = Some ?t" for q by (simp_all add: h1 h0)
  have "p \<in> R" "p + n - 1 \<in> R" using R(1,4) by auto
  then have "has_node h1 (start ?t)" "has_node h1 (start ?t + len ?t - 1)" "0 < len ?t" using nd(1) h0(5) R(4) t by auto
  then obtain tr where tr: "RecordSpan j h1 = Inr (h1\<lparr>pagetree := tr\<rparr>)" "has_node (h1\<lparr>pagetree := tr\<rparr>) = has_node h1"
    "pagemap (h1\<lparr>pagetree := tr\<rparr>) = (pagemap h1)(start ?t := j, start ?t + len ?t - 1 := j)"
    using RecordSpan_node[OF nd(3)] by metis
  define h2 where "h2 = h1\<lparr>pagetree := tr\<rparr>"
  note r = tr(1)[folded h2_def]
  have sp: "spans h2 = (spans h)(j \<mapsto> ?t)" "pagemap h2 = (pagemap h)(start ?t := j, start ?t + len ?t - 1 := j)"
    "\<And>q. has_node h q \<or> q \<in> pg ?t \<Longrightarrow> has_node h2 q"
    using tr(2,3) nd h0(5) t(4) by (simp_all add: h2_def) (simp_all add: h1 h0)
  have so: "spans_ok (P \<union> pg ?t) h2" by (rule spans_ok_add[OF iD(1) _ jw(1) _ _ _ sp]) (use jw(2) t R in auto)
  have "lists_ok {j} h" by (rule lists_ok_D[OF iD(2)]) (use jw(2) in auto)
  then have "lists_ok {j} h2" by (rule lists_ok_cong) (use sp in \<open>auto simp: h2_def h1 h0\<close>)
  then have "lists_ok {} h2" by (rule lists_ok_D) (use sp t in auto)
  moreover have "clean_ok h2" using iD(5) sp t by (auto simp: clean_ok_def clean_def)
  moreover have "world h2 = w'" by (simp add: h2_def h1)
  ultimately have inv: "inv {} (P \<union> R) h2" using so t(4) jw(3) sp(1) by (simp add: inv_def)
  have un: "unmapped_bytes h2 = unmapped_bytes h0" "committed_bytes h2 = committed_bytes h0" by (simp_all add: h2_def h1)
  have fs: "free_spans h2 = free_spans h" using sp t(3) jw(2) by (auto simp: at_loc_def)
  have us: "used h2 = insert (j, ?t) (used h)" using sp t(3) jw(2) by (auto simp: used_def split: if_splits)
  have "pagemap h2 x = pagemap h x" if "x \<notin> R" for x
  proof -
    have "x \<noteq> p" "x \<noteq> p + n - 1" using that R by auto
    then show ?thesis using sp(2) t by simp
  qed
  then show thesis by (intro that[OF r inv us jw(2)]) (use un fs in \<open>simp_all add: h2_def h1\<close>)
qed

end
end
