(* ===== verification/PageHeap_New.thy ===== *)
theory PageHeap_New
  imports PageHeap_Alloc
begin

section \<open>Growing the heap\<close>

text \<open>\<^verbatim>\<open>GrowHeap\<close> and \<^verbatim>\<open>New\<close>: the invariant over the pages the heap has, and what an allocation returns.\<close>

context page_env_total
begin

text \<open>What growing the heap does: nothing for the spans in use.\<close>

definition grown :: "nat set \<Rightarrow> 'w pageheap \<Rightarrow> 'w pageheap \<Rightarrow> bool" where
  "grown P h h' \<longleftrightarrow> (\<exists>P'. P \<subseteq> P' \<and> inv {} P' h') \<and> keeps h h' \<and> system_bytes h \<le> system_bytes h' \<and>
     (\<not> aggressive_decommit h \<longrightarrow> bal h' = bal h) \<and> card (free_spans h') \<le> card (free_spans h) + 1"

definition quiet :: "'w pageheap \<Rightarrow> 'w pageheap \<Rightarrow> bool" where
  "quiet h h' \<longleftrightarrow> keeps h h' \<and> system_bytes h' = system_bytes h \<and> free_spans h' \<subseteq> free_spans h \<and>
     (\<not> aggressive_decommit h \<longrightarrow> bal h' = bal h)"

lemma steps_quiet: "steps n h h' \<Longrightarrow> quiet h h'"
  by (auto simp: steps_def quiet_def)

lemma quiet_world: "quiet h (h'\<lparr>world := w\<rparr>) = quiet h h'"
  by (simp add: quiet_def keeps_def used_def at_loc_def)

lemma quiet_trans: "quiet h h' \<Longrightarrow> quiet h' h'' \<Longrightarrow> quiet h h''"
  unfolding quiet_def using keeps_trans by (auto simp: keeps_def)

lemma card_free_spans: "inv {} P h \<Longrightarrow> quiet h h' \<Longrightarrow> card (free_spans h') \<le> card (free_spans h)"
  by (rule card_mono[OF free_spans_finite]) (auto simp: quiet_def)

lemma quiet_grown:
  assumes "inv {} P h" and "quiet h h'" and "grown P h' h''" shows "grown P h h''"
proof -
  have "keeps h h''" using assms(2,3) keeps_trans by (auto simp: quiet_def grown_def)
  moreover have "aggressive_decommit h' = aggressive_decommit h" using assms(2) by (simp add: quiet_def keeps_def)
  ultimately show ?thesis using assms card_free_spans[OF assms(1,2)] by (auto simp: quiet_def grown_def)
qed

lemma quiet_grown0: "inv {} P h \<Longrightarrow> inv {} P h' \<Longrightarrow> quiet h h' \<Longrightarrow> grown P h h'"
  using card_free_spans[of P h h'] unfolding grown_def by (auto simp: quiet_def)

definition try_alloc :: "pflags \<Rightarrow> nat \<Rightarrow> nat \<Rightarrow> 'w pageheap \<Rightarrow> ((nat \<times> nat) option \<times> 'w pageheap) res" where
  "try_alloc fl fuel ask h = bindR (EnsureLimit e fl fuel ask True h) (\<lambda>(ok, h).
     if ok then bindR (sys_alloc e (ask * 2 ^ kPageShift) (world h)) (\<lambda>(r, w). Inr (r, h\<lparr>world := w\<rparr>))
     else Inr (None, h))"

lemma try_alloc_ok:
  assumes i: "inv {} P h" and f: "card (free_spans h) < fuel"
  shows "outcome (try_alloc fl fuel ask h) (\<lambda>(r, h'). case r of None \<Rightarrow> inv {} P h' \<and> quiet h h'
     | Some (p, sz) \<Rightarrow> \<exists>h0 w. inv {} P h0 \<and> quiet h h0 \<and> h' = h0\<lparr>world := w\<rparr> \<and> 2 ^ kPageShift \<le> p \<and> ask * 2 ^ kPageShift \<le> sz \<and>
         page_range p sz \<inter> P = {} \<and> wok (dom (spans h0)) (P \<union> page_range p sz) w)"
proof -
  obtain ok n h0 where l: "EnsureLimit e fl fuel ask True h = Inr (ok, h0)" "inv {} P h0" "steps n h h0"
    by (rule EnsureLimit_ok[OF i f])
  note w0 = invD(3)[OF l(2)] and q0 = steps_quiet[OF l(3)]
  show ?thesis
  proof (cases ok)
    case False
    then show ?thesis using l q0 by (simp add: try_alloc_def)
  next
    case True
    show ?thesis
    proof (cases "sys_alloc e (ask * 2 ^ kPageShift) (world h0)")
      case (Inl x)
      then show ?thesis using sys_alloc_total[OF w0 Inl] l(1) True by (simp add: try_alloc_def)
    next
      case (Inr y)
      obtain r w where y: "y = (r, w)" by fastforce
      have t: "try_alloc fl fuel ask h = Inr (r, h0\<lparr>world := w\<rparr>)" using l(1) True Inr y by (simp add: try_alloc_def)
      show ?thesis
      proof (cases r)
        case None
        then have "wok (dom (spans h0)) P w" using sys_alloc_none[OF w0, of _ w] Inr y by simp
        then have "inv {} P (h0\<lparr>world := w\<rparr>)" using inv_frame[OF l(2), of "h0\<lparr>world := w\<rparr>"] by simp
        then show ?thesis using t None q0 by (simp add: quiet_world)
      next
        case (Some x)
        obtain p sz where "x = (p, sz)" by fastforce
        then show ?thesis using sys_alloc_some[OF w0, of _ p sz w] Inr y Some t l(2) q0 by auto
      qed
    qed
  qed
qed

text \<open>The second half of \<^verbatim>\<open>GrowHeap\<close>, with memory from the system.\<close>

definition grow_with :: "pflags \<Rightarrow> nat \<Rightarrow> nat \<Rightarrow> nat \<Rightarrow> 'w pageheap \<Rightarrow> (bool \<times> 'w pageheap) res" where
  "grow_with fl fuel ptr actual_size h =
     (let ask = actual_size div 2 ^ kPageShift in
      bindR (record_growth e (ask * 2 ^ kPageShift) (world h)) (\<lambda>w.
        let h = h\<lparr>world := w, system_bytes := system_bytes h + bytes ask,
                  committed_bytes := committed_bytes h + bytes ask\<rparr>;
            p = ptr div 2 ^ kPageShift
        in bindR (ensure_pages e (p - 1) (ask + 2) h) (\<lambda>(ok, h).
             if ok then
               bindR (alloc_span e p ask h) (\<lambda>(i, h).
               bindR (RecordSpan i h) (\<lambda>h.
               bindR (Delete e fl fuel i h) (\<lambda>h. Inr (True, h))))
             else Inr (False, h))))"

lemma GrowHeap_eq:
  "GrowHeap e fl fuel n h =
     (if kMaxValidPages < n then Inr (False, h)
      else let ask = (if kMinSystemAlloc < n then n else kMinSystemAlloc) in
        bindR (try_alloc fl fuel ask h) (\<lambda>(r, h).
        bindR (if r = None \<and> n < ask then try_alloc fl fuel n h else Inr (r, h)) (\<lambda>(r, h).
          case r of None \<Rightarrow> Inr (False, h) | Some (ptr, actual_size) \<Rightarrow> grow_with fl fuel ptr actual_size h)))"
  unfolding GrowHeap_def try_alloc_def grow_with_def Let_def by (rule refl)

lemma spans_ok_grow:
  "spans_ok P h \<Longrightarrow> P \<subseteq> P' \<Longrightarrow> spans h' = spans h \<Longrightarrow> pagemap h' = pagemap h \<Longrightarrow> \<forall>q. has_node h q \<longrightarrow> has_node h' q \<Longrightarrow> spans_ok P' h'"
  unfolding spans_ok_def by simp blast

lemma grow_with_span:
  assumes i: "inv {} P h0" and f: "card (free_spans h0) + 1 < fuel" and h: "h = h0\<lparr>world := w\<rparr>"
    and sys: "2 ^ kPageShift \<le> ptr" "2 ^ kPageShift \<le> sz" "page_range ptr sz \<inter> P = {}" "wok (dom (spans h0)) (P \<union> page_range ptr sz) w"
    and w1: "record_growth e (sz div 2 ^ kPageShift * 2 ^ kPageShift) w = Inr w1"
    and h1: "h1 = h0\<lparr>world := w1, system_bytes := system_bytes h0 + bytes (sz div 2 ^ kPageShift), committed_bytes := committed_bytes h0 + bytes (sz div 2 ^ kPageShift)\<rparr>"
    and en: "ensure_pages e (ptr div 2 ^ kPageShift - 1) (sz div 2 ^ kPageShift + 2) h1 = Inr (ok, h2)"
    and post: "h2 = h1\<lparr>pagetree := tr, world := w2\<rparr>" "wok (dom (spans h0)) (P \<union> page_range ptr sz) w2" "pagemap h2 = pagemap h0"
      "\<forall>q. has_node h0 q \<longrightarrow> has_node h2 q" "ok \<longrightarrow> (\<forall>q\<in>page_range ptr sz. has_node h2 q)"
  shows "outcome (grow_with fl fuel ptr sz h) (\<lambda>(ok, h'). grown P h0 h')"
proof -
  let ?ask = "sz div 2 ^ kPageShift" and ?p = "ptr div 2 ^ kPageShift" and ?R = "page_range ptr sz"
  let ?h2 = "h2"
  note wk = post(2)
  have w2: "world h2 = w2" using post(1) by simp
  have g: "grow_with fl fuel ptr sz h = (if ok then
      bindR (alloc_span e ?p ?ask ?h2) (\<lambda>(i, h). bindR (RecordSpan i h) (\<lambda>h. bindR (Delete e fl fuel i h) (\<lambda>h. Inr (True, h))))
      else Inr (False, ?h2))"
    using w1 h en h1 by (simp add: grow_with_def Let_def)
  have pos: "0 < ?p" "0 < ?ask" using sys(1,2) by (simp_all add: div_greater_zero_iff)
  have fr: "spans ?h2 = spans h0" "pagemap ?h2 = pagemap h0" "flist ?h2 = flist h0" "lbytes ?h2 = lbytes h0"
    using post(1,3) h1 by simp_all
  have fs: "pagemap_cache h2 = pagemap_cache h0" "aggressive_decommit h2 = aggressive_decommit h0"
    "system_bytes h2 = system_bytes h0 + bytes ?ask" "bal h2 = bal h0" using post(1) h1 by simp_all
  show ?thesis
  proof (cases ok)
    case False
    have "spans_ok (P \<union> ?R) h2" by (rule spans_ok_grow[OF invD(1)[OF i] _ fr(1,2)]) (use post(4) in auto)
    moreover have "lists_ok {} h2" by (rule lists_ok_cong[OF invD(2)[OF i]]) (use fr in auto)
    ultimately have "inv {} (P \<union> ?R) ?h2" using wk w2 invD(5)[OF i] fr(1) by (simp add: inv_def clean_ok_def)
    moreover have "keeps h0 ?h2" by (rule keeps_frame) (use fr fs in simp_all)
    moreover have "free_spans ?h2 = free_spans h0" by (rule at_loc_cong) (use fr in simp)
    ultimately have "grown P h0 ?h2" unfolding grown_def using fs by (auto intro!: exI[of _ "P \<union> ?R"])
    then show ?thesis using g False by simp
  next
    case True
    show ?thesis
    proof (cases "alloc_span e ?p ?ask ?h2")
      case (Inl x)
      then have "span_new e w2 = Inl x" using w2 by (cases "span_new e w2") (auto simp: alloc_span_def)
      then show ?thesis using span_new_total[OF wk] g True Inl by simp
    next
      case (Inr y)
      obtain j h3 where j: "alloc_span e ?p ?ask ?h2 = Inr (j, h3)" using Inr by (cases y) auto
      have wk': "wok (dom (spans h0)) (P \<union> ?R) (world ?h2)" using wk w2 by simp
      have nd: "\<forall>q. has_node h0 q \<or> q \<in> ?R \<longrightarrow> has_node h2 q" using post(4,5) True by blast
      have Req: "?R = {?p..<?p + ?ask}" by (simp add: page_range_def)
      obtain h4 where q: "RecordSpan j h3 = Inr h4" "inv {} (P \<union> ?R) h4" "used h4 = insert (j, NewSpan ?p ?ask) (used h0)"
        "j \<notin> dom (spans h0)" "pagemap_cache h4 = pagemap_cache ?h2" "aggressive_decommit h4 = aggressive_decommit ?h2"
        "\<forall>x. x \<notin> ?R \<longrightarrow> pagemap h4 x = pagemap h0 x" "system_bytes h4 = system_bytes ?h2" "bal h4 = bal ?h2"
        "free_spans h4 = free_spans h0"
        by (rule inv_fresh_span[OF i wk' fr(1-4) nd Req sys(3) pos j]) (rule that)
      have u4: "(j, NewSpan ?p ?ask) \<in> used h4" "card (free_spans h4) + 1 < fuel" using q(3,10) f by simp_all
      obtain h5 where d: "Delete e fl fuel j h4 = Inr h5" "inv {} (P \<union> ?R) h5" "used h5 = used h4 - {(j, NewSpan ?p ?ask)}"
        "pagemap_cache h5 = pagemap_cache h4" "aggressive_decommit h5 = aggressive_decommit h4"
        "\<forall>j t p. (j, t) \<in> used h5 \<longrightarrow> p \<in> pg t \<longrightarrow> pagemap h5 p = pagemap h4 p"
        "system_bytes h5 = system_bytes h4" "\<not> aggressive_decommit h4 \<Longrightarrow> bal h5 = bal h4" "free_spans h5 \<subseteq> insert j (free_spans h4)"
        by (rule Delete_ok[OF q(2) u4, of fl]) (rule that)
      have us: "used h5 = used h0" using d(3) q(3,4) by (auto simp: used_def)
      have "pagemap h5 p = pagemap h0 p" if x: "(x, t) \<in> used h0" "p \<in> pg t" for x t p
      proof -
        have "pg t \<subseteq> P" using x(1) spans_okD(4)[OF invD(1)[OF i]] by (auto simp: used_def)
        then have "p \<notin> ?R" using x(2) sys(3) by blast
        then show ?thesis using q(7) d(6) us x by simp
      qed
      then have k: "keeps h0 h5" using us d(4,5) q(5,6) fs by (simp add: keeps_def)
      have "card (free_spans h5) \<le> card (insert j (free_spans h0))"
        by (rule card_mono) (use d(9) q(10) free_spans_finite[OF i] in auto)
      also have "\<dots> \<le> card (free_spans h0) + 1" using free_spans_finite[OF i] by (simp add: card_insert_if)
      finally have "grown P h0 h5" unfolding grown_def
        using d(2,7,8) k q(6,8,9) fs by (auto intro!: exI[of _ "P \<union> ?R"])
      then show ?thesis using g True j q(1) d(1) by simp
    qed
  qed
qed

lemma grow_with_ok:
  assumes i: "inv {} P h0" and f: "card (free_spans h0) + 1 < fuel" and h: "h = h0\<lparr>world := w\<rparr>"
    and sys: "2 ^ kPageShift \<le> ptr" "2 ^ kPageShift \<le> sz" "page_range ptr sz \<inter> P = {}" "wok (dom (spans h0)) (P \<union> page_range ptr sz) w"
  shows "outcome (grow_with fl fuel ptr sz h) (\<lambda>(ok, h'). grown P h0 h')"
proof -
  let ?ask = "sz div 2 ^ kPageShift" and ?p = "ptr div 2 ^ kPageShift" and ?R = "page_range ptr sz"
  show ?thesis
  proof (cases "record_growth e (?ask * 2 ^ kPageShift) w")
    case (Inl x)
    then show ?thesis using record_growth_total[OF sys(4) Inl] h by (simp add: grow_with_def Let_def)
  next
    case (Inr w1)
    define h1 where "h1 = h0\<lparr>world := w1, system_bytes := system_bytes h0 + bytes ?ask, committed_bytes := committed_bytes h0 + bytes ?ask\<rparr>"
    have "wok (dom (spans h0)) (P \<union> ?R) (world h1)" using record_growth_ok[OF sys(4) Inr] by (simp add: h1_def)
    note E = ensure_pages_ok[OF this, of "?p - 1" "?ask + 2"]
    show ?thesis
    proof (cases "ensure_pages e (?p - 1) (?ask + 2) h1")
      case (Inl x)
      then have "grow_with fl fuel ptr sz h = Inl x" using Inr h by (simp add: grow_with_def h1_def Let_def)
      then show ?thesis using E Inl by simp
    next
      case en: (Inr y)
      obtain ok h2 where y: "y = (ok, h2)" by fastforce
      obtain tr w2 where e: "h2 = h1\<lparr>pagetree := tr, world := w2\<rparr>" "wok (dom (spans h0)) (P \<union> ?R) w2" "pagemap h2 = pagemap h1"
        "\<forall>q. has_node h1 q \<longrightarrow> has_node h2 q"
        "ok \<longrightarrow> ?p - 1 + (?ask + 2) \<le> 2 ^ 64 \<longrightarrow> (\<forall>q. ?p - 1 \<le> q \<and> q < ?p - 1 + (?ask + 2) \<longrightarrow> has_node h2 q)"
        using E en y by auto
      have pos: "0 < ?p" "0 < ?ask" using sys(1,2) by (simp_all add: div_greater_zero_iff)
      have "?p + ?ask - 1 \<in> ?R" using pos by (simp add: page_range_def)
      then have "?p + ?ask - 1 < 2 ^ 35" using pages_bound[OF sys(4)] by blast
      then have "?p - 1 + (?ask + 2) \<le> 2 ^ 64" using pos by simp
      then have "ok \<longrightarrow> (\<forall>q\<in>?R. has_node h2 q)" using e(5) pos by (auto simp: page_range_def)
      moreover have "pagemap h2 = pagemap h0" "\<forall>q. has_node h0 q \<longrightarrow> has_node h2 q" using e(3,4) by (simp_all add: h1_def)
      ultimately show ?thesis using grow_with_span[OF assms Inr h1_def en[unfolded y] e(1,2)] by blast
    qed
  qed
qed

lemma GrowHeap_ok:
  assumes i: "inv {} P h" and f: "card (free_spans h) + 1 < fuel" and n: "0 < n"
  shows "outcome (GrowHeap e fl fuel n h) (\<lambda>(ok, h'). grown P h h')"
proof -
  have fin: "outcome (case r of None \<Rightarrow> Inr (False, h') | Some (p, sz) \<Rightarrow> grow_with fl fuel p sz h') (\<lambda>(ok, h'). grown P h h')"
    if y: "case r of None \<Rightarrow> inv {} P h' \<and> quiet h h'
     | Some (p, sz) \<Rightarrow> \<exists>h0 w. inv {} P h0 \<and> quiet h h0 \<and> h' = h0\<lparr>world := w\<rparr> \<and> 2 ^ kPageShift \<le> p \<and> 2 ^ kPageShift \<le> sz \<and>
         page_range p sz \<inter> P = {} \<and> wok (dom (spans h0)) (P \<union> page_range p sz) w" for r h'
  proof (cases r)
    case None
    then show ?thesis using y quiet_grown0[OF i] by simp
  next
    case (Some x)
    obtain p sz where x: "x = (p, sz)" by fastforce
    obtain h0 w where h0: "inv {} P h0" "quiet h h0" "h' = h0\<lparr>world := w\<rparr>" "2 ^ kPageShift \<le> p" "2 ^ kPageShift \<le> sz"
      "page_range p sz \<inter> P = {}" "wok (dom (spans h0)) (P \<union> page_range p sz) w" using y Some x by auto
    have "card (free_spans h0) + 1 < fuel" using card_free_spans[OF i h0(2)] f by simp
    then have "outcome (grow_with fl fuel p sz h') (\<lambda>(ok, h'). grown P h0 h')" by (rule grow_with_ok[OF h0(1) _ h0(3-7)])
    then have "outcome (grow_with fl fuel p sz h') (\<lambda>(ok, h'). grown P h h')"
      by (rule outcome_mono) (use quiet_grown[OF i h0(2)] in auto)
    then show ?thesis using Some x by simp
  qed
  have big: "0 < a \<Longrightarrow> a * 2 ^ kPageShift \<le> sz \<Longrightarrow> 2 ^ kPageShift \<le> sz" for a sz :: nat by (metis One_nat_def Suc_leI dual_order.trans mult_le_mono1 nat_mult_1)
  show ?thesis
  proof (cases "kMaxValidPages < n")
    case True
    then show ?thesis using quiet_grown0[OF i i steps_quiet[OF steps_refl]] by (simp add: GrowHeap_eq)
  next
    case False
    let ?ask = "if kMinSystemAlloc < n then n else kMinSystemAlloc"
    have ask: "0 < ?ask" using n by (simp add: kMinSystemAlloc_def kMaxPages_def)
    have f': "card (free_spans h) < fuel" using f by simp
    show ?thesis unfolding GrowHeap_eq Let_def if_not_P[OF False]
    proof (rule outcome_bind[OF try_alloc_ok[OF i f', of fl ?ask]], clarify)
      fix r h1
      assume y: "case r of None \<Rightarrow> inv {} P h1 \<and> quiet h h1
        | Some (p, sz) \<Rightarrow> \<exists>h0 w. inv {} P h0 \<and> quiet h h0 \<and> h1 = h0\<lparr>world := w\<rparr> \<and> 2 ^ kPageShift \<le> p \<and> ?ask * 2 ^ kPageShift \<le> sz \<and>
            page_range p sz \<inter> P = {} \<and> wok (dom (spans h0)) (P \<union> page_range p sz) w"
      show "outcome (bindR (if r = None \<and> n < ?ask then try_alloc fl fuel n h1 else Inr (r, h1)) (\<lambda>(r, h).
          case r of None \<Rightarrow> Inr (False, h) | Some (p, sz) \<Rightarrow> grow_with fl fuel p sz h)) (\<lambda>(ok, h'). grown P h h')"
      proof (cases "r = None \<and> n < ?ask")
        case False
        have "outcome (case r of None \<Rightarrow> Inr (False, h1) | Some (p, sz) \<Rightarrow> grow_with fl fuel p sz h1) (\<lambda>(ok, h'). grown P h h')"
          by (rule fin) (use y big[OF ask] in \<open>fastforce split: option.splits\<close>)
        then show ?thesis unfolding if_not_P[OF False] by simp
      next
        case True
        then have h1: "inv {} P h1" "quiet h h1" using y by auto
        have f1: "card (free_spans h1) < fuel" using card_free_spans[OF i h1(2)] f by simp
        show ?thesis unfolding if_P[OF True]
        proof (rule outcome_bind[OF try_alloc_ok[OF h1(1) f1]], clarify)
          fix r2 h2
          assume z: "case r2 of None \<Rightarrow> inv {} P h2 \<and> quiet h1 h2
            | Some (p, sz) \<Rightarrow> \<exists>h0 w. inv {} P h0 \<and> quiet h1 h0 \<and> h2 = h0\<lparr>world := w\<rparr> \<and> 2 ^ kPageShift \<le> p \<and> n * 2 ^ kPageShift \<le> sz \<and>
                page_range p sz \<inter> P = {} \<and> wok (dom (spans h0)) (P \<union> page_range p sz) w"
          show "outcome (case r2 of None \<Rightarrow> Inr (False, h2) | Some (p, sz) \<Rightarrow> grow_with fl fuel p sz h2) (\<lambda>(ok, h'). grown P h h')"
            by (rule fin) (use z big[OF n] quiet_trans[OF h1(2)] in \<open>fastforce split: option.splits\<close>)
        qed
      qed
    qed
  qed
qed

definition new_post :: "nat \<Rightarrow> nat set \<Rightarrow> 'w pageheap \<Rightarrow> nat \<times> 'w pageheap \<Rightarrow> bool" where
  "new_post n P h r \<longleftrightarrow> (case r of (i, h') \<Rightarrow> (\<exists>P'. P \<subseteq> P' \<and> inv {} P' h') \<and> allocated n h i h' \<and>
     system_bytes h \<le> system_bytes h' \<and> (\<not> aggressive_decommit h \<longrightarrow> bal h' = bal h))"

lemma found_new_post: "found n P h r \<Longrightarrow> new_post n P h r"
  by (auto simp: found_def new_post_def)

lemma found_quiet: "found n P h (0, h') \<Longrightarrow> inv {} P h' \<and> quiet h h'"
  by (auto simp: found_def quiet_def allocated_def)

lemma keeps_new_post:
  assumes "keeps h h'" and "system_bytes h \<le> system_bytes h'" and "\<not> aggressive_decommit h \<longrightarrow> bal h' = bal h" and "P \<subseteq> P'"
    and "new_post n P' h' r"
  shows "new_post n P h r"
proof -
  obtain i h'' where r: "r = (i, h'')" by fastforce
  have "allocated n h i h''" using keeps_allocated[OF assms(1)] assms(5) by (simp add: new_post_def r)
  moreover have "aggressive_decommit h' = aggressive_decommit h" using assms(1) by (simp add: keeps_def)
  ultimately show ?thesis using assms by (auto simp: new_post_def r)
qed

lemma New_ok:
  assumes i: "inv {} P h" and f: "card (free_spans h) + 1 < fuel" and n: "0 < n"
  shows "outcome (New e fl fuel n h) (new_post n P h)"
proof -
  have last: "outcome (bindR (GrowHeap e fl fuel n h1) (\<lambda>(ok, h).
      if ok then SearchFreeAndLargeLists e fl fuel n h else Inr (0, h))) (new_post n P h)"
    if h1: "inv {} P h1" "quiet h h1" for h1
  proof (rule outcome_bind[OF GrowHeap_ok[OF h1(1) _ n]], use card_free_spans[OF i h1(2)] f in simp, clarify)
    fix ok h2 assume g: "grown P h1 h2"
    then obtain P' where P': "P \<subseteq> P'" "inv {} P' h2" by (auto simp: grown_def)
    have hh: "grown P h h2" by (rule quiet_grown[OF i h1(2) g])
    note kn = keeps_new_post[of h h2 P P' n]
    have fc: "card (free_spans h2) < fuel" using hh f by (simp add: grown_def)
    have "outcome (SearchFreeAndLargeLists e fl fuel n h2) (new_post n P h)"
      by (rule outcome_mono[OF Search_ok[OF P'(2) n fc]]) (use kn hh P'(1) found_new_post in \<open>auto simp: grown_def\<close>)
    moreover have "new_post n P h (0, h2)"
      by (rule kn) (use hh P' found_new_post[OF found_none[OF P'(2)]] in \<open>auto simp: grown_def\<close>)
    ultimately show "outcome (if ok then SearchFreeAndLargeLists e fl fuel n h2 else Inr (0, h2)) (new_post n P h)" by simp
  qed
  have f': "card (free_spans h) < fuel" using f by simp
  show ?thesis unfolding New_def
  proof (rule outcome_bind[OF Search_ok[OF i n f']], clarify)
    fix r h1 assume r: "found n P h (r, h1)"
    let ?c = "free_bytes h1 \<noteq> 0 \<and> unmapped_bytes h1 \<noteq> 0 \<and> system_bytes h1 div 4 \<le> free_bytes h1 + unmapped_bytes h1 \<and>
       system_bytes h1 div kForcedCoalesceInterval \<noteq> (system_bytes h1 + bytes n) mod 2 ^ 64 div kForcedCoalesceInterval"
    let ?mid = "if ?c then bindR (ReleaseAtLeastNPages e fuel 0x7fffffff h1) (\<lambda>(_, h). SearchFreeAndLargeLists e fl fuel n h) else Inr (0, h1)"
    have mid: "outcome ?mid (\<lambda>(i, h'). new_post n P h (i, h') \<and> (i = 0 \<longrightarrow> inv {} P h' \<and> quiet h h'))" if r0: "r = 0"
    proof -
      have h1: "inv {} P h1" "quiet h h1" using found_quiet r r0 by blast+
      have none: "new_post n P h (0, h1)" using found_new_post[OF r[unfolded r0]] .
      have "card (free_spans h1) < fuel" using card_free_spans[OF i h1(2)] f by simp
      then obtain x h2 where l: "release_loop e fuel 0x7fffffff 0 h1 = Inr (x, h2)" "inv {} P h2" "steps (x - 0) h1 h2"
        using release_loop_ok[OF h1(1)] by blast
      have q: "quiet h h2" by (rule quiet_trans[OF h1(2) steps_quiet[OF l(3)]])
      have f2: "card (free_spans h2) < fuel" using card_free_spans[OF i q] f by simp
      have "outcome (SearchFreeAndLargeLists e fl fuel n h2) (\<lambda>(i, h'). new_post n P h (i, h') \<and> (i = 0 \<longrightarrow> inv {} P h' \<and> quiet h h'))"
      proof (rule outcome_mono[OF Search_ok[OF l(2) n f2]], clarify)
        fix i' h' assume fd: "found n P h2 (i', h')"
        have "new_post n P h (i', h')"
          by (rule keeps_new_post[OF _ _ _ subset_refl found_new_post[OF fd]]) (use q in \<open>auto simp: quiet_def\<close>)
        moreover have "i' = 0 \<Longrightarrow> inv {} P h' \<and> quiet h h'" using found_quiet fd quiet_trans[OF q] by blast
        ultimately show "new_post n P h (i', h') \<and> (i' = 0 \<longrightarrow> inv {} P h' \<and> quiet h h')" by simp
      qed
      then show ?thesis using l(1) none h1 by (simp add: ReleaseAtLeastNPages_def)
    qed
    have "outcome (bindR ?mid (\<lambda>(result, h). if result \<noteq> 0 then Inr (result, h)
        else bindR (GrowHeap e fl fuel n h) (\<lambda>(ok, h). if ok then SearchFreeAndLargeLists e fl fuel n h else Inr (0, h))))
        (new_post n P h)" if r0: "r = 0"
    proof (rule outcome_bind[OF mid[OF r0]], clarify)
      fix i' h' assume a: "new_post n P h (i', h')" "i' = 0 \<longrightarrow> inv {} P h' \<and> quiet h h'"
      show "outcome (if i' \<noteq> 0 then Inr (i', h') else bindR (GrowHeap e fl fuel n h') (\<lambda>(ok, h).
          if ok then SearchFreeAndLargeLists e fl fuel n h else Inr (0, h))) (new_post n P h)"
        using a last by (cases "i' = 0") auto
    qed
    then show "outcome (if r \<noteq> 0 then Inr (r, h1) else bindR ?mid (\<lambda>(result, h). if result \<noteq> 0 then Inr (result, h)
        else bindR (GrowHeap e fl fuel n h) (\<lambda>(ok, h). if ok then SearchFreeAndLargeLists e fl fuel n h else Inr (0, h))))
        (new_post n P h)"
      using found_new_post[OF r] by (cases "r = 0") auto
  qed
qed

end
end
