(* ===== verification/SystemAlloc.thy ===== *)
theory SystemAlloc
  imports SizeMap
begin

unbundle bit_operations_syntax

section \<open>Memory from the operating system (system-alloc.cc, common.cc)\<close>

text \<open>
  \<^verbatim>\<open>TCMalloc_SystemAlloc\<close> with the sbrk, mmap and default allocators, \<^verbatim>\<open>TCMalloc_SystemRelease\<close>, and
  \<^verbatim>\<open>MetaDataAlloc\<close> on top of them.  Sizes and addresses are natural numbers; the unsigned sums whose
  overflow the code tests are written with \<open>mod 2 ^ 64\<close>.  The system calls are the fields of
  \<open>sysops\<close>, functions on a state of the operating system; what the code relies on is the
  predicate \<open>os_ok\<close>, the documented behaviour of \<^verbatim>\<open>mmap\<close>, \<^verbatim>\<open>munmap\<close> and \<^verbatim>\<open>sbrk\<close>: new memory is not
  part of the memory the process already owns.
\<close>

record 'os sysops =
  os_sbrk :: "nat \<Rightarrow> 'os \<Rightarrow> nat option \<times> 'os"
  os_mmap :: "nat \<Rightarrow> 'os \<Rightarrow> nat option \<times> 'os"
  os_munmap :: "nat \<Rightarrow> nat \<Rightarrow> 'os \<Rightarrow> 'os"
  os_madvise :: "nat \<Rightarrow> nat \<Rightarrow> 'os \<Rightarrow> bool \<times> 'os"
  os_pagesize :: nat

record sysflags =
  malloc_skip_sbrk :: bool
  malloc_skip_mmap :: bool
  malloc_disable_memory_release :: bool
  malloc_devmem_start :: bool
  kDebugMode :: bool

datatype SysAllocator = SbrkSysAllocator | MmapSysAllocator

record 'os system =
  os :: 'os
  pagesize :: nat
  system_alloc_inited :: bool
  failed :: "bool list"
  allocs :: "SysAllocator option list"
  TCMalloc_SystemTaken :: nat

definition kAddressBits :: nat where "kAddressBits = 48"
definition kMemoryAligner :: nat where "kMemoryAligner = 64"

definition CheckAddressBits :: "nat \<Rightarrow> bool" where "CheckAddressBits ptr \<longleftrightarrow> ptr div 2 ^ kAddressBits = 0"

text \<open>Rounding up to the alignment, which is a power of two.\<close>

definition align_gap :: "nat \<Rightarrow> nat \<Rightarrow> nat" where
  "align_gap ptr alignment = (if ptr AND (alignment - 1) \<noteq> 0 then alignment - (ptr AND (alignment - 1)) else 0)"

definition round_up :: "nat \<Rightarrow> nat \<Rightarrow> nat" where
  "round_up sz alignment = (sz + alignment - 1) div alignment * alignment"

subsection \<open>The allocators\<close>

text \<open>The result is the address and the size allocated there.\<close>

definition Sbrk_Alloc ::
  "'os sysops \<Rightarrow> sysflags \<Rightarrow> nat \<Rightarrow> nat \<Rightarrow> 'os system \<Rightarrow> (nat \<times> nat) option \<times> 'os system" where
  "Sbrk_Alloc ops fl sz alignment s =
     (if malloc_skip_sbrk fl then (None, s)
      else if 2 ^ 63 \<le> (sz + alignment) mod 2 ^ 64 then (None, s)
      else
        let sz = round_up sz alignment in
        case os_sbrk ops 0 (os s) of (brk, o1) \<Rightarrow>
          if (case brk of None \<Rightarrow> (2 ^ 64 - 1 + sz) mod 2 ^ 64 < sz | Some b \<Rightarrow> (b + sz) mod 2 ^ 64 < sz)
          then (None, s\<lparr>os := o1\<rparr>)
          else
            case os_sbrk ops sz o1 of
              (None, o2) \<Rightarrow> (None, s\<lparr>os := o2\<rparr>)
            | (Some ptr, o2) \<Rightarrow>
                if ptr AND (alignment - 1) = 0 then (Some (ptr, sz), s\<lparr>os := o2\<rparr>)
                else
                  let extra = alignment - (ptr AND (alignment - 1)) in
                  case os_sbrk ops extra o2 of (r2, o3) \<Rightarrow>
                    if r2 = Some (ptr + sz) then (Some (ptr + extra, sz), s\<lparr>os := o3\<rparr>)
                    else
                      case os_sbrk ops (sz + alignment - 1) o3 of
                        (None, o4) \<Rightarrow> (None, s\<lparr>os := o4\<rparr>)
                      | (Some ptr, o4) \<Rightarrow> (Some (ptr + align_gap ptr alignment, sz), s\<lparr>os := o4\<rparr>))"

definition Mmap_Alloc ::
  "'os sysops \<Rightarrow> sysflags \<Rightarrow> nat \<Rightarrow> nat \<Rightarrow> 'os system \<Rightarrow> (nat \<times> nat) option \<times> 'os system" where
  "Mmap_Alloc ops fl sz alignment s =
     (if malloc_skip_mmap fl then (None, s)
      else
        let s = (if pagesize s = 0 then s\<lparr>pagesize := os_pagesize ops\<rparr> else s);
            alignment = (if alignment < pagesize s then pagesize s else alignment);
            aligned_size = (sz + alignment - 1) mod 2 ^ 64 div alignment * alignment
        in if aligned_size < sz then (None, s)
           else
             let sz = aligned_size;
                 extra = (if pagesize s < alignment then alignment - pagesize s else 0)
             in case os_mmap ops (sz + extra) (os s) of
                  (None, o1) \<Rightarrow> (None, s\<lparr>os := o1\<rparr>)
                | (Some ptr, o1) \<Rightarrow>
                    let adjust = align_gap ptr alignment;
                        o2 = (if 0 < adjust then os_munmap ops ptr adjust o1 else o1);
                        o3 = (if adjust < extra then os_munmap ops (ptr + adjust + sz) (extra - adjust) o2 else o2)
                    in (Some (ptr + adjust, sz), s\<lparr>os := o3\<rparr>))"

definition child_Alloc ::
  "SysAllocator \<Rightarrow> 'os sysops \<Rightarrow> sysflags \<Rightarrow> nat \<Rightarrow> nat \<Rightarrow> 'os system \<Rightarrow> (nat \<times> nat) option \<times> 'os system" where
  "child_Alloc a = (case a of SbrkSysAllocator \<Rightarrow> Sbrk_Alloc | MmapSysAllocator \<Rightarrow> Mmap_Alloc)"

definition kMaxAllocators :: nat where "kMaxAllocators = 2"

text \<open>The loop of \<^verbatim>\<open>DefaultSysAllocator::Alloc\<close> over the children from index \<open>i\<close> on, \<open>n\<close> of them left.\<close>

fun Default_loop ::
  "nat \<Rightarrow> nat \<Rightarrow> 'os sysops \<Rightarrow> sysflags \<Rightarrow> nat \<Rightarrow> nat \<Rightarrow> 'os system \<Rightarrow> (nat \<times> nat) option \<times> 'os system" where
  "Default_loop 0 i ops fl sz alignment s = (None, s\<lparr>failed := map (\<lambda>_. False) (failed s)\<rparr>)"
| "Default_loop (Suc n) i ops fl sz alignment s =
     (case (failed s ! i, allocs s ! i) of
        (False, Some a) \<Rightarrow>
          (case child_Alloc a ops fl sz alignment s of
             (Some r, s) \<Rightarrow> (Some r, s)
           | (None, s) \<Rightarrow> Default_loop n (i + 1) ops fl sz alignment (s\<lparr>failed := (failed s)[i := True]\<rparr>))
      | _ \<Rightarrow> Default_loop n (i + 1) ops fl sz alignment s)"

definition Default_Alloc ::
  "'os sysops \<Rightarrow> sysflags \<Rightarrow> nat \<Rightarrow> nat \<Rightarrow> 'os system \<Rightarrow> (nat \<times> nat) option \<times> 'os system" where
  "Default_Alloc = Default_loop kMaxAllocators 0"

definition SetChildAllocator :: "SysAllocator \<Rightarrow> nat \<Rightarrow> 'os system \<Rightarrow> 'os system" where
  "SetChildAllocator a index s =
     (if index < kMaxAllocators
      then s\<lparr>allocs := (allocs s)[index := Some a], failed := (failed s)[index := False]\<rparr> else s)"

definition InitSystemAllocators :: "sysflags \<Rightarrow> 'os system \<Rightarrow> 'os system" where
  "InitSystemAllocators fl s =
     (let sdef = s\<lparr>failed := replicate kMaxAllocators True, allocs := replicate kMaxAllocators None\<rparr> in
      if kDebugMode fl \<and> (8::nat) > 4
      then SetChildAllocator SbrkSysAllocator 1 (SetChildAllocator MmapSysAllocator 0 sdef)
      else SetChildAllocator MmapSysAllocator 1 (SetChildAllocator SbrkSysAllocator 0 sdef))"

definition SystemAlloc ::
  "'os sysops \<Rightarrow> sysflags \<Rightarrow> nat \<Rightarrow> nat \<Rightarrow> 'os system \<Rightarrow> ((nat \<times> nat) option \<times> 'os system) res" where
  "SystemAlloc ops fl sz alignment s =
     (if (sz + alignment) mod 2 ^ 64 < sz then Inr (None, s)
      else
        let s = (if system_alloc_inited s then s else (InitSystemAllocators fl s)\<lparr>system_alloc_inited := True\<rparr>);
            alignment = (if alignment < kMemoryAligner then kMemoryAligner else alignment)
        in case Default_Alloc ops fl sz alignment s of
             (None, s) \<Rightarrow> Inr (None, s)
           | (Some (ptr, actual_size), s) \<Rightarrow>
               if \<not> CheckAddressBits (ptr + actual_size - 1) then Inl Crash
               else Inr (Some (ptr, actual_size), s\<lparr>TCMalloc_SystemTaken := TCMalloc_SystemTaken s + actual_size\<rparr>))"

text \<open>\<^verbatim>\<open>madvise\<close> is retried while it answers \<^verbatim>\<open>EAGAIN\<close>; \<open>os_madvise\<close> is the last answer.\<close>

definition SystemRelease :: "'os sysops \<Rightarrow> sysflags \<Rightarrow> nat \<Rightarrow> nat \<Rightarrow> 'os system \<Rightarrow> bool \<times> 'os system" where
  "SystemRelease ops fl start len s =
     (if malloc_devmem_start fl then (False, s)
      else if malloc_disable_memory_release fl then (False, s)
      else
        let s = (if pagesize s = 0 then s\<lparr>pagesize := os_pagesize ops\<rparr> else s);
            new_start = (start + pagesize s - 1) div pagesize s * pagesize s;
            new_end = (start + len) div pagesize s * pagesize s
        in if new_start < new_end
           then case os_madvise ops new_start (new_end - new_start) (os s) of (ok, o1) \<Rightarrow> (ok, s\<lparr>os := o1\<rparr>)
           else (False, s))"

subsection \<open>MetaDataAlloc (common.cc)\<close>

record metastate =
  metadata_system_bytes :: nat
  metadata_chunk_alloc :: nat
  metadata_chunk_avail :: nat

definition kMetadataAllocChunkSize :: nat where "kMetadataAllocChunkSize = 8 * 1024 * 1024"

definition MetaDataAlloc ::
  "'os sysops \<Rightarrow> sysflags \<Rightarrow> nat \<Rightarrow> metastate \<times> 'os system \<Rightarrow> (nat \<times> metastate \<times> 'os system) res" where
  "MetaDataAlloc ops fl bytes ms =
     (case ms of (md, s) \<Rightarrow>
      if kMetadataAllocChunkSize \<le> bytes then
        bindR (SystemAlloc ops fl bytes kMemoryAligner s) (\<lambda>(r, s).
          case r of
            None \<Rightarrow> Inr (0, md, s)
          | Some (ptr, _) \<Rightarrow> Inr (ptr, md\<lparr>metadata_system_bytes := metadata_system_bytes md + bytes\<rparr>, s))
      else
        let alignment = (2 ^ 64 - metadata_chunk_alloc md) AND (kMemoryAligner - 1) in
        bindR
          (if metadata_chunk_avail md < bytes + alignment then
             bindR (SystemAlloc ops fl kMetadataAllocChunkSize kMemoryAligner s) (\<lambda>(r, s).
               Inr (case r of
                 None \<Rightarrow> None
               | Some (ptr, real_size) \<Rightarrow>
                   Some (0, md\<lparr>metadata_chunk_alloc := ptr, metadata_chunk_avail := real_size\<rparr>), s))
           else Inr (Some (alignment, md), s))
          (\<lambda>(r, s). case r of
             None \<Rightarrow> Inr (0, md, s)
           | Some (alignment, md) \<Rightarrow>
               Inr (metadata_chunk_alloc md + alignment,
                    md\<lparr>metadata_chunk_alloc := metadata_chunk_alloc md + (bytes + alignment),
                       metadata_chunk_avail := metadata_chunk_avail md - (bytes + alignment),
                       metadata_system_bytes := metadata_system_bytes md + (bytes + alignment)\<rparr>, s)))"


subsection \<open>What the code relies on, and what it promises\<close>

text \<open>The system calls hand out memory the process does not own yet.\<close>

definition hands_out :: "nat \<Rightarrow> ('os \<Rightarrow> nat set) \<Rightarrow> (nat \<Rightarrow> 'os \<Rightarrow> nat option \<times> 'os) \<Rightarrow> bool" where
  "hands_out grain owned call \<longleftrightarrow>
     (\<forall>n o1. case call n o1 of
        (None, o2) \<Rightarrow> owned o2 = owned o1
      | (Some p, o2) \<Rightarrow> 0 < p \<and> grain dvd p \<and> {p..<p + n} \<inter> owned o1 = {} \<and> owned o2 = owned o1 \<union> {p..<p + n})"

definition os_ok :: "'os sysops \<Rightarrow> ('os \<Rightarrow> nat set) \<Rightarrow> bool" where
  "os_ok ops owned \<longleftrightarrow>
     hands_out 1 owned (os_sbrk ops) \<and> hands_out (os_pagesize ops) owned (os_mmap ops) \<and>
     (\<forall>p n o1. owned (os_munmap ops p n o1) = owned o1 - {p..<p + n}) \<and>
     (\<forall>p n o1. owned (snd (os_madvise ops p n o1)) = owned o1) \<and>
     (\<exists>k. os_pagesize ops = 2 ^ k)"

text \<open>An allocation of \<open>sz\<close> bytes gives an aligned block that nothing owned before.\<close>

definition fresh_block :: "('os \<Rightarrow> nat set) \<Rightarrow> nat \<Rightarrow> nat \<Rightarrow> 'os system \<Rightarrow> (nat \<times> nat) option \<times> 'os system \<Rightarrow> bool" where
  "fresh_block owned sz alignment s rs \<longleftrightarrow>
     (case rs of
        (None, s') \<Rightarrow> owned (os s) \<subseteq> owned (os s')
      | (Some (p, n), s') \<Rightarrow> 0 < p \<and> alignment dvd p \<and> sz \<le> n \<and> {p..<p + n} \<inter> owned (os s) = {} \<and>
          owned (os s) \<union> {p..<p + n} \<subseteq> owned (os s'))"

lemma fresh_block_simps [simp]:
  "fresh_block owned sz a s (None, s') \<longleftrightarrow> owned (os s) \<subseteq> owned (os s')"
  "fresh_block owned sz a s (Some (p, n), s') \<longleftrightarrow> 0 < p \<and> a dvd p \<and> sz \<le> n \<and> {p..<p + n} \<inter> owned (os s) = {} \<and>
     owned (os s) \<union> {p..<p + n} \<subseteq> owned (os s')"
  by (simp_all add: fresh_block_def)

definition sys_ok :: "'os sysops \<Rightarrow> 'os system \<Rightarrow> bool" where
  "sys_ok ops s \<longleftrightarrow> (pagesize s = 0 \<or> pagesize s = os_pagesize ops) \<and>
     (system_alloc_inited s \<longrightarrow> length (failed s) = kMaxAllocators \<and> length (allocs s) = kMaxAllocators)"

lemma and_pow2: "(p::nat) AND (2 ^ k - 1) = p mod 2 ^ k"
  unfolding mask_eq_exp_minus_1[symmetric] take_bit_eq_mask[symmetric] take_bit_eq_mod ..

lemma align_gap_mod: "align_gap p (2 ^ k) = (if p mod 2 ^ k \<noteq> 0 then 2 ^ k - p mod 2 ^ k else 0)"
  unfolding align_gap_def and_pow2 ..

lemma align_gap_pow2: "2 ^ k dvd p + align_gap p (2 ^ k)" "align_gap p (2 ^ k) < 2 ^ k"
proof -
  have l: "p mod 2 ^ k < (2::nat) ^ k" by simp
  show "2 ^ k dvd p + align_gap p (2 ^ k)"
  proof (cases "p mod 2 ^ k = 0")
    case True
    then show ?thesis by (auto simp: align_gap_mod)
  next
    case False
    have "p + (2 ^ k - p mod 2 ^ k) = p div 2 ^ k * 2 ^ k + 2 ^ k"
      using l div_mult_mod_eq[of p "2 ^ k"] by linarith
    then show ?thesis using False by (auto simp: align_gap_mod)
  qed
  show "align_gap p (2 ^ k) < 2 ^ k" using l by (auto simp: align_gap_mod)
qed

lemma round_up_ge: "0 < a \<Longrightarrow> sz \<le> round_up sz a"
proof -
  assume a: "0 < a"
  have "(sz + a - 1) mod a < a" using a by simp
  then show ?thesis unfolding round_up_def using a div_mult_mod_eq[of "sz + a - 1" a] by linarith
qed

lemma hands_outD:
  assumes "hands_out g owned call"
  shows "call n o1 = (None, o2) \<Longrightarrow> owned o2 = owned o1"
    and "call n o1 = (Some p, o2) \<Longrightarrow>
      0 < p \<and> g dvd p \<and> {p..<p + n} \<inter> owned o1 = {} \<and> owned o2 = owned o1 \<union> {p..<p + n}"
  using assms[unfolded hands_out_def, THEN spec[of _ n], THEN spec[of _ o1]] by simp_all

lemma os_okD:
  assumes "os_ok ops owned"
  shows "hands_out 1 owned (os_sbrk ops)" and "hands_out (os_pagesize ops) owned (os_mmap ops)"
    and "owned (os_munmap ops p n o1) = owned o1 - {p..<p + n}"
    and "owned (snd (os_madvise ops p n o1)) = owned o1"
    and "\<exists>k. os_pagesize ops = 2 ^ k"
  using assms unfolding os_ok_def by blast+

lemma sbrk_grows: "os_ok ops owned \<Longrightarrow> os_sbrk ops n o1 = (r, o2) \<Longrightarrow> owned o1 \<subseteq> owned o2"
  by (cases r) (auto dest: hands_outD[OF os_okD(1)])

lemma Sbrk_Alloc_fresh:
  assumes ok: "os_ok ops owned" and a: "alignment = 2 ^ k"
  shows "fresh_block owned sz alignment s (Sbrk_Alloc ops fl sz alignment s)"
proof -
  note D = hands_outD[OF os_okD(1)[OF ok]] and G = sbrk_grows[OF ok]
  let ?sz = "round_up sz alignment"
  have ge: "sz \<le> ?sz" by (simp add: a round_up_ge)
  obtain brk o1 where b: "os_sbrk ops 0 (os s) = (brk, o1)" by fastforce
  obtain r o2 where r: "os_sbrk ops ?sz o1 = (r, o2)" by fastforce
  have o1: "owned (os s) = owned o1" using b D(1,2) by (cases brk) fastforce+
  have o2: "owned o1 \<subseteq> owned o2" using G[OF r] .
  define overflow where "overflow = (case brk of None \<Rightarrow> (2 ^ 64 - 1 + ?sz) mod 2 ^ 64 < ?sz | Some b \<Rightarrow> (b + ?sz) mod 2 ^ 64 < ?sz)"
  have un: "Sbrk_Alloc ops fl sz alignment s =
     (if malloc_skip_sbrk fl \<or> 2 ^ 63 \<le> (sz + alignment) mod 2 ^ 64 then (None, s)
      else if overflow then (None, s\<lparr>os := o1\<rparr>)
      else case r of None \<Rightarrow> (None, s\<lparr>os := o2\<rparr>)
        | Some ptr \<Rightarrow>
           if ptr AND (alignment - 1) = 0 then (Some (ptr, ?sz), s\<lparr>os := o2\<rparr>)
           else let extra = alignment - (ptr AND (alignment - 1)) in
             case os_sbrk ops extra o2 of (r2, o3) \<Rightarrow>
               if r2 = Some (ptr + ?sz) then (Some (ptr + extra, ?sz), s\<lparr>os := o3\<rparr>)
               else case os_sbrk ops (?sz + alignment - 1) o3 of
                  (None, o4) \<Rightarrow> (None, s\<lparr>os := o4\<rparr>)
                | (Some ptr, o4) \<Rightarrow> (Some (ptr + align_gap ptr alignment, ?sz), s\<lparr>os := o4\<rparr>))"
    unfolding Sbrk_Alloc_def overflow_def Let_def b prod.case r by (cases brk; cases r) (simp_all del: One_nat_def)
  show ?thesis
  proof (cases "(malloc_skip_sbrk fl \<or> 2 ^ 63 \<le> (sz + alignment) mod 2 ^ 64) \<or> overflow \<or> r = None")
    case True
    then show ?thesis unfolding un using o1 o2 by auto
  next
    case False
    then obtain ptr where ptr: "r = Some ptr" by auto
    note d = hands_outD(2)[OF os_okD(1)[OF ok] r[unfolded ptr]]
    define low where "low = ptr AND (alignment - 1)"
    define extra where "extra = alignment - low"
    obtain r2 o3 where r2: "os_sbrk ops extra o2 = (r2, o3)" by fastforce
    have o3: "owned o2 \<subseteq> owned o3" using G[OF r2] .
    obtain r4 o4 where r4: "os_sbrk ops (?sz + alignment - 1) o3 = (r4, o4)" by fastforce
    have o4: "owned o3 \<subseteq> owned o4" using G[OF r4] .
    have un2: "Sbrk_Alloc ops fl sz alignment s =
       (if low = 0 then (Some (ptr, ?sz), s\<lparr>os := o2\<rparr>)
        else if r2 = Some (ptr + ?sz) then (Some (ptr + extra, ?sz), s\<lparr>os := o3\<rparr>)
        else case r4 of None \<Rightarrow> (None, s\<lparr>os := o4\<rparr>) | Some q \<Rightarrow> (Some (q + align_gap q alignment, ?sz), s\<lparr>os := o4\<rparr>))"
      unfolding un ptr Let_def low_def[symmetric] extra_def[symmetric] r2 option.case prod.case r4
      using False by (cases r4) simp_all
    show ?thesis
    proof (cases "low = 0")
      case True
      then have "alignment dvd ptr" unfolding low_def a and_pow2 by auto
      then show ?thesis unfolding un2 using True d o1 ge by auto
    next
      case low: False
      show ?thesis
      proof (cases "r2 = Some (ptr + ?sz)")
        case True
        note d2 = D(2)[OF r2[unfolded True]]
        have "align_gap ptr alignment = extra" using low by (simp add: align_gap_def extra_def low_def)
        then have dv: "alignment dvd ptr + extra" using align_gap_pow2(1)[of k ptr] by (simp add: a)
        have "{ptr + extra..<ptr + extra + ?sz} \<subseteq> {ptr..<ptr + ?sz} \<union> {ptr + ?sz..<ptr + ?sz + extra}" by auto
        then have "{ptr + extra..<ptr + extra + ?sz} \<inter> owned (os s) = {}" "{ptr + extra..<ptr + extra + ?sz} \<subseteq> owned o3"
          using d d2 o1 by blast+
        then show ?thesis unfolding un2 using low True d d2 dv o1 ge by auto
      next
        case False
        show ?thesis
        proof (cases r4)
          case None
          then show ?thesis unfolding un2 using low False o1 o2 o3 o4 by auto
        next
          case (Some q)
          note d4 = D(2)[OF r4[unfolded Some]]
          let ?g = "align_gap q alignment"
          have g: "alignment dvd q + ?g" "?g < alignment" using align_gap_pow2(1)[of k q] align_gap_pow2(2)[of q k] by (simp_all add: a)
          then have sub: "{q + ?g..<q + ?g + ?sz} \<subseteq> {q..<q + (?sz + alignment - 1)}" by auto
          have "{q + ?g..<q + ?g + ?sz} \<inter> owned (os s) = {}" "{q + ?g..<q + ?g + ?sz} \<subseteq> owned o4"
            using sub d4 o1 o2 o3 by blast+
          then show ?thesis unfolding un2 using low False Some d4 g o1 o2 o3 o4 ge by auto
        qed
      qed
    qed
  qed
qed

lemma Mmap_Alloc_fresh:
  assumes ok: "os_ok ops owned" and a: "alignment = 2 ^ k" and s: "pagesize s = 0 \<or> pagesize s = os_pagesize ops"
  shows "fresh_block owned sz alignment s (Mmap_Alloc ops fl sz alignment s)"
proof -
  note D = os_okD[OF ok]
  define pg where "pg = os_pagesize ops"
  obtain j where j: "pg = 2 ^ j" using D(5) by (auto simp: pg_def)
  define s1 where "s1 = (if pagesize s = 0 then s\<lparr>pagesize := os_pagesize ops\<rparr> else s)"
  have s1: "os s1 = os s" "pagesize s1 = pg" using s by (auto simp: s1_def pg_def)
  define al where "al = (if alignment < pg then pg else alignment)"
  have al: "al = 2 ^ max j k" unfolding al_def a j by (auto simp: max_def dest: power_strict_increasing_iff[THEN iffD1, rotated])
  have dv: "alignment dvd al" "pg dvd al" unfolding al a j by (simp_all add: le_imp_power_dvd)
  define n where "n = (sz + al - 1) mod 2 ^ 64 div al * al"
  define extra where "extra = (if pg < al then al - pg else 0)"
  obtain r o1 where r: "os_mmap ops (n + extra) (os s) = (r, o1)" by fastforce
  have un: "Mmap_Alloc ops fl sz alignment s =
     (if malloc_skip_mmap fl then (None, s) else if n < sz then (None, s1)
      else case r of None \<Rightarrow> (None, s1\<lparr>os := o1\<rparr>)
        | Some ptr \<Rightarrow>
            let adjust = align_gap ptr al;
                o2 = (if 0 < adjust then os_munmap ops ptr adjust o1 else o1);
                o3 = (if adjust < extra then os_munmap ops (ptr + adjust + n) (extra - adjust) o2 else o2)
            in (Some (ptr + adjust, n), s1\<lparr>os := o3\<rparr>))"
    unfolding Mmap_Alloc_def s1_def[symmetric] Let_def s1 al_def[symmetric] n_def[symmetric] extra_def[symmetric] r
    by (cases r) (simp_all del: One_nat_def)
  show ?thesis
  proof (cases "malloc_skip_mmap fl \<or> n < sz")
    case True
    then show ?thesis unfolding un using s1 by auto
  next
    case False
    show ?thesis
    proof (cases r)
      case None
      then show ?thesis unfolding un using False s1 hands_outD(1)[OF D(2)] r by auto
    next
      case (Some ptr)
      note d = hands_outD(2)[OF D(2) r[unfolded Some]]
      define g where "g = align_gap ptr al"
      have g1: "al dvd ptr + g" "g < al" using align_gap_pow2(1)[of "max j k" ptr] align_gap_pow2(2)[of ptr "max j k"]
        by (simp_all add: al g_def)
      have "pg dvd g" using g1(1) dv(2) d unfolding pg_def[symmetric] by (metis dvd_add_right_iff dvd_trans)
      moreover have "pg dvd al - g" using \<open>pg dvd g\<close> dv(2) by simp
      ultimately have "pg \<le> al - g" using g1(2) by (intro dvd_imp_le) auto
      then have ge: "g \<le> extra" using g1(2) unfolding extra_def by (cases "pg < al"; simp; linarith)
      define o2 where "o2 = (if 0 < g then os_munmap ops ptr g o1 else o1)"
      define o3 where "o3 = (if g < extra then os_munmap ops (ptr + g + n) (extra - g) o2 else o2)"
      have "owned o2 = owned o1 - {ptr..<ptr + g}" using D(3) by (auto simp: o2_def)
      then have "owned o3 = owned o1 - {ptr..<ptr + g} - {ptr + g + n..<ptr + n + extra}"
        using D(3) ge by (auto simp: o3_def)
      moreover have sub: "{ptr + g..<ptr + g + n} \<subseteq> {ptr..<ptr + (n + extra)}"
        "{ptr..<ptr + g} \<union> {ptr + g + n..<ptr + n + extra} \<subseteq> {ptr..<ptr + (n + extra)}" using ge by auto
      moreover have "{ptr + g..<ptr + g + n} \<inter> ({ptr..<ptr + g} \<union> {ptr + g + n..<ptr + n + extra}) = {}" by auto
      moreover have "alignment dvd ptr + g" using dv(1) g1(1) by (rule dvd_trans)
      moreover have "Mmap_Alloc ops fl sz alignment s = (Some (ptr + g, n), s1\<lparr>os := o3\<rparr>)"
        unfolding un using False Some by (simp add: Let_def g_def o2_def o3_def)
      ultimately have "{ptr + g..<ptr + g + n} \<inter> owned (os s) = {}" "owned (os s) \<union> {ptr + g..<ptr + g + n} \<subseteq> owned o3"
        and "Mmap_Alloc ops fl sz alignment s = (Some (ptr + g, n), s1\<lparr>os := o3\<rparr>)" and "alignment dvd ptr + g"
        using d by blast+
      then show ?thesis using d False by auto
    qed
  qed
qed

text \<open>The allocators change the operating system's state and the cached page size only.\<close>

definition same_setup :: "'os sysops \<Rightarrow> 'os system \<Rightarrow> 'os system \<Rightarrow> bool" where
  "same_setup ops s s' \<longleftrightarrow> (\<exists>o1. s' = s\<lparr>os := o1\<rparr> \<or> s' = s\<lparr>pagesize := os_pagesize ops, os := o1\<rparr>)"

lemma same_setupI [intro]: "same_setup ops s s" "same_setup ops s (s\<lparr>os := o1\<rparr>)"
  "same_setup ops s (s\<lparr>pagesize := os_pagesize ops, os := o1\<rparr>)" "same_setup ops s (s\<lparr>pagesize := os_pagesize ops\<rparr>)"
proof -
  have "s = s\<lparr>os := os s\<rparr>" "s\<lparr>pagesize := os_pagesize ops\<rparr> = s\<lparr>pagesize := os_pagesize ops, os := os s\<rparr>" by simp_all
  then show "same_setup ops s s" "same_setup ops s (s\<lparr>os := o1\<rparr>)"
    "same_setup ops s (s\<lparr>pagesize := os_pagesize ops, os := o1\<rparr>)" "same_setup ops s (s\<lparr>pagesize := os_pagesize ops\<rparr>)"
    unfolding same_setup_def by metis+
qed

lemma Mmap_Alloc_setup: "same_setup ops s (snd (Mmap_Alloc ops fl sz alignment s))"
proof -
  define s1 where "s1 = (if pagesize s = 0 then s\<lparr>pagesize := os_pagesize ops\<rparr> else s)"
  have "same_setup ops s s1" "same_setup ops s (s1\<lparr>os := o1\<rparr>)" for o1 by (auto simp: s1_def)
  then show ?thesis
    unfolding Mmap_Alloc_def s1_def[symmetric] Let_def
    by (simp add: same_setupI(1) split: prod.split option.split del: One_nat_def power_numeral)
qed

lemma Sbrk_Alloc_setup: "same_setup ops s (snd (Sbrk_Alloc ops fl sz alignment s))"
  unfolding Sbrk_Alloc_def Let_def
  by (simp add: same_setupI split: prod.split option.split del: One_nat_def power_numeral)


lemma same_setup_sys_ok: "same_setup ops s s' \<Longrightarrow> sys_ok ops s \<Longrightarrow> sys_ok ops s'"
  by (auto simp: same_setup_def sys_ok_def)

lemma child_Alloc_fresh:
  assumes "os_ok ops owned" and "alignment = 2 ^ k" and "sys_ok ops s"
  shows "fresh_block owned sz alignment s (child_Alloc a ops fl sz alignment s)"
    and "sys_ok ops (snd (child_Alloc a ops fl sz alignment s))"
    and "allocs (snd (child_Alloc a ops fl sz alignment s)) = allocs s"
    and "TCMalloc_SystemTaken (snd (child_Alloc a ops fl sz alignment s)) = TCMalloc_SystemTaken s"
    and "system_alloc_inited (snd (child_Alloc a ops fl sz alignment s)) = system_alloc_inited s"
proof -
  have st: "same_setup ops s (snd (child_Alloc a ops fl sz alignment s))"
    by (cases a) (simp_all add: child_Alloc_def Sbrk_Alloc_setup Mmap_Alloc_setup)
  show "fresh_block owned sz alignment s (child_Alloc a ops fl sz alignment s)"
    using Sbrk_Alloc_fresh[OF assms(1,2), of sz s fl] Mmap_Alloc_fresh[OF assms(1,2), of s sz fl] assms(3)
    by (cases a) (simp_all add: child_Alloc_def sys_ok_def)
  show "sys_ok ops (snd (child_Alloc a ops fl sz alignment s))" using same_setup_sys_ok[OF st assms(3)] .
  show "allocs (snd (child_Alloc a ops fl sz alignment s)) = allocs s"
    "TCMalloc_SystemTaken (snd (child_Alloc a ops fl sz alignment s)) = TCMalloc_SystemTaken s"
    "system_alloc_inited (snd (child_Alloc a ops fl sz alignment s)) = system_alloc_inited s"
    using st by (auto simp: same_setup_def)
qed

lemma fresh_block_trans:
  assumes "owned (os s) \<subseteq> owned (os s1)" and "fresh_block owned sz a s1 rs" shows "fresh_block owned sz a s rs"
proof (cases rs)
  case (Pair r s')
  show ?thesis
  proof (cases r)
    case (Some pn)
    obtain p n where "pn = (p, n)" by fastforce
    then show ?thesis using assms Pair Some by simp blast
  qed (use assms Pair in auto)
qed

lemma Default_loop_fresh:
  assumes "os_ok ops owned" and "alignment = 2 ^ k" and "sys_ok ops s"
  shows "fresh_block owned sz alignment s (Default_loop n i ops fl sz alignment s) \<and>
    sys_ok ops (snd (Default_loop n i ops fl sz alignment s)) \<and>
    TCMalloc_SystemTaken (snd (Default_loop n i ops fl sz alignment s)) = TCMalloc_SystemTaken s"
  using assms(3)
proof (induction n arbitrary: i s)
  case 0
  then show ?case by (simp add: sys_ok_def)
next
  case (Suc n)
  show ?case
  proof (cases "failed s ! i \<or> allocs s ! i = None")
    case True
    then have "Default_loop (Suc n) i ops fl sz alignment s = Default_loop n (i + 1) ops fl sz alignment s"
      by (auto split: bool.splits option.splits)
    then show ?thesis using Suc by simp
  next
    case False
    then obtain a where a: "allocs s ! i = Some a" "\<not> failed s ! i" by auto
    obtain r s1 where c: "child_Alloc a ops fl sz alignment s = (r, s1)" by fastforce
    note f = child_Alloc_fresh[OF assms(1,2) Suc.prems, where sz = sz and a = a and fl = fl, unfolded c snd_conv]
    show ?thesis
    proof (cases r)
      case (Some pn)
      then have "Default_loop (Suc n) i ops fl sz alignment s = (Some pn, s1)" using a c by simp
      then show ?thesis using f Some by simp
    next
      case None
      let ?s2 = "s1\<lparr>failed := (failed s1)[i := True]\<rparr>"
      have un: "Default_loop (Suc n) i ops fl sz alignment s = Default_loop n (i + 1) ops fl sz alignment ?s2"
        using a c None by simp
      have "sys_ok ops ?s2" using f(2) by (simp add: sys_ok_def)
      then show ?thesis unfolding un using Suc.IH[of ?s2 "i + 1"] f(1,4) None fresh_block_trans[of owned s ?s2] by auto
    qed
  qed
qed

lemma Init_sys_ok:
  "sys_ok ops s \<Longrightarrow> sys_ok ops ((InitSystemAllocators fl s)\<lparr>system_alloc_inited := True\<rparr>) \<and>
     os (InitSystemAllocators fl s) = os s \<and> TCMalloc_SystemTaken (InitSystemAllocators fl s) = TCMalloc_SystemTaken s"
  by (auto simp: sys_ok_def InitSystemAllocators_def SetChildAllocator_def Let_def kMaxAllocators_def)

lemma SystemAlloc_run:
  assumes ok: "os_ok ops owned" and s: "sys_ok ops s" and a: "alignment = 2 ^ k"
    and run: "SystemAlloc ops fl sz alignment s = Inr (r, s')"
  shows "fresh_block owned sz alignment s (r, s') \<and> sys_ok ops s' \<and>
    (case r of None \<Rightarrow> TCMalloc_SystemTaken s' = TCMalloc_SystemTaken s
     | Some (p, n) \<Rightarrow> p + n \<le> 2 ^ kAddressBits \<and> TCMalloc_SystemTaken s' = TCMalloc_SystemTaken s + n)"
proof (cases "(sz + alignment) mod 2 ^ 64 < sz")
  case True
  then show ?thesis using run s by (auto simp: SystemAlloc_def)
next
  case False
  define s1 where "s1 = (if system_alloc_inited s then s else (InitSystemAllocators fl s)\<lparr>system_alloc_inited := True\<rparr>)"
  define al where "al = (if alignment < kMemoryAligner then kMemoryAligner else alignment)"
  have s1: "sys_ok ops s1" "os s1 = os s" "TCMalloc_SystemTaken s1 = TCMalloc_SystemTaken s"
    using Init_sys_ok[OF s, of fl] s by (auto simp: s1_def)
  have al: "\<exists>j. al = 2 ^ j \<and> k \<le> j"
  proof (cases "alignment < kMemoryAligner")
    case True
    then have "(2::nat) ^ k < 2 ^ 6" by (simp add: a kMemoryAligner_def)
    then have "k \<le> 6" using power_less_imp_less_exp[of "2::nat" k 6] by simp
    then show ?thesis using True by (intro exI[of _ 6]) (simp add: al_def kMemoryAligner_def)
  qed (simp add: al_def a)
  then obtain j where j: "al = 2 ^ j" "k \<le> j" by blast
  then have dv: "alignment dvd al" by (simp add: a le_imp_power_dvd)
  obtain r1 s2 where d: "Default_Alloc ops fl sz al s1 = (r1, s2)" by fastforce
  note f = Default_loop_fresh[OF ok j(1) s1(1), where sz = sz and n = kMaxAllocators and i = 0 and fl = fl, folded Default_Alloc_def, unfolded d]
  have un: "SystemAlloc ops fl sz alignment s =
    (case r1 of None \<Rightarrow> Inr (None, s2)
     | Some (ptr, n) \<Rightarrow> if \<not> CheckAddressBits (ptr + n - 1) then Inl Crash
         else Inr (Some (ptr, n), s2\<lparr>TCMalloc_SystemTaken := TCMalloc_SystemTaken s2 + n\<rparr>))"
    using False unfolding SystemAlloc_def s1_def[symmetric] al_def[symmetric] Let_def d
    by (simp split: option.split)
  show ?thesis
  proof (cases r1)
    case None
    then show ?thesis using run f s1 unfolding un by auto
  next
    case (Some pn)
    obtain p n where pn: "pn = (p, n)" by fastforce
    have r: "CheckAddressBits (p + n - 1)" "r = Some (p, n)"
      "s' = s2\<lparr>TCMalloc_SystemTaken := TCMalloc_SystemTaken s2 + n\<rparr>"
      using run unfolding un Some pn by (auto split: if_splits)
    have "p + n - 1 < 2 ^ kAddressBits" using r(1) by (simp add: CheckAddressBits_def div_eq_0_iff)
    moreover have "alignment dvd p" using f dv Some pn by (auto intro: dvd_trans)
    ultimately show ?thesis using f s1 Some pn r(2,3) by (auto simp: sys_ok_def)
  qed
qed


subsection \<open>Sources of internal memory\<close>

text \<open>What the allocators of internal data structures rely on: \<open>inv H s\<close> says that the bytes \<open>H\<close> are in
  use, and an allocation gives aligned bytes that are not.\<close>

locale chunk_source =
  fixes alloc :: "nat \<Rightarrow> 's \<Rightarrow> (nat \<times> 's) res" and inv :: "nat set \<Rightarrow> 's \<Rightarrow> bool"
  assumes alloc_none: "inv H s \<Longrightarrow> alloc n s = Inr (0, s') \<Longrightarrow> inv H s'"
    and alloc_fresh: "inv H s \<Longrightarrow> alloc n s = Inr (a, s') \<Longrightarrow> a \<noteq> 0 \<Longrightarrow>
      kMemoryAligner dvd a \<and> {a..<a + n} \<inter> H = {} \<and> inv (H \<union> {a..<a + n}) s'"
begin

fun alloc_all :: "nat list \<Rightarrow> 's \<Rightarrow> (nat list \<times> 's) res" where
  "alloc_all [] s = Inr ([], s)"
| "alloc_all (n # ns) s = bindR (alloc n s) (\<lambda>(a, s). bindR (alloc_all ns s) (\<lambda>(as, s). Inr (a # as, s)))"

text \<open>A sequence of successful allocations gives blocks that do not overlap.\<close>

lemma alloc_all_disjoint:
  "inv H s \<Longrightarrow> alloc_all ns s = Inr (as, s') \<Longrightarrow> 0 \<notin> set as \<Longrightarrow>
     length as = length ns \<and> (\<forall>i<length as. {as ! i..<as ! i + ns ! i} \<inter> H = {}) \<and>
     (\<forall>i j. i < j \<longrightarrow> j < length as \<longrightarrow> {as ! i..<as ! i + ns ! i} \<inter> {as ! j..<as ! j + ns ! j} = {})"
proof (induction ns arbitrary: H s as)
  case (Cons n ns)
  obtain a s1 as' where r: "alloc n s = Inr (a, s1)" "alloc_all ns s1 = Inr (as', s')" "as = a # as'"
    using Cons.prems(2) by (auto simp: bindR_def split: sum.splits)
  then have a: "{a..<a + n} \<inter> H = {}" "inv (H \<union> {a..<a + n}) s1"
    using alloc_fresh[OF Cons.prems(1) r(1)] Cons.prems(3) by auto
  note IH = Cons.IH[OF a(2) r(2)]
  have IH: "length as' = length ns" "\<And>i. i < length as' \<Longrightarrow> {as' ! i..<as' ! i + ns ! i} \<inter> (H \<union> {a..<a + n}) = {}"
    "\<And>i j. i < j \<Longrightarrow> j < length as' \<Longrightarrow> {as' ! i..<as' ! i + ns ! i} \<inter> {as' ! j..<as' ! j + ns ! j} = {}"
    using IH Cons.prems(3) r(3) by auto
  have "{as ! i..<as ! i + (n # ns) ! i} \<inter> H = {}" if "i < length as" for i
    using a(1) IH(2)[of "i - 1"] that unfolding r(3) by (cases i) auto
  moreover have "{as ! i..<as ! i + (n # ns) ! i} \<inter> {as ! j..<as ! j + (n # ns) ! j} = {}" if ij: "i < j" "j < length as" for i j
  proof (cases i)
    case 0
    obtain j' where j: "j = Suc j'" "j' < length as'" using ij r(3) by (cases j) auto
    then have "{a..<a + n} \<inter> {as' ! j'..<as' ! j' + ns ! j'} = {}" using IH(2)[of j'] by blast
    then show ?thesis using 0 j unfolding r(3) by simp
  next
    case (Suc i')
    then show ?thesis using IH(3)[of i' "j - 1"] ij unfolding r(3) by (cases j) auto
  qed
  ultimately show ?case using IH(1) r(3) by simp
qed simp

end

definition chunk :: "metastate \<Rightarrow> nat set" where
  "chunk md = {metadata_chunk_alloc md..<metadata_chunk_alloc md + metadata_chunk_avail md}"

definition md_inv :: "'os sysops \<Rightarrow> ('os \<Rightarrow> nat set) \<Rightarrow> nat set \<Rightarrow> metastate \<times> 'os system \<Rightarrow> bool" where
  "md_inv ops owned H ms \<longleftrightarrow> (case ms of (md, s) \<Rightarrow>
     sys_ok ops s \<and> H \<subseteq> owned (os s) \<and> chunk md \<subseteq> owned (os s) \<and> chunk md \<inter> H = {} \<and>
     metadata_chunk_alloc md + metadata_chunk_avail md \<le> 2 ^ 64)"

lemma neg_align: "c \<le> 2 ^ 64 \<Longrightarrow> kMemoryAligner dvd c + ((2 ^ 64 - c) AND (kMemoryAligner - 1))"
proof -
  assume c: "c \<le> 2 ^ 64"
  have k: "kMemoryAligner = 2 ^ 6" by (simp add: kMemoryAligner_def)
  have "(c + ((2 ^ 64 - c) mod 64)) mod 64 = (c + (2 ^ 64 - c)) mod 64" by (rule mod_add_right_eq)
  also have "\<dots> = 0" using c by simp
  finally show ?thesis unfolding k and_pow2 by (simp add: mod_eq_0_iff_dvd)
qed

lemma MetaDataAlloc_source:
  assumes ok: "os_ok ops owned" shows "chunk_source (MetaDataAlloc ops fl) (md_inv ops owned)"
proof -
  have A: "kMemoryAligner = 2 ^ 6" by (simp add: kMemoryAligner_def)
  have main: "(a = 0 \<longrightarrow> md_inv ops owned H ms') \<and>
      (a \<noteq> 0 \<longrightarrow> kMemoryAligner dvd a \<and> {a..<a + n} \<inter> H = {} \<and> md_inv ops owned (H \<union> {a..<a + n}) ms')"
    if inv: "md_inv ops owned H ms" and run: "MetaDataAlloc ops fl n ms = Inr (a, ms')" for H ms n a ms'
  proof -
    obtain md s where ms: "ms = (md, s)" by fastforce
    let ?C = "chunk md"
    have i: "sys_ok ops s" "H \<subseteq> owned (os s)" "?C \<subseteq> owned (os s)" "?C \<inter> H = {}" "metadata_chunk_alloc md + metadata_chunk_avail md \<le> 2 ^ 64"
      using inv unfolding md_inv_def ms by auto
    note R = SystemAlloc_run[OF ok i(1) A]
    show ?thesis
    proof (cases "kMetadataAllocChunkSize \<le> n")
      case True
      obtain r s1 where sa: "SystemAlloc ops fl n kMemoryAligner s = Inr (r, s1)"
        using run True by (auto simp: MetaDataAlloc_def ms bindR_def split: sum.splits)
      show ?thesis
      proof (cases r)
        case None
        then have "a = 0" "ms' = (md, s1)" using run True sa by (auto simp: MetaDataAlloc_def ms bindR_def)
        then show ?thesis using R[OF sa] None i by (auto simp: md_inv_def)
      next
        case (Some pn)
        obtain p m where pn: "pn = (p, m)" by fastforce
        have a: "a = p" "ms' = (md\<lparr>metadata_system_bytes := metadata_system_bytes md + n\<rparr>, s1)"
          using run True sa Some pn by (auto simp: MetaDataAlloc_def ms bindR_def)
        have f: "0 < p" "kMemoryAligner dvd p" "n \<le> m" "{p..<p + m} \<inter> owned (os s) = {}"
          "owned (os s) \<union> {p..<p + m} \<subseteq> owned (os s1)" "sys_ok ops s1" using R[OF sa] Some pn by auto
        have sub: "{p..<p + n} \<subseteq> {p..<p + m}" using f(3) by auto
        have "{p..<p + n} \<inter> H = {}" "?C \<inter> (H \<union> {p..<p + n}) = {}" "H \<union> {p..<p + n} \<subseteq> owned (os s1)" "?C \<subseteq> owned (os s1)"
          using sub f(4,5) i(2-4) by blast+
        then show ?thesis using a f(1,2,6) i(5) by (simp add: md_inv_def chunk_def)
      qed
    next
      case small: False
      define al where "al = (2 ^ 64 - metadata_chunk_alloc md) AND (kMemoryAligner - 1)"
      show ?thesis
      proof (cases "metadata_chunk_avail md < n + al")
        case False
        let ?c = "metadata_chunk_alloc md + al"
        have a: "a = ?c" "ms' = (md\<lparr>metadata_chunk_alloc := metadata_chunk_alloc md + (n + al),
            metadata_chunk_avail := metadata_chunk_avail md - (n + al),
            metadata_system_bytes := metadata_system_bytes md + (n + al)\<rparr>, s)"
          using run small False by (auto simp: MetaDataAlloc_def ms bindR_def Let_def al_def)
        have al: "kMemoryAligner dvd ?c" unfolding al_def using i(5) by (intro neg_align) simp
        let ?c' = "metadata_chunk_alloc md + (n + al)" and ?E = "metadata_chunk_alloc md + metadata_chunk_avail md"
        have e: "?c' + (metadata_chunk_avail md - (n + al)) = ?E" using False by simp
        have "{?c..<?c + n} \<subseteq> ?C" "{?c'..<?E} \<subseteq> ?C" "{?c..<?c + n} \<inter> {?c'..<?E} = {}"
          using False by (auto simp: chunk_def)
        then have "{?c..<?c + n} \<inter> H = {}" "{?c'..<?E} \<inter> (H \<union> {?c..<?c + n}) = {}" "{?c'..<?E} \<inter> H = {}"
          "H \<union> {?c..<?c + n} \<subseteq> owned (os s)" "{?c'..<?E} \<subseteq> owned (os s)"
          using i(2-4) by blast+
        moreover have "chunk (fst ms') = {?c'..<?E}" unfolding chunk_def a by (simp add: e del: add_is_0)
        ultimately have "md_inv ops owned H ms'" "md_inv ops owned (H \<union> {?c..<?c + n}) ms'" "{?c..<?c + n} \<inter> H = {}"
          using i(1,2,5) a(2) e by (simp_all add: md_inv_def)
        then show ?thesis using al a(1) by metis
      next
        case True
        obtain r s1 where sa: "SystemAlloc ops fl kMetadataAllocChunkSize kMemoryAligner s = Inr (r, s1)"
          using run small True by (auto simp: MetaDataAlloc_def ms bindR_def Let_def al_def split: sum.splits)
        show ?thesis
        proof (cases r)
          case None
          then have "a = 0" "ms' = (md, s1)" using run small True sa
            by (auto simp: MetaDataAlloc_def ms bindR_def Let_def al_def)
          then show ?thesis using R[OF sa] None i by (auto simp: md_inv_def)
        next
          case (Some pn)
          obtain p m where pn: "pn = (p, m)" by fastforce
          have a: "a = p" "ms' = (md\<lparr>metadata_chunk_alloc := p + n, metadata_chunk_avail := m - n,
              metadata_system_bytes := metadata_system_bytes md + n\<rparr>, s1)"
            using run small True sa Some pn by (auto simp: MetaDataAlloc_def ms bindR_def Let_def al_def)
          have f: "0 < p" "kMemoryAligner dvd p" "kMetadataAllocChunkSize \<le> m" "{p..<p + m} \<inter> owned (os s) = {}"
            "owned (os s) \<union> {p..<p + m} \<subseteq> owned (os s1)" "sys_ok ops s1" "p + m \<le> 2 ^ 48"
            using R[OF sa] Some pn by (auto simp: kAddressBits_def)
          have nm: "n \<le> m" "p + n + (m - n) = p + m" using small f(3) by auto
          have "{p..<p + n} \<subseteq> {p..<p + m}" "{p + n..<p + m} \<subseteq> {p..<p + m}" "{p..<p + n} \<inter> {p + n..<p + m} = {}"
            using nm by auto
          then have "{p..<p + n} \<inter> H = {}" "{p + n..<p + m} \<inter> (H \<union> {p..<p + n}) = {}" "H \<union> {p..<p + n} \<subseteq> owned (os s1)"
            "{p + n..<p + m} \<subseteq> owned (os s1)" using f(4,5) i(2) by blast+
          then show ?thesis using a f(1,2,6,7) nm by (simp add: md_inv_def chunk_def)
        qed
      qed
    qed
  qed
  show ?thesis by unfold_locales (use main in blast)+
qed


text \<open>An operating system that hands out ever higher addresses: its state is the first address it has
  not handed out and the memory that is mapped.\<close>

definition demo_owned :: "nat \<times> nat set \<Rightarrow> nat set" where "demo_owned o1 = snd o1 \<inter> {..<fst o1}"

definition demo_call :: "nat \<Rightarrow> nat \<Rightarrow> nat \<times> nat set \<Rightarrow> nat option \<times> nat \<times> nat set" where
  "demo_call grain n o1 =
     (let p = (fst o1 div grain + 1) * grain in (Some p, p + n, demo_owned o1 \<union> {p..<p + n}))"

definition demo_os :: "(nat \<times> nat set) sysops" where
  "demo_os = \<lparr>os_sbrk = demo_call 1, os_mmap = demo_call 4096,
     os_munmap = (\<lambda>p n o1. (fst o1, snd o1 - {p..<p + n})), os_madvise = (\<lambda>p n o1. (True, o1)), os_pagesize = 4096\<rparr>"

lemma demo_call_hands_out: "0 < g \<Longrightarrow> hands_out g demo_owned (demo_call g)"
proof (unfold hands_out_def, intro allI)
  fix n and o1 :: "nat \<times> nat set" assume g: "0 < g"
  let ?p = "(fst o1 div g + 1) * g"
  have "fst o1 < ?p" using dividend_less_div_times[OF g, of "fst o1"] by (simp add: algebra_simps)
  then have "0 < ?p" "{?p..<?p + n} \<inter> demo_owned o1 = {}" "demo_owned (?p + n, demo_owned o1 \<union> {?p..<?p + n}) = demo_owned o1 \<union> {?p..<?p + n}"
    unfolding demo_owned_def by auto
  then show "case demo_call g n o1 of (None, o2) \<Rightarrow> demo_owned o2 = demo_owned o1
      | (Some p, o2) \<Rightarrow> 0 < p \<and> g dvd p \<and> {p..<p + n} \<inter> demo_owned o1 = {} \<and> demo_owned o2 = demo_owned o1 \<union> {p..<p + n}"
    unfolding demo_call_def Let_def by simp
qed

lemma demo_os_ok: "os_ok demo_os demo_owned"
proof -
  have "\<exists>k. (4096::nat) = 2 ^ k" by (rule exI[of _ 12]) simp
  then show ?thesis using demo_call_hands_out[of 1] demo_call_hands_out[of 4096]
    by (auto simp: os_ok_def demo_os_def demo_owned_def)
qed

interpretation metadata_source: chunk_source "MetaDataAlloc demo_os fl" "md_inv demo_os demo_owned" for fl
  by (rule MetaDataAlloc_source[OF demo_os_ok])

definition demo_flags :: sysflags where
  "demo_flags = \<lparr>malloc_skip_sbrk = True, malloc_skip_mmap = False, malloc_disable_memory_release = False,
     malloc_devmem_start = False, kDebugMode = False\<rparr>"

definition demo_system :: "(nat \<times> nat set) system" where
  "demo_system = \<lparr>os = (100, {}), pagesize = 0, system_alloc_inited = False, failed = [], allocs = [],
     TCMalloc_SystemTaken = 0\<rparr>"

definition demo_metastate :: metastate where
  "demo_metastate = \<lparr>metadata_system_bytes = 0, metadata_chunk_alloc = 0, metadata_chunk_avail = 0\<rparr>"

subsection \<open>The properties\<close>

text \<open>C25: whichever of sbrk and mmap serves it, and whatever trimming the alignment takes, memory from
  \<^verbatim>\<open>TCMalloc_SystemAlloc\<close> is aligned, is at least as large as asked for, lies below \<open>2 ^ 48\<close>, and was not owned
  by the process before; nothing that was owned is lost, and \<^verbatim>\<open>TCMalloc_SystemTaken\<close> grows by its size.\<close>

theorem SystemAlloc_fresh:
  assumes "os_ok ops owned" and "sys_ok ops s" and "alignment = 2 ^ k"
    and "SystemAlloc ops fl sz alignment s = Inr (Some (p, n), s')"
  shows "0 < p \<and> alignment dvd p \<and> sz \<le> n \<and> p + n \<le> 2 ^ kAddressBits \<and> {p..<p + n} \<inter> owned (os s) = {} \<and>
    owned (os s) \<union> {p..<p + n} \<subseteq> owned (os s') \<and> sys_ok ops s' \<and>
    TCMalloc_SystemTaken s' = TCMalloc_SystemTaken s + n"
  using SystemAlloc_run[OF assms] by simp

lemma demo_sys_ok: "sys_ok demo_os demo_system"
  by (simp add: sys_ok_def demo_os_def demo_system_def)

lemma kMaxAllocators_Suc: "kMaxAllocators = Suc (Suc 0)"
  by (simp add: kMaxAllocators_def)

lemmas demo_run = SystemAlloc_def Default_Alloc_def kMaxAllocators_Suc InitSystemAllocators_def
  SetChildAllocator_def demo_flags_def demo_system_def child_Alloc_def Sbrk_Alloc_def Mmap_Alloc_def demo_os_def
  demo_call_def round_up_def kMemoryAligner_def Let_def CheckAddressBits_def kAddressBits_def align_gap_def
  kMetadataAllocChunkSize_def

theorem SystemAlloc_fresh_witness:
  "\<exists>p n s'. SystemAlloc demo_os demo_flags 10000 8192 demo_system = Inr (Some (p, n), s') \<and> 8192 dvd p \<and> 10000 \<le> n"
proof -
  have "\<exists>p n s'. SystemAlloc demo_os demo_flags 10000 8192 demo_system = Inr (Some (p, n), s')"
    by (simp add: demo_run)
  then obtain p n s' where r: "SystemAlloc demo_os demo_flags 10000 8192 demo_system = Inr (Some (p, n), s')" by blast
  have "(8192::nat) = 2 ^ 13" by simp
  then show ?thesis using SystemAlloc_fresh[OF demo_os_ok demo_sys_ok _ r] r by blast
qed

text \<open>C26: the blocks that a sequence of \<^verbatim>\<open>MetaDataAlloc\<close> calls returns, from shared chunks or from blocks of their own, are
  aligned to a cache line and never overlap each other or the memory \<open>H\<close> that was in use before.\<close>

theorem MetaDataAlloc_disjoint:
  assumes "os_ok ops owned" and "md_inv ops owned H ms"
    and "MetaDataAlloc ops fl n ms = Inr (a, ms1)" and "MetaDataAlloc ops fl m ms1 = Inr (b, ms2)" and "a \<noteq> 0" and "b \<noteq> 0"
  shows "kMemoryAligner dvd a \<and> kMemoryAligner dvd b \<and> {a..<a + n} \<inter> H = {} \<and> {b..<b + m} \<inter> H = {} \<and>
    {a..<a + n} \<inter> {b..<b + m} = {} \<and> md_inv ops owned (H \<union> {a..<a + n} \<union> {b..<b + m}) ms2"
proof -
  note fresh = chunk_source.alloc_fresh[OF MetaDataAlloc_source[OF assms(1), of fl]]
  note a = fresh[OF assms(2,3,5)]
  note b = fresh[OF conjunct2[OF conjunct2[OF a]] assms(4,6)]
  show ?thesis using a b by blast
qed

theorem MetaDataAlloc_disjoint_witness:
  "\<exists>a b ms1 ms2. MetaDataAlloc demo_os demo_flags 100 (demo_metastate, demo_system) = Inr (a, ms1) \<and>
     MetaDataAlloc demo_os demo_flags 200 ms1 = Inr (b, ms2) \<and> {a..<a + 100} \<inter> {b..<b + 200} = {}"
proof -
  have inv: "md_inv demo_os demo_owned {} (demo_metastate, demo_system)"
    by (simp add: md_inv_def demo_sys_ok chunk_def demo_metastate_def)
  have "\<exists>s. SystemAlloc demo_os demo_flags kMetadataAllocChunkSize kMemoryAligner demo_system =
      Inr (Some (4096, 0x800000), s)" by (simp add: demo_run)
  then obtain s where s: "SystemAlloc demo_os demo_flags kMetadataAllocChunkSize kMemoryAligner demo_system =
      Inr (Some (4096, 0x800000), s)" by blast
  have 1: "\<exists>ms1. MetaDataAlloc demo_os demo_flags 100 (demo_metastate, demo_system) = Inr (4096, ms1) \<and>
      fst ms1 = \<lparr>metadata_system_bytes = 100, metadata_chunk_alloc = 4196, metadata_chunk_avail = 8388508\<rparr>"
    by (simp add: MetaDataAlloc_def s bindR_def demo_metastate_def kMetadataAllocChunkSize_def[symmetric])
      (simp add: kMetadataAllocChunkSize_def kMemoryAligner_def)
  then obtain ms1 where ms1: "MetaDataAlloc demo_os demo_flags 100 (demo_metastate, demo_system) = Inr (4096, ms1)"
    "fst ms1 = \<lparr>metadata_system_bytes = 100, metadata_chunk_alloc = 4196, metadata_chunk_avail = 8388508\<rparr>" by blast
  have "\<exists>ms2. MetaDataAlloc demo_os demo_flags 200 ms1 = Inr (4224, ms2)"
    using ms1(2) by (cases ms1) (simp add: MetaDataAlloc_def bindR_def kMetadataAllocChunkSize_def kMemoryAligner_def)
  then obtain ms2 where ms2: "MetaDataAlloc demo_os demo_flags 200 ms1 = Inr (4224, ms2)" by blast
  show ?thesis using MetaDataAlloc_disjoint[OF demo_os_ok inv ms1(1) ms2] ms1(1) ms2 by auto
qed

end
