(* ===== verification/PageHeapAllocator.thy ===== *)
theory PageHeapAllocator
  imports SystemAlloc Span
begin

section \<open>The allocator of internal objects (page_heap_allocator.h)\<close>

text \<open>
  \<^verbatim>\<open>PageHeapAllocator<T>\<close>, from which spans, thread caches and stack traces come.  The size of \<^verbatim>\<open>T\<close> is the
  argument \<open>tsz\<close>, and the source of memory is the argument \<open>al\<close>; the code uses \<^verbatim>\<open>MetaDataAlloc\<close>, which
  is what the properties instantiate it with.  Freed objects are chained through their first
  word.
\<close>

record pha =
  free_area :: nat
  free_avail :: nat
  free_list :: nat
  inuse :: int

definition kAllocIncrement :: nat where "kAllocIncrement = 128 * 2 ^ 10"

type_synonym 'm pha_state = "pha \<times> store \<times> 'm"

definition pha_New :: "(nat \<Rightarrow> 'm \<Rightarrow> (nat \<times> 'm) res) \<Rightarrow> nat \<Rightarrow> 'm pha_state \<Rightarrow> (nat \<times> 'm pha_state) res" where
  "pha_New al tsz s =
     (case s of (p, st, m) \<Rightarrow>
        if free_list p \<noteq> 0 then
          Inr (free_list p, p\<lparr>free_list := st (free_list p), inuse := inuse p + 1\<rparr>, st, m)
        else
          bindR
            (if free_avail p < tsz then
               bindR (al kAllocIncrement m) (\<lambda>(a, m).
                 if a = 0 then Inl Crash else Inr (p\<lparr>free_area := a, free_avail := kAllocIncrement\<rparr>, m))
             else Inr (p, m))
            (\<lambda>(p, m). Inr (free_area p,
               p\<lparr>free_area := free_area p + tsz, free_avail := free_avail p - tsz, inuse := inuse p + 1\<rparr>, st, m)))"

definition pha_Delete :: "nat \<Rightarrow> 'm pha_state \<Rightarrow> 'm pha_state res" where
  "pha_Delete ptr s =
     (case s of (p, st, m) \<Rightarrow>
        bindR (SLL_SetNext ptr (free_list p) st) (\<lambda>st.
          Inr (p\<lparr>free_list := ptr, inuse := inuse p - 1\<rparr>, st, m)))"

definition pha_Init :: "(nat \<Rightarrow> 'm \<Rightarrow> (nat \<times> 'm) res) \<Rightarrow> nat \<Rightarrow> 'm pha_state \<Rightarrow> 'm pha_state res" where
  "pha_Init al tsz s =
     (case s of (p, st, m) \<Rightarrow>
        bindR (pha_New al tsz (\<lparr>free_area = 0, free_avail = 0, free_list = 0, inuse = 0\<rparr>, st, m)) (\<lambda>(a, s). pha_Delete a s))"

subsection \<open>No object is handed out twice\<close>

abbreviation block :: "nat \<Rightarrow> nat \<Rightarrow> nat set" where "block tsz a \<equiv> {a..<a + tsz}"

text \<open>\<open>fl\<close> are the freed objects, \<open>live\<close> the objects in use; \<open>own\<close> are the bytes the allocator got from
  its source, \<open>H\<close> all bytes in use elsewhere.\<close>

definition pool :: "nat \<Rightarrow> nat set \<Rightarrow> nat list \<Rightarrow> nat set \<Rightarrow> pha \<Rightarrow> bool" where
  "pool tsz own fl live p \<longleftrightarrow> set fl \<inter> live = {} \<and> 0 \<notin> live \<and>
     (\<forall>a\<in>set fl \<union> live. block tsz a \<subseteq> own) \<and>
     (\<forall>a\<in>set fl \<union> live. \<forall>b\<in>set fl \<union> live. a \<noteq> b \<longrightarrow> block tsz a \<inter> block tsz b = {}) \<and>
     {free_area p..<free_area p + free_avail p} \<subseteq> own \<and> (0 < free_avail p \<longrightarrow> 0 < free_area p) \<and>
     (\<forall>a\<in>set fl \<union> live. block tsz a \<inter> {free_area p..<free_area p + free_avail p} = {})"

text \<open>The histories of an allocator: after \<^verbatim>\<open>Init\<close>, objects are allocated and freed in any order, and the owners of
  the live objects write to them.\<close>

inductive pha_run :: "(nat \<Rightarrow> 'm \<Rightarrow> (nat \<times> 'm) res) \<Rightarrow> nat \<Rightarrow> 'm \<Rightarrow> 'm pha_state \<Rightarrow> nat set \<Rightarrow> bool" for al tsz m0 where
  init: "pha_Init al tsz (p, st, m0) = Inr s \<Longrightarrow> pha_run al tsz m0 s {}"
| new: "pha_run al tsz m0 s live \<Longrightarrow> pha_New al tsz s = Inr (a, s') \<Longrightarrow> pha_run al tsz m0 s' (insert a live)"
| del: "pha_run al tsz m0 s live \<Longrightarrow> a \<in> live \<Longrightarrow> pha_Delete a s = Inr s' \<Longrightarrow> pha_run al tsz m0 s' (live - {a})"
| user: "pha_run al tsz m0 (p, st, m) live \<Longrightarrow> \<forall>x. x \<notin> (\<Union>a\<in>live. block tsz a) \<longrightarrow> st' x = st x \<Longrightarrow>
    pha_run al tsz m0 (p, st', m) live"

context chunk_source
begin

definition pha_inv :: "nat \<Rightarrow> nat set \<Rightarrow> nat set \<Rightarrow> 's pha_state \<Rightarrow> bool" where
  "pha_inv tsz H live s \<longleftrightarrow> (case s of (p, st, m) \<Rightarrow>
     finite live \<and> inuse p = int (card live) \<and>
     (\<exists>fl own. sll st (free_list p) fl \<and> pool tsz own fl live p \<and> own \<inter> H = {} \<and> inv (H \<union> own) m))"

lemma pha_invI:
  "finite live \<Longrightarrow> inuse p = int (card live) \<Longrightarrow> sll st (free_list p) fl \<Longrightarrow> pool tsz own fl live p \<Longrightarrow> own \<inter> H = {} \<Longrightarrow>
     inv (H \<union> own) m \<Longrightarrow> pha_inv tsz H live (p, st, m)"
  by (auto simp: pha_inv_def)

lemma New_free_list:
  assumes "sll st (free_list p) (x # fl)" and "pool tsz own (x # fl) live p"
  shows "pool tsz own fl (insert x live) (p\<lparr>free_list := st (free_list p), inuse := k\<rparr>)" and "x \<notin> live" and "x \<noteq> 0"
proof -
  have d: "x \<notin> set fl" using sll_distinct[OF assms(1)] by simp
  show "x \<notin> live" "x \<noteq> 0" using assms by (auto simp: pool_def)
  have "set fl \<union> insert x live = set (x # fl) \<union> live" by auto
  then show "pool tsz own fl (insert x live) (p\<lparr>free_list := st (free_list p), inuse := k\<rparr>)"
    using assms(2) d \<open>x \<noteq> 0\<close> unfolding pool_def by simp
qed

lemma New_area:
  assumes "pool tsz own [] live p" and "tsz \<le> free_avail p" and "0 < tsz"
  shows "pool tsz own [] (insert (free_area p) live)
      (p\<lparr>free_area := free_area p + tsz, free_avail := free_avail p - tsz, inuse := k\<rparr>)"
    and "free_area p \<notin> live" and "free_area p \<noteq> 0"
proof -
  let ?a = "free_area p" and ?A = "{free_area p..<free_area p + free_avail p}"
  let ?A' = "{free_area p + tsz..<free_area p + tsz + (free_avail p - tsz)}"
  have P: "0 \<notin> live" "\<forall>a\<in>live. block tsz a \<subseteq> own" "\<forall>a\<in>live. \<forall>b\<in>live. a \<noteq> b \<longrightarrow> block tsz a \<inter> block tsz b = {}"
    "?A \<subseteq> own" "0 < ?a" "\<forall>a\<in>live. block tsz a \<inter> ?A = {}" using assms by (auto simp: pool_def)
  have sub: "block tsz ?a \<subseteq> ?A" "?A' \<subseteq> ?A" "block tsz ?a \<inter> ?A' = {}" using assms(2) by auto
  have mem: "?a \<in> block tsz ?a" using assms(3) by simp
  show "?a \<notin> live" using P(6) sub(1) mem by blast
  show "?a \<noteq> 0" using P(5) by simp
  have 1: "\<forall>a\<in>insert ?a live. block tsz a \<subseteq> own" using P(2,4) sub(1) by blast
  have 2: "\<forall>a\<in>insert ?a live. \<forall>b\<in>insert ?a live. a \<noteq> b \<longrightarrow> block tsz a \<inter> block tsz b = {}"
    using P(3,6) sub(1) by blast
  have 3: "?A' \<subseteq> own" "\<forall>a\<in>insert ?a live. block tsz a \<inter> ?A' = {}" using P(4,6) sub by blast+
  show "pool tsz own [] (insert ?a live) (p\<lparr>free_area := ?a + tsz, free_avail := free_avail p - tsz, inuse := k\<rparr>)"
    unfolding pool_def using P(1,5) 1 2 3 by simp
qed

lemma New_inv:
  assumes "pha_inv tsz H live s" and "pha_New alloc tsz s = Inr (a, s')" and "0 < tsz" and "tsz \<le> kAllocIncrement"
  shows "pha_inv tsz H (insert a live) s' \<and> a \<noteq> 0 \<and> a \<notin> live"
proof -
  obtain p st m where s: "s = (p, st, m)" by (metis prod_cases3)
  obtain fl own where i: "finite live" "inuse p = int (card live)" "sll st (free_list p) fl" "pool tsz own fl live p"
    "own \<inter> H = {}" "inv (H \<union> own) m" using assms(1) by (auto simp: pha_inv_def s)
  show ?thesis
  proof (cases fl)
    case (Cons x xs)
    then have x: "free_list p = x" "x \<noteq> 0" "sll st (st x) xs" using i(3) by auto
    then have r: "a = x" "s' = (p\<lparr>free_list := st (free_list p), inuse := inuse p + 1\<rparr>, st, m)"
      using assms(2) by (auto simp: pha_New_def s)
    note n = New_free_list(1)[OF i(3)[unfolded Cons] i(4)[unfolded Cons], of "inuse p + 1"]
      New_free_list(2,3)[OF i(3)[unfolded Cons] i(4)[unfolded Cons]]
    have "pha_inv tsz H (insert a live) s'" unfolding r
      by (rule pha_invI[where fl = xs and own = own]) (use i n x in auto)
    then show ?thesis using n r(1) by auto
  next
    case Nil
    then have f0: "free_list p = 0" using i(3) by simp
    show ?thesis
    proof (cases "free_avail p < tsz")
      case False
      then have r: "a = free_area p" "s' = (p\<lparr>free_area := free_area p + tsz, free_avail := free_avail p - tsz,
          inuse := inuse p + 1\<rparr>, st, m)" using assms(2) f0 by (auto simp: pha_New_def s)
      note n = New_area(1)[OF i(4)[unfolded Nil] _ assms(3), of "inuse p + 1"] New_area(2,3)[OF i(4)[unfolded Nil] _ assms(3)]
      have "pha_inv tsz H (insert a live) s'" unfolding r
        by (rule pha_invI[where fl = "[]" and own = own]) (use i Nil n False in auto)
      then show ?thesis using n False r(1) by auto
    next
      case True
      obtain b m1 where b: "alloc kAllocIncrement m = Inr (b, m1)" "b \<noteq> 0"
        using assms(2) f0 True by (auto simp: pha_New_def s bindR_def split: sum.splits if_splits)
      let ?p = "p\<lparr>free_area := b, free_avail := kAllocIncrement\<rparr>"
      let ?B = "{b..<b + kAllocIncrement}"
      have fr: "?B \<inter> (H \<union> own) = {}" "inv (H \<union> own \<union> ?B) m1" using alloc_fresh[OF i(6) b] by auto
      have P: "0 \<notin> live" "\<forall>a\<in>live. block tsz a \<subseteq> own" "\<forall>a\<in>live. \<forall>b\<in>live. a \<noteq> b \<longrightarrow> block tsz a \<inter> block tsz b = {}"
        using i(4) Nil by (auto simp: pool_def)
      have "\<forall>a\<in>live. block tsz a \<subseteq> own \<union> ?B" "\<forall>a\<in>live. block tsz a \<inter> ?B = {}" using P(2) fr(1) by blast+
      then have pl: "pool tsz (own \<union> ?B) [] live ?p" unfolding pool_def using P(1,3) b(2) by simp
      have r: "a = b" "s' = (?p\<lparr>free_area := b + tsz, free_avail := kAllocIncrement - tsz,
          inuse := inuse p + 1\<rparr>, st, m1)" using assms(2) f0 True b by (auto simp: pha_New_def s bindR_def)
      note n = New_area(1)[OF pl _ assms(3), of "inuse p + 1"] New_area(2,3)[OF pl _ assms(3)]
      have "(own \<union> ?B) \<inter> H = {}" "inv (H \<union> (own \<union> ?B)) m1" using fr i(5) by (auto simp: Un_assoc)
      then have "pha_inv tsz H (insert a live) s'" unfolding r
        by (intro pha_invI[where fl = "[]" and own = "own \<union> ?B"]) (use i(1-3) Nil n assms(4) in auto)
      then show ?thesis using n assms(4) r(1) by auto
    qed
  qed
qed

lemma Delete_inv:
  assumes "pha_inv tsz H live s" and "a \<in> live" and "0 < tsz"
  shows "\<exists>s'. pha_Delete a s = Inr s' \<and> pha_inv tsz H (live - {a}) s'"
proof -
  obtain p st m where s: "s = (p, st, m)" by (metis prod_cases3)
  obtain fl own where i: "finite live" "inuse p = int (card live)" "sll st (free_list p) fl" "pool tsz own fl live p"
    "own \<inter> H = {}" "inv (H \<union> own) m" using assms(1) by (auto simp: pha_inv_def s)
  have a: "a \<noteq> 0" "a \<notin> set fl" using i(4) assms(2) by (auto simp: pool_def)
  have sl: "sll (st(a := free_list p)) a (a # fl)" using SLL_Push_lst[OF i(3) a] by simp
  have "set (a # fl) \<union> (live - {a}) = set fl \<union> live" using assms(2) by auto
  then have "pool tsz own (a # fl) (live - {a}) (p\<lparr>free_list := a, inuse := inuse p - 1\<rparr>)"
    using i(4) a unfolding pool_def by simp blast
  moreover have "card (live - {a}) = card live - 1" "0 < card live" using assms(2) i(1) by (auto simp: card_gt_0_iff)
  ultimately have "pha_inv tsz H (live - {a}) (p\<lparr>free_list := a, inuse := inuse p - 1\<rparr>, st(a := free_list p), m)"
    using i sl by (intro pha_invI[where fl = "a # fl" and own = own]) (auto simp: of_nat_diff)
  then show ?thesis using a by (simp add: pha_Delete_def s SLL_SetNext_def)
qed

lemma user_inv:
  assumes "pha_inv tsz H live (p, st, m)" and "\<forall>x. x \<notin> (\<Union>a\<in>live. block tsz a) \<longrightarrow> st' x = st x" and "0 < tsz"
  shows "pha_inv tsz H live (p, st', m)"
proof -
  obtain fl own where i: "finite live" "inuse p = int (card live)" "sll st (free_list p) fl" "pool tsz own fl live p"
    "own \<inter> H = {}" "inv (H \<union> own) m" using assms(1) by (auto simp: pha_inv_def)
  have "st' x = st x" if x: "x \<in> set fl" for x
  proof -
    have "x \<in> block tsz x" using assms(3) by simp
    moreover have "block tsz x \<inter> block tsz a = {}" if "a \<in> live" for a
      using i(4) x that unfolding pool_def by (metis IntI UnI1 UnI2 empty_iff)
    ultimately have "x \<notin> (\<Union>a\<in>live. block tsz a)" by blast
    then show ?thesis using assms(2) by blast
  qed
  then have "sll st' (free_list p) fl" using sll_frame i(3) by blast
  then show ?thesis using i by (intro pha_invI)
qed

lemma Init_inv:
  assumes "pha_Init alloc tsz (p, st, m) = Inr s" and "inv H m" and "0 < tsz" and "tsz \<le> kAllocIncrement"
  shows "pha_inv tsz H {} s"
proof -
  let ?p = "\<lparr>free_area = 0, free_avail = 0, free_list = 0, inuse = 0\<rparr>"
  have 0: "pha_inv tsz H {} (?p, st, m)" by (rule pha_invI[where fl = "[]" and own = "{}"]) (use assms(2) in \<open>auto simp: pool_def\<close>)
  obtain a s1 where n: "pha_New alloc tsz (?p, st, m) = Inr (a, s1)" "pha_Delete a s1 = Inr s"
    using assms(1) by (auto simp: pha_Init_def bindR_def split: sum.splits)
  have "pha_inv tsz H {a} s1" using New_inv[OF 0 n(1) assms(3,4)] by simp
  then show ?thesis using Delete_inv[of tsz H "{a}" s1 a] assms(3) n(2) by auto
qed

lemma pha_run_inv:
  "pha_run alloc tsz m0 s live \<Longrightarrow> inv H m0 \<Longrightarrow> 0 < tsz \<Longrightarrow> tsz \<le> kAllocIncrement \<Longrightarrow> pha_inv tsz H live s"
proof (induction rule: pha_run.induct)
  case (init p st s)
  then show ?case using Init_inv by blast
next
  case (new s live a s')
  then show ?case using New_inv by blast
next
  case (del s live a s')
  then have "pha_inv tsz H live s" by simp
  then show ?case using Delete_inv[of tsz H live s a] del by auto
next
  case (user p st m live st')
  then show ?case using user_inv by blast
qed

lemma New_no_overlap:
  assumes "pha_inv tsz H live s" and "pha_New alloc tsz s = Inr (a, s')" and "0 < tsz" and "tsz \<le> kAllocIncrement"
  shows "a \<noteq> 0 \<and> a \<notin> live \<and> (\<forall>b\<in>live. block tsz a \<inter> block tsz b = {}) \<and> block tsz a \<inter> H = {}"
proof -
  obtain p st m where s': "s' = (p, st, m)" by (metis prod_cases3)
  have n: "pha_inv tsz H (insert a live) s'" "a \<noteq> 0" "a \<notin> live" using New_inv[OF assms] by auto
  obtain fl own where "pool tsz own fl (insert a live) p" "own \<inter> H = {}" using n(1) by (auto simp: pha_inv_def s')
  then have b: "\<forall>b\<in>insert a live. block tsz b \<subseteq> own" "own \<inter> H = {}"
    and d: "\<forall>x\<in>set fl \<union> insert a live. \<forall>y\<in>set fl \<union> insert a live. x \<noteq> y \<longrightarrow> block tsz x \<inter> block tsz y = {}"
    by (auto simp: pool_def)
  have "block tsz a \<inter> block tsz y = {}" if y: "y \<in> live" for y
  proof -
    have "a \<noteq> y" using n(3) y by auto
    then show ?thesis using d[THEN bspec[of _ _ a], THEN bspec[of _ _ y]] y by simp
  qed
  moreover have "block tsz a \<inter> H = {}" using b by blast
  ultimately show ?thesis using n(2,3) by simp
qed

end

subsection \<open>The property\<close>

text \<open>C29: along every history of the allocator on top of \<^verbatim>\<open>MetaDataAlloc\<close>, with the live objects written to at will, a
  new object is not null, overlaps no live object, and overlaps none of the memory in use elsewhere.\<close>

theorem PageHeapAllocator_no_overlap:
  assumes "os_ok ops owned" and "md_inv ops owned H m0" and "0 < tsz" and "tsz \<le> kAllocIncrement"
    and "pha_run (MetaDataAlloc ops fl) tsz m0 s live" and "pha_New (MetaDataAlloc ops fl) tsz s = Inr (a, s')"
  shows "a \<noteq> 0 \<and> a \<notin> live \<and> (\<forall>b\<in>live. {a..<a + tsz} \<inter> {b..<b + tsz} = {}) \<and> {a..<a + tsz} \<inter> H = {}"
proof -
  note src = MetaDataAlloc_source[OF assms(1), of fl]
  show ?thesis
    using chunk_source.New_no_overlap[OF src chunk_source.pha_run_inv[OF src assms(5,2,3,4)] assms(6,3,4)] .
qed

lemma demo_MetaDataAlloc:
  "\<exists>m. MetaDataAlloc demo_os demo_flags kAllocIncrement (demo_metastate, demo_system) = Inr (4096, m)"
proof -
  have "\<exists>s. SystemAlloc demo_os demo_flags kMetadataAllocChunkSize kMemoryAligner demo_system =
      Inr (Some (4096, 0x800000), s)" by (simp add: demo_run)
  then obtain s where "SystemAlloc demo_os demo_flags kMetadataAllocChunkSize kMemoryAligner demo_system =
      Inr (Some (4096, 0x800000), s)" by blast
  then show ?thesis
    by (simp add: MetaDataAlloc_def bindR_def demo_metastate_def kAllocIncrement_def kMetadataAllocChunkSize_def kMemoryAligner_def)
qed

theorem PageHeapAllocator_no_overlap_witness:
  "\<exists>s a s' b s''. pha_Init (MetaDataAlloc demo_os demo_flags) 48 (undefined, \<lambda>_. 0, demo_metastate, demo_system) = Inr s \<and>
     pha_New (MetaDataAlloc demo_os demo_flags) 48 s = Inr (a, s') \<and>
     pha_New (MetaDataAlloc demo_os demo_flags) 48 s' = Inr (b, s'') \<and> {b..<b + 48} \<inter> {a..<a + 48} = {}"
proof -
  let ?al = "MetaDataAlloc demo_os demo_flags"
  obtain m where m: "?al kAllocIncrement (demo_metastate, demo_system) = Inr (4096, m)" using demo_MetaDataAlloc by blast
  let ?s = "(\<lparr>free_area = 4144, free_avail = 131024, free_list = 4096, inuse = 0\<rparr>, (\<lambda>_. 0) :: store, m)"
  let ?s1 = "(\<lparr>free_area = 4144, free_avail = 131024, free_list = 0, inuse = 1\<rparr>, (\<lambda>_. 0) :: store, m)"
  let ?s2 = "(\<lparr>free_area = 4192, free_avail = 130976, free_list = 0, inuse = 2\<rparr>, (\<lambda>_. 0) :: store, m)"
  have i: "pha_Init ?al 48 (undefined, \<lambda>_. 0, demo_metastate, demo_system) = Inr ?s"
    using m by (auto simp: pha_Init_def pha_New_def pha_Delete_def bindR_def SLL_SetNext_def kAllocIncrement_def fun_upd_idem)
  have n: "pha_New ?al 48 ?s = Inr (4096, ?s1)" "pha_New ?al 48 ?s1 = Inr (4144, ?s2)" by (simp_all add: pha_New_def bindR_def)
  have r: "pha_run ?al 48 (demo_metastate, demo_system) ?s1 {4096}"
    using pha_run.new[OF pha_run.init[OF i] n(1)] by simp
  have inv: "md_inv demo_os demo_owned {} (demo_metastate, demo_system)"
    by (simp add: md_inv_def demo_sys_ok chunk_def demo_metastate_def)
  have "{4144..<4144 + 48} \<inter> {4096..<4096 + 48::nat} = {}"
    using PageHeapAllocator_no_overlap[OF demo_os_ok inv _ _ r n(2)] by (simp add: kAllocIncrement_def)
  then show ?thesis using i n by blast
qed

end
