(* ===== verification/PageHeap_World.thy ===== *)
theory PageHeap_World
  imports PageHeap_New PageHeapAllocator
begin

section \<open>The environment of the page heap\<close>

text \<open>
  The environment in which the page heap runs, made of the models of the other components: the system allocator, the
  allocators of span descriptors and of stack traces, and \<^verbatim>\<open>MetaDataAlloc\<close>, which also makes the nodes of the page map.  It satisfies the
  laws of \<open>page_env_total\<close> for every operating system with the laws of \<open>os_ok\<close>.
\<close>

record 'os pworld =
  pw_spans :: pha
  pw_span_store :: store
  pw_traces :: pha
  pw_trace_store :: store
  pw_trace :: "nat \<Rightarrow> nat \<times> nat"
  growth_stacks :: nat
  pw_meta :: metastate
  pw_sys :: "'os system"

definition sizeof_Span :: nat where "sizeof_Span = 48"
definition sizeof_StackTrace :: nat where "sizeof_StackTrace = 264"

definition sys_alloc_w :: "'os sysops \<Rightarrow> sysflags \<Rightarrow> nat \<Rightarrow> 'os pworld \<Rightarrow> ((nat \<times> nat) option \<times> 'os pworld) res" where
  "sys_alloc_w ops fl n w =
     bindR (SystemAlloc ops fl n kPageSize (pw_sys w)) (\<lambda>(r, s). Inr (r, w\<lparr>pw_sys := s\<rparr>))"

definition sys_release_w :: "'os sysops \<Rightarrow> sysflags \<Rightarrow> nat \<Rightarrow> nat \<Rightarrow> 'os pworld \<Rightarrow> bool \<times> 'os pworld" where
  "sys_release_w ops fl a n w = (case SystemRelease ops fl a n (pw_sys w) of (ok, s) \<Rightarrow> (ok, w\<lparr>pw_sys := s\<rparr>))"

definition span_new_w :: "'os sysops \<Rightarrow> sysflags \<Rightarrow> 'os pworld \<Rightarrow> (nat \<times> 'os pworld) res" where
  "span_new_w ops fl w =
     bindR (pha_New (MetaDataAlloc ops fl) sizeof_Span (pw_spans w, pw_span_store w, pw_meta w, pw_sys w)) (\<lambda>(i, p, st, md, s).
       Inr (i, w\<lparr>pw_spans := p, pw_span_store := st, pw_meta := md, pw_sys := s\<rparr>))"

definition span_delete_w :: "nat \<Rightarrow> 'os pworld \<Rightarrow> 'os pworld res" where
  "span_delete_w i w =
     bindR (pha_Delete i (pw_spans w, pw_span_store w, pw_meta w, pw_sys w)) (\<lambda>(p, st, md, s).
       Inr (w\<lparr>pw_spans := p, pw_span_store := st, pw_meta := md, pw_sys := s\<rparr>))"

text \<open>The return addresses in a stack trace are not modelled; a trace has its size and the link to the previous one.\<close>

definition RecordGrowth :: "'os sysops \<Rightarrow> sysflags \<Rightarrow> nat \<Rightarrow> 'os pworld \<Rightarrow> 'os pworld res" where
  "RecordGrowth ops fl growth w =
     bindR (pha_New (MetaDataAlloc ops fl) sizeof_StackTrace (pw_traces w, pw_trace_store w, pw_meta w, pw_sys w)) (\<lambda>(t, p, st, md, s).
       Inr (w\<lparr>pw_traces := p, pw_trace_store := st, pw_meta := md, pw_sys := s,
              pw_trace := (pw_trace w)(t := (growth, growth_stacks w)), growth_stacks := t\<rparr>))"

text \<open>\<^verbatim>\<open>MetaDataAlloc\<close> as the allocator of the page map; a crash inside stays a crash.\<close>

definition map_alloc_w :: "'os sysops \<Rightarrow> sysflags \<Rightarrow> 'os pworld res allocator" where
  "map_alloc_w ops fl sz m =
     (case m of Inl x \<Rightarrow> (False, Inl x)
      | Inr w \<Rightarrow>
          (case MetaDataAlloc ops fl sz (pw_meta w, pw_sys w) of
             Inl x \<Rightarrow> (False, Inl x)
           | Inr (a, md, s) \<Rightarrow> (a \<noteq> 0, Inr (w\<lparr>pw_meta := md, pw_sys := s\<rparr>))))"

definition heap_env :: "'os sysops \<Rightarrow> sysflags \<Rightarrow> 'os pworld penv" where
  "heap_env ops fl =
     \<lparr>sys_alloc = sys_alloc_w ops fl, sys_release = sys_release_w ops fl, sys_taken = (\<lambda>w. TCMalloc_SystemTaken (pw_sys w)),
      span_new = span_new_w ops fl, span_delete = span_delete_w, record_growth = RecordGrowth ops fl,
      map_alloc = map_alloc_w ops fl\<rparr>"

subsection \<open>The laws\<close>

context chunk_source
begin

lemma pha_inv_other:
  assumes "pha_inv tsz H live (p, st, m)" and "alloc n m = Inr (a, m')"
  obtains H' where "H \<subseteq> H'" and "pha_inv tsz H' live (p, st, m')"
proof -
  obtain fl own where i: "finite live" "inuse p = int (card live)" "sll st (free_list p) fl" "pool tsz own fl live p"
    "own \<inter> H = {}" "inv (H \<union> own) m" using assms(1) by (auto simp: pha_inv_def)
  show thesis
  proof (cases "a = 0")
    case True
    then have "inv (H \<union> own) m'" using alloc_none[OF i(6)] assms(2) by simp
    then show thesis using i that[of H] pha_invI[of live p st fl tsz own H m'] by simp
  next
    case False
    let ?B = "{a..<a + n}"
    have b: "?B \<inter> (H \<union> own) = {}" "inv (H \<union> own \<union> ?B) m'" using alloc_fresh[OF i(6) assms(2) False] by auto
    have "own \<inter> (H \<union> ?B) = {}" using b(1) i(5) by blast
    moreover have "inv (H \<union> ?B \<union> own) m'" using b(2) by (simp add: Un_ac)
    ultimately show thesis using i that[of "H \<union> ?B"] pha_invI[of live p st fl tsz own "H \<union> ?B" m'] by simp
  qed
qed

end

definition pbytes :: "nat set \<Rightarrow> nat set" where "pbytes P = {x. x div 2 ^ kPageShift \<in> P}"

definition world_ok :: "'os sysops \<Rightarrow> ('os \<Rightarrow> nat set) \<Rightarrow> nat set \<Rightarrow> nat set \<Rightarrow> 'os pworld \<Rightarrow> bool" where
  "world_ok ops owned L P w \<longleftrightarrow> P \<subseteq> {..<2 ^ 35} \<and> (\<exists>H. pbytes P \<subseteq> H \<and>
     chunk_source.pha_inv (md_inv ops owned) sizeof_Span H L (pw_spans w, pw_span_store w, pw_meta w, pw_sys w))"

lemma MetaDataAlloc_crash: "MetaDataAlloc ops fl n ms = Inl x \<Longrightarrow> x = Crash"
proof -
  have sc: "SystemAlloc ops fl k a s = Inl x \<Longrightarrow> x = Crash" for k a s
    by (auto simp: SystemAlloc_def Let_def split: if_splits prod.splits option.splits)
  assume "MetaDataAlloc ops fl n ms = Inl x"
  then show ?thesis
    by (cases ms) (auto simp: MetaDataAlloc_def Let_def bindR_def split: if_splits prod.splits option.splits sum.splits dest: sc)
qed

lemma pha_New_crash: "pha_New (MetaDataAlloc ops fl) tsz s = Inl x \<Longrightarrow> x = Crash"
  by (cases s) (auto simp: pha_New_def bindR_def split: if_splits prod.splits sum.splits dest: MetaDataAlloc_crash)

lemma pha_New_source:
  assumes "pha_New al tsz (p, st, m) = Inr (a, p', st', m')"
  shows "m' = m \<or> (\<exists>b. al kAllocIncrement m = Inr (b, m'))"
  using assms by (auto simp: pha_New_def bindR_def split: if_splits prod.splits sum.splits)

lemma page_range_bytes:
  assumes "2 ^ kPageShift dvd p"
  shows "pbytes (page_range p sz) \<subseteq> {p..<p + sz}" and "q \<in> page_range p sz \<Longrightarrow> q * 2 ^ kPageShift \<in> {p..<p + sz}"
proof -
  let ?z = "2 ^ kPageShift :: nat"
  have p: "p div ?z * ?z = p" using assms by simp
  have a: "p \<le> x" "x < p + sz" if "p div ?z \<le> x div ?z" "x div ?z < p div ?z + sz div ?z" for x
  proof -
    have "p div ?z * ?z \<le> x div ?z * ?z" using that(1) by (rule mult_right_mono) simp
    then show "p \<le> x" using p by (metis div_times_less_eq_dividend order_trans)
    have "(x div ?z + 1) * ?z \<le> (p div ?z + sz div ?z) * ?z" using that(2) by (intro mult_right_mono) simp_all
    also have "\<dots> \<le> p + sz" using p by (simp add: add_mult_distrib)
    moreover have "x < (x div ?z + 1) * ?z" using dividend_less_div_times[of ?z x] by simp
    ultimately show "x < p + sz" by simp
  qed
  show "pbytes (page_range p sz) \<subseteq> {p..<p + sz}" using a by (auto simp: pbytes_def page_range_def)
  assume "q \<in> page_range p sz"
  then show "q * ?z \<in> {p..<p + sz}" using a[of "q * ?z"] by (simp add: page_range_def)
qed

lemma SystemRelease_keeps:
  assumes "os_ok ops owned" and "SystemRelease ops fl a n s = (ok, s')" and "md_inv ops owned H (md, s)"
  shows "md_inv ops owned H (md, s') \<and> TCMalloc_SystemTaken s' = TCMalloc_SystemTaken s"
proof -
  have own: "\<And>p n o1. owned (snd (os_madvise ops p n o1)) = owned o1" using assms(1) by (simp add: os_ok_def)
  have "owned (os s') = owned (os s) \<and> TCMalloc_SystemTaken s' = TCMalloc_SystemTaken s \<and> (sys_ok ops s \<longrightarrow> sys_ok ops s')"
    using assms(2) own by (auto simp: SystemRelease_def Let_def sys_ok_def split: if_splits prod.splits) (metis snd_conv)+
  then show ?thesis using assms(3) by (auto simp: md_inv_def)
qed

lemma md_inv_system:
  assumes "os_ok ops owned" and "md_inv ops owned H (md, s)" and "SystemAlloc ops fl n (2 ^ k) s = Inr (r, s')"
  shows "case r of None \<Rightarrow> md_inv ops owned H (md, s')
    | Some (p, sz) \<Rightarrow> 0 < p \<and> 2 ^ k dvd p \<and> n \<le> sz \<and> p + sz \<le> 2 ^ kAddressBits \<and> {p..<p + sz} \<inter> H = {} \<and> md_inv ops owned (H \<union> {p..<p + sz}) (md, s')"
proof -
  have i: "sys_ok ops s" "H \<subseteq> owned (os s)" "chunk md \<subseteq> owned (os s)" "chunk md \<inter> H = {}"
    "metadata_chunk_alloc md + metadata_chunk_avail md \<le> 2 ^ 64" using assms(2) by (auto simp: md_inv_def)
  note R = SystemAlloc_run[OF assms(1) i(1) refl assms(3)]
  show ?thesis
  proof (cases r)
    case None
    then show ?thesis using R i by (auto simp: md_inv_def)
  next
    case (Some x)
    obtain p sz where x: "x = (p, sz)" by fastforce
    have f: "0 < p" "2 ^ k dvd p" "n \<le> sz" "{p..<p + sz} \<inter> owned (os s) = {}" "owned (os s) \<union> {p..<p + sz} \<subseteq> owned (os s')"
      "sys_ok ops s'" "p + sz \<le> 2 ^ kAddressBits" using R Some x by auto
    have "{p..<p + sz} \<inter> H = {}" "chunk md \<inter> (H \<union> {p..<p + sz}) = {}" "H \<union> {p..<p + sz} \<subseteq> owned (os s')" "chunk md \<subseteq> owned (os s')"
      using f(4,5) i(2-4) by blast+
    then show ?thesis using f i(5) Some x by (simp add: md_inv_def)
  qed
qed

lemmas span_pool = sizeof_Span_def kAllocIncrement_def

lemma world_sys_alloc:
  assumes ok: "os_ok ops owned" and w: "world_ok ops owned L P w"
    and run: "SystemAlloc ops fl n kPageSize (pw_sys w) = Inr (r, s)"
  shows "case r of None \<Rightarrow> world_ok ops owned L P (w\<lparr>pw_sys := s\<rparr>)
    | Some (p, sz) \<Rightarrow> 2 ^ kPageShift \<le> p \<and> n \<le> sz \<and> page_range p sz \<inter> P = {} \<and> world_ok ops owned L (P \<union> page_range p sz) (w\<lparr>pw_sys := s\<rparr>)"
proof -
  note src = MetaDataAlloc_source[OF ok, of fl]
  note pinv = chunk_source.pha_inv_def[OF src] and pinvI = chunk_source.pha_invI[OF src]
  obtain H fr own where H: "pbytes P \<subseteq> H" and i: "finite L" "inuse (pw_spans w) = int (card L)"
    "sll (pw_span_store w) (free_list (pw_spans w)) fr" "pool sizeof_Span own fr L (pw_spans w)" "own \<inter> H = {}"
    "md_inv ops owned (H \<union> own) (pw_meta w, pw_sys w)" using w by (auto simp: world_ok_def pinv)
  have "kPageSize = 2 ^ kPageShift" by (simp add: kPageSize_def)
  note M = md_inv_system[OF ok i(6) run[unfolded this]]
  show ?thesis
  proof (cases r)
    case None
    then show ?thesis using M H i pinvI[OF i(1-5)] w by (auto simp: world_ok_def)
  next
    case (Some x)
    obtain p sz where x: "x = (p, sz)" by fastforce
    let ?B = "{p..<p + sz}"
    have f: "0 < p" "2 ^ kPageShift dvd p" "n \<le> sz" "?B \<inter> (H \<union> own) = {}" "md_inv ops owned (H \<union> own \<union> ?B) (pw_meta w, s)"
      "p + sz \<le> 2 ^ kAddressBits" using M Some x by auto
    have b: "P \<union> page_range p sz \<subseteq> {..<2 ^ 35}"
    proof -
      have "q < 2 ^ 35" if "q \<in> page_range p sz" for q
        using page_range_bytes(2)[OF f(2) that] f(6) by (simp add: kAddressBits_def kPageShift_def)
      then show ?thesis using w by (auto simp: world_ok_def)
    qed
    have "q \<notin> P" if "q \<in> page_range p sz" for q
    proof
      assume "q \<in> P"
      then have "q * 2 ^ kPageShift \<in> H" using H by (auto simp: pbytes_def)
      then show False using page_range_bytes(2)[OF f(2) that] f(4) by blast
    qed
    then have d: "page_range p sz \<inter> P = {}" by blast
    have "pbytes (P \<union> page_range p sz) \<subseteq> H \<union> ?B" using H page_range_bytes(1)[OF f(2), of sz] by (auto simp: pbytes_def)
    moreover have "own \<inter> (H \<union> ?B) = {}" using f(4) i(5) by blast
    moreover have "md_inv ops owned (H \<union> ?B \<union> own) (pw_meta w, s)" using f(5) by (simp add: Un_ac)
    ultimately have "world_ok ops owned L (P \<union> page_range p sz) (w\<lparr>pw_sys := s\<rparr>)"
      unfolding world_ok_def by (intro conjI b exI[of _ "H \<union> ?B"]) (use pinvI[OF i(1-4)] in simp_all)
    moreover have "2 ^ kPageShift \<le> p" using f(1,2) by (simp add: dvd_imp_le)
    ultimately show ?thesis using Some x f(3) d by simp
  qed
qed

lemma world_meta:
  assumes ok: "os_ok ops owned" and w: "world_ok ops owned L P w"
    and run: "MetaDataAlloc ops fl n (pw_meta w, pw_sys w) = Inr (a, md, s)"
  shows "world_ok ops owned L P (w\<lparr>pw_meta := md, pw_sys := s\<rparr>)"
proof -
  note src = MetaDataAlloc_source[OF ok, of fl]
  obtain H where H: "pbytes P \<subseteq> H"
    "chunk_source.pha_inv (md_inv ops owned) sizeof_Span H L (pw_spans w, pw_span_store w, pw_meta w, pw_sys w)"
    using w by (auto simp: world_ok_def)
  obtain H' where "H \<subseteq> H'" "chunk_source.pha_inv (md_inv ops owned) sizeof_Span H' L (pw_spans w, pw_span_store w, md, s)"
    by (rule chunk_source.pha_inv_other[OF src H(2) run])
  then show ?thesis using H(1) w unfolding world_ok_def by (intro conjI exI[of _ H']) auto
qed

lemma world_cong:
  "world_ok ops owned L P w \<Longrightarrow> pw_spans w' = pw_spans w \<Longrightarrow> pw_span_store w' = pw_span_store w \<Longrightarrow> pw_meta w' = pw_meta w \<Longrightarrow>
     pw_sys w' = pw_sys w \<Longrightarrow> world_ok ops owned L P w'"
  by (simp add: world_ok_def)

lemma world_span_new:
  assumes ok: "os_ok ops owned" and w: "world_ok ops owned L P w" and run: "span_new_w ops fl w = Inr (i, w')"
  shows "i \<noteq> 0 \<and> i \<notin> L \<and> world_ok ops owned (insert i L) P w'"
proof -
  note src = MetaDataAlloc_source[OF ok, of fl]
  obtain H where H: "pbytes P \<subseteq> H"
    "chunk_source.pha_inv (md_inv ops owned) sizeof_Span H L (pw_spans w, pw_span_store w, pw_meta w, pw_sys w)"
    using w by (auto simp: world_ok_def)
  obtain p st md s where r: "pha_New (MetaDataAlloc ops fl) sizeof_Span (pw_spans w, pw_span_store w, pw_meta w, pw_sys w) = Inr (i, p, st, md, s)"
    "w' = w\<lparr>pw_spans := p, pw_span_store := st, pw_meta := md, pw_sys := s\<rparr>"
    using run by (auto simp: span_new_w_def bindR_eq_Inr)
  have sz: "0 < sizeof_Span" "sizeof_Span \<le> kAllocIncrement" by (simp_all add: span_pool)
  show ?thesis using chunk_source.New_inv[OF src H(2) r(1) sz] H(1) r(2) w by (auto simp: world_ok_def)
qed

lemma world_span_delete:
  assumes ok: "os_ok ops owned" and w: "world_ok ops owned L P w" and i: "i \<in> L"
  shows "\<exists>w'. span_delete_w i w = Inr w' \<and> world_ok ops owned (L - {i}) P w' \<and> pw_sys w' = pw_sys w"
proof -
  note src = MetaDataAlloc_source[OF ok]
  obtain H where H: "pbytes P \<subseteq> H"
    "chunk_source.pha_inv (md_inv ops owned) sizeof_Span H L (pw_spans w, pw_span_store w, pw_meta w, pw_sys w)"
    using w by (auto simp: world_ok_def)
  obtain q where q: "pha_Delete i (pw_spans w, pw_span_store w, pw_meta w, pw_sys w) = Inr q"
    "chunk_source.pha_inv (md_inv ops owned) sizeof_Span H (L - {i}) q"
    using chunk_source.Delete_inv[OF src H(2) i] by (auto simp: sizeof_Span_def)
  obtain p st md s where qq: "q = (p, st, md, s)" by (metis prod_cases4)
  have "s = pw_sys w" using q(1) qq by (auto simp: pha_Delete_def bindR_eq_Inr)
  then show ?thesis using q qq H(1) w by (auto simp: span_delete_w_def world_ok_def)
qed

lemma world_record_growth:
  assumes ok: "os_ok ops owned" and w: "world_ok ops owned L P w" and run: "RecordGrowth ops fl n w = Inr w'"
  shows "world_ok ops owned L P w'"
proof -
  obtain t p st md s where r: "pha_New (MetaDataAlloc ops fl) sizeof_StackTrace (pw_traces w, pw_trace_store w, pw_meta w, pw_sys w) = Inr (t, p, st, md, s)"
    "w' = w\<lparr>pw_traces := p, pw_trace_store := st, pw_meta := md, pw_sys := s,
              pw_trace := (pw_trace w)(t := (n, growth_stacks w)), growth_stacks := t\<rparr>"
    using run by (auto simp: RecordGrowth_def bindR_eq_Inr)
  have "world_ok ops owned L P (w\<lparr>pw_meta := md, pw_sys := s\<rparr>)"
    using pha_New_source[OF r(1)] world_meta[OF ok w, of fl] world_cong[OF w] by auto
  then show ?thesis by (rule world_cong) (simp_all add: r(2))
qed

lemma world_map_alloc:
  assumes "os_ok ops owned" and "world_ok ops owned L P w"
  shows "outcome (snd (map_alloc_w ops fl n (Inr w))) (world_ok ops owned L P)"
proof (cases "MetaDataAlloc ops fl n (pw_meta w, pw_sys w)")
  case (Inl x)
  then show ?thesis using MetaDataAlloc_crash[OF Inl] by (simp add: map_alloc_w_def)
next
  case (Inr y)
  obtain a md s where "y = (a, md, s)" by (metis prod_cases3)
  then show ?thesis using world_meta[OF assms] Inr by (simp add: map_alloc_w_def)
qed

lemma heap_env_simps [simp]:
  "sys_alloc (heap_env ops fl) = sys_alloc_w ops fl" "sys_release (heap_env ops fl) = sys_release_w ops fl"
  "sys_taken (heap_env ops fl) w = TCMalloc_SystemTaken (pw_sys w)" "span_new (heap_env ops fl) = span_new_w ops fl"
  "span_delete (heap_env ops fl) = span_delete_w" "record_growth (heap_env ops fl) = RecordGrowth ops fl"
  "map_alloc (heap_env ops fl) = map_alloc_w ops fl"
  by (simp_all add: heap_env_def)

lemma world_release:
  assumes ok: "os_ok ops owned" and w: "world_ok ops owned L P w" and r: "sys_release_w ops fl a n w = (b, w')"
  shows "world_ok ops owned L P w' \<and> TCMalloc_SystemTaken (pw_sys w') = TCMalloc_SystemTaken (pw_sys w)"
proof -
  note pinv = chunk_source.pha_inv_def[OF MetaDataAlloc_source[OF ok]] and pinvI = chunk_source.pha_invI[OF MetaDataAlloc_source[OF ok]]
  obtain s where s: "SystemRelease ops fl a n (pw_sys w) = (b, s)" "w' = w\<lparr>pw_sys := s\<rparr>"
    using r by (auto simp: sys_release_w_def split: prod.splits)
  obtain H fr own where H: "pbytes P \<subseteq> H" and i: "finite L" "inuse (pw_spans w) = int (card L)"
    "sll (pw_span_store w) (free_list (pw_spans w)) fr" "pool sizeof_Span own fr L (pw_spans w)" "own \<inter> H = {}"
    "md_inv ops owned (H \<union> own) (pw_meta w, pw_sys w)" using w by (auto simp: world_ok_def pinv)
  note k = SystemRelease_keeps[OF ok s(1) i(6)]
  have "chunk_source.pha_inv (md_inv ops owned) sizeof_Span H L (pw_spans w, pw_span_store w, pw_meta w, s)"
    by (rule pinvI[OF i(1-5)]) (use k in simp)
  then have "world_ok ops owned L P w'" using H s(2) w unfolding world_ok_def by auto
  then show ?thesis using k s(2) by simp
qed

lemma heap_env_total:
  assumes ok: "os_ok ops owned"
  shows "page_env_total (heap_env ops fl) (world_ok ops owned)"
proof
  fix L P n x w p sz i a b and w' :: "'a pworld"
  assume w: "world_ok ops owned L P w"
  note W = world_sys_alloc[OF ok w, of fl n] world_span_new[OF ok w, of fl] world_map_alloc[OF ok w, of fl n]
  show "sys_alloc (heap_env ops fl) n w = Inr (None, w') \<Longrightarrow> world_ok ops owned L P w'"
    using W(1)[of None] by (auto simp: sys_alloc_w_def bindR_eq_Inr)
  show "sys_alloc (heap_env ops fl) n w = Inr (Some (p, sz), w') \<Longrightarrow>
      2 ^ kPageShift \<le> p \<and> n \<le> sz \<and> page_range p sz \<inter> P = {} \<and> world_ok ops owned L (P \<union> page_range p sz) w'"
    using W(1)[of "Some (p, sz)"] by (auto simp: sys_alloc_w_def bindR_eq_Inr)
  show "world_ok ops owned L P (snd (sys_release (heap_env ops fl) a n w)) \<and>
      sys_taken (heap_env ops fl) (snd (sys_release (heap_env ops fl) a n w)) = sys_taken (heap_env ops fl) w"
    using world_release[OF ok w, of fl a n] by (metis heap_env_simps(2,3) prod.collapse)
  show "span_new (heap_env ops fl) w = Inr (i, w') \<Longrightarrow> i \<noteq> 0 \<and> i \<notin> L \<and> world_ok ops owned (insert i L) P w'" using W(2) by simp
  show "i \<in> L \<Longrightarrow> \<exists>w'. span_delete (heap_env ops fl) i w = Inr w' \<and> world_ok ops owned (L - {i}) P w' \<and>
      sys_taken (heap_env ops fl) w' = sys_taken (heap_env ops fl) w" using world_span_delete[OF ok w, of i] by auto
  show "record_growth (heap_env ops fl) n w = Inr w' \<Longrightarrow> world_ok ops owned L P w'" using world_record_growth[OF ok w] by simp
  show "map_alloc (heap_env ops fl) n (Inr w) = (b, Inr w') \<Longrightarrow> world_ok ops owned L P w'" using W(3) by simp
  show "P \<subseteq> {..<2 ^ 35}" using w by (simp add: world_ok_def)
  show "sys_alloc (heap_env ops fl) n w = Inl x \<Longrightarrow> x = Crash"
    by (auto simp: sys_alloc_w_def SystemAlloc_def Let_def bindR_def split: if_splits prod.splits option.splits sum.splits)
  show "span_new (heap_env ops fl) w = Inl x \<Longrightarrow> x = Crash"
    by (auto simp: span_new_w_def bindR_def split: sum.splits dest: pha_New_crash)
  show "record_growth (heap_env ops fl) n w = Inl x \<Longrightarrow> x = Crash"
    by (auto simp: RecordGrowth_def bindR_def split: sum.splits dest: pha_New_crash)
  show "map_alloc (heap_env ops fl) n (Inr w) = (b, Inl x) \<Longrightarrow> x = Crash" using W(3) by simp
next
  show "map_alloc (heap_env ops fl) n (Inl x) = (False, Inl x)" for n x by (simp add: map_alloc_w_def)
qed

interpretation heap_on_demo: page_env_total "heap_env demo_os fl" "world_ok demo_os demo_owned" for fl
  by (rule heap_env_total[OF demo_os_ok])

end
