(* ===== verification/PageHeap_Life.thy ===== *)
theory PageHeap_Life
  imports PageHeap_World
begin

section \<open>The page heap over its whole life\<close>

text \<open>
  Splitting a span, registering its size class and checking the lists; the reachable states of a page heap and its properties.
\<close>

text \<open>The states a page heap reaches.  The central free lists write the fields \<^verbatim>\<open>objects\<close> and \<^verbatim>\<open>refcount\<close> of the spans in use, the
  allocator the field \<^verbatim>\<open>sample\<close>.  \<open>ag\<close> tells whether the mode of aggressive decommit is ever switched on.\<close>

inductive heap_run :: "'w penv \<Rightarrow> pflags \<Rightarrow> bool \<Rightarrow> 'w \<Rightarrow> 'w pageheap \<Rightarrow> bool" for e fl ag w0 where
  start: "heap_run e fl ag w0 (new_PageHeap w0)"
| new: "heap_run e fl ag w0 h \<Longrightarrow> 0 < n \<Longrightarrow> card (dom (spans h)) + 1 < fuel \<Longrightarrow> New e fl fuel n h = Inr (i, h') \<Longrightarrow> heap_run e fl ag w0 h'"
| delete: "heap_run e fl ag w0 h \<Longrightarrow> (i, s) \<in> used h \<Longrightarrow> card (dom (spans h)) + 1 < fuel \<Longrightarrow> Delete e fl fuel i h = Inr h' \<Longrightarrow>
    heap_run e fl ag w0 h'"
| split: "heap_run e fl ag w0 h \<Longrightarrow> (i, s) \<in> used h \<Longrightarrow> 0 < n \<Longrightarrow> n < len s \<Longrightarrow> Split e i n h = Inr (j, h') \<Longrightarrow> heap_run e fl ag w0 h'"
| register: "heap_run e fl ag w0 h \<Longrightarrow> (i, s) \<in> used h \<Longrightarrow> RegisterSizeClass i sc h = Inr h' \<Longrightarrow> heap_run e fl ag w0 h'"
| release: "heap_run e fl ag w0 h \<Longrightarrow> card (dom (spans h)) + 1 < fuel \<Longrightarrow> ReleaseAtLeastNPages e fuel n h = Inr (r, h') \<Longrightarrow> heap_run e fl ag w0 h'"
| cache: "heap_run e fl ag w0 h \<Longrightarrow> heap_run e fl ag w0 (CacheSizeClass p cl h)"
| aggressive: "heap_run e fl ag w0 h \<Longrightarrow> ag \<Longrightarrow> heap_run e fl ag w0 (SetAggressiveDecommit b h)"
| user: "heap_run e fl ag w0 h \<Longrightarrow> (i, s) \<in> used h \<Longrightarrow> heap_run e fl ag w0 (put_span i (s\<lparr>objects := x, refcount := r, sample := b\<rparr>) h)"

lemma set_pages_node:
  assumes "\<forall>q. p \<le> q \<and> q < p + n \<longrightarrow> has_node h q"
  shows "\<exists>t. set_pages i p n h = Inr (h\<lparr>pagetree := t\<rparr>) \<and> has_node (h\<lparr>pagetree := t\<rparr>) = has_node h \<and>
    pagemap (h\<lparr>pagetree := t\<rparr>) = (\<lambda>q. if p \<le> q \<and> q < p + n then i else pagemap h q)"
  using assms
proof (induction n arbitrary: p h)
  case 0
  have "h = h\<lparr>pagetree := pagetree h\<rparr>" by simp
  then show ?case by (intro exI[of _ "pagetree h"]) (simp add: fun_eq_iff)
next
  case (Suc n)
  let ?h = "mark_page p i h"
  have p: "has_node h p" using Suc.prems by simp
  obtain t0 where t0: "?h = h\<lparr>pagetree := t0\<rparr>" using mark_page_tree by blast
  have "\<forall>q. p + 1 \<le> q \<and> q < p + 1 + n \<longrightarrow> has_node ?h q" using Suc.prems by simp
  then obtain t where t: "set_pages i (p + 1) n ?h = Inr (?h\<lparr>pagetree := t\<rparr>)" "has_node (?h\<lparr>pagetree := t\<rparr>) = has_node ?h"
    "pagemap (?h\<lparr>pagetree := t\<rparr>) = (\<lambda>q. if p + 1 \<le> q \<and> q < p + 1 + n then i else pagemap ?h q)" using Suc.IH by blast
  have hh: "?h\<lparr>pagetree := t\<rparr> = h\<lparr>pagetree := t\<rparr>" by (simp add: t0)
  have "set_pages i p (Suc n) h = Inr (h\<lparr>pagetree := t\<rparr>)" using t(1) p by (simp add: set_page_node hh)
  moreover have "has_node (h\<lparr>pagetree := t\<rparr>) = has_node h" using t(2) by (simp add: hh)
  moreover have "pagemap (h\<lparr>pagetree := t\<rparr>) = (\<lambda>q. if p \<le> q \<and> q < p + Suc n then i else pagemap h q)"
    using t(3) p by (auto simp: hh fun_eq_iff)
  ultimately show ?case by blast
qed

lemma spans_ok_pages:
  assumes ok: "spans_ok P h" and s: "spans h i = Some s" and sp: "spans h' = spans h" "has_node h' = has_node h"
    and pm: "\<And>q. pagemap h' q = pagemap h q \<or> q \<in> pg s \<and> pagemap h' q = i"
  shows "spans_ok P h'"
proof -
  have i0: "i \<noteq> 0" using spans_okD(1)[OF ok s] .
  have keep: "pagemap h' q = j" if t: "spans h j = Some t" "q \<in> pg t" "pagemap h q = j" for j t q
  proof (cases "j = i")
    case True
    then show ?thesis using pm[of q] t by auto
  next
    case False
    then have "q \<notin> pg s" using spans_ok_disj[OF ok t(1) s] t(2) by auto
    then show ?thesis using pm[of q] t(3) by auto
  qed
  have 1: "\<forall>j t. spans h' j = Some t \<longrightarrow> j \<noteq> 0 \<and> 0 < len t \<and> 0 < start t \<and> pg t \<subseteq> P \<and> (\<forall>p\<in>pg t. has_node h' p) \<and>
      pagemap h' (start t) = j \<and> pagemap h' (start t + len t - 1) = j"
    using spans_okD[OF ok] pg_ends keep sp by simp
  have 2: "\<forall>q. pagemap h' q \<noteq> 0 \<longrightarrow> (\<exists>j t. spans h' j = Some t \<and> q \<in> pg t)"
    using pm spans_ok_map[OF ok] s sp by metis
  show ?thesis using ok 1 2 sp unfolding spans_ok_def by simp
qed

context page_env_total
begin

lemma used_put:
  assumes "(i, s) \<in> used h" and "location s' = IN_USE"
  shows "used (put_span i s' h) = insert (i, s') (used h - {(i, s)})"
  using assms by (auto simp: used_def split: if_splits)

lemma inv_put_used:
  assumes "inv {} P h" and "(i, s) \<in> used h" and "start s' = start s" "len s' = len s" "location s' = IN_USE"
  shows "inv {} P (put_span i s' h)"
proof -
  have s: "spans h i = Some s" "location s = IN_USE" using assms(2) by (auto simp: used_def)
  have "inv {i} P (put_span i s' h)"
    by (rule inv_put[of i P h s]) (use assms s inv_in_use[OF s] in \<open>auto simp: clean_def\<close>)
  then show ?thesis using inv_in_use[of "put_span i s' h" i s' P] assms(5) by simp
qed

lemma RegisterSizeClass_ok:
  assumes i: "inv {} P h" and u: "(i, s) \<in> used h"
  obtains h' where "RegisterSizeClass i sc h = Inr h'" and "inv {} P h'"
    and "used h' = insert (i, s\<lparr>sizeclass := sc\<rparr>) (used h - {(i, s)})"
    and "\<forall>p\<in>pg s. pagemap h' p = i" and "\<forall>p. p \<notin> pg s \<longrightarrow> pagemap h' p = pagemap h p"
    and "bal h' = bal h" and "aggressive_decommit h' = aggressive_decommit h" and "pagemap_cache h' = pagemap_cache h"
proof -
  have s: "spans h i = Some s" "location s = IN_USE" using u by (auto simp: used_def)
  let ?s' = "s\<lparr>sizeclass := sc\<rparr>"
  let ?h1 = "put_span i ?s' h"
  note sb = spans_okD[OF invD(1)[OF i] s(1)]
  have "\<forall>q. start s + 1 \<le> q \<and> q < start s + 1 + (len s - 2) \<longrightarrow> has_node ?h1 q" using sb(7) by (auto simp: pg_def)
  then obtain tr where tr: "set_pages i (start s + 1) (len s - 2) ?h1 = Inr (?h1\<lparr>pagetree := tr\<rparr>)" "has_node (?h1\<lparr>pagetree := tr\<rparr>) = has_node ?h1"
    "pagemap (?h1\<lparr>pagetree := tr\<rparr>) = (\<lambda>q. if start s + 1 \<le> q \<and> q < start s + 1 + (len s - 2) then i else pagemap ?h1 q)"
    using set_pages_node by blast
  let ?h' = "?h1\<lparr>pagetree := tr\<rparr>"
  have r: "RegisterSizeClass i sc h = Inr ?h'" using s tr(1) by (simp add: RegisterSizeClass_def)
  have i1: "inv {} P ?h1" by (rule inv_put_used[OF i u]) (use s in simp_all)
  have "spans_ok P ?h'"
  proof (rule spans_ok_pages[OF invD(1)[OF i1], of i ?s'])
    fix q
    show "pagemap ?h' q = pagemap ?h1 q \<or> q \<in> pg ?s' \<and> pagemap ?h' q = i" by (auto simp: tr(3) pg_def)
  qed (use tr(2) in simp_all)
  moreover have "lists_ok {} ?h'" by (rule lists_ok_cong[OF invD(2)[OF i1]]) simp_all
  ultimately have i2: "inv {} P ?h'" using invD(3,5)[OF i1] by (simp add: inv_def clean_ok_def)
  have "used ?h' = used ?h1" by (simp add: used_def)
  then have us: "used ?h' = insert (i, ?s') (used h - {(i, s)})" using used_put[OF u, of ?s'] s(2) by simp
  have all: "pagemap ?h' p = i" if "p \<in> pg s" for p
  proof -
    have "p = start s \<or> p = start s + len s - 1 \<or> start s + 1 \<le> p \<and> p < start s + 1 + (len s - 2)" using that by (auto simp: pg_def)
    then show ?thesis using sb(5,6) by (auto simp: tr(3))
  qed
  have "pagemap ?h' p = pagemap h p" if "p \<notin> pg s" for p using that by (auto simp: tr(3) pg_def)
  then show thesis by (intro that[OF r i2 us]) (use all in auto)
qed

lemma Split_ok:
  assumes i: "inv {} P h" and u: "(i, s) \<in> used h" and n: "0 < n" "n < len s"
  shows "outcome (Split e i n h) (\<lambda>(j, h'). inv {} P h' \<and> j \<notin> dom (spans h) \<and>
    used h' = insert (j, NewSpan (start s + n) (len s - n)) (insert (i, s\<lparr>len := n\<rparr>) (used h - {(i, s)})) \<and>
    (\<forall>p. p \<notin> pg s \<longrightarrow> pagemap h' p = pagemap h p) \<and> bal h' = bal h \<and>
    aggressive_decommit h' = aggressive_decommit h \<and> pagemap_cache h' = pagemap_cache h)"
proof (cases "span_new e (world h)")
  case (Inl x)
  have s: "spans h i = Some s" using u by (auto simp: used_def)
  then show ?thesis using span_new_total[OF invD(3)[OF i] Inl] Inl by (simp add: Split_def alloc_span_def Let_def)
next
  case (Inr jw)
  obtain j w where j: "span_new e (world h) = Inr (j, w)" using Inr by (cases jw) auto
  have s: "spans h i = Some s" "location s = IN_USE" using u by (auto simp: used_def)
  have jw: "j \<noteq> 0" "j \<notin> dom (spans h)" "wok (insert j (dom (spans h))) P w" using span_new_ok[OF invD(3)[OF i] j] by auto
  let ?t = "NewSpan (start s + n) (len s - n)" and ?s' = "s\<lparr>len := n\<rparr>"
  let ?h1 = "put_span j ?t (h\<lparr>world := w\<rparr>)"
  have t: "start ?t = start s + n" "len ?t = len s - n" "location ?t = IN_USE" by (simp_all add: NewSpan_def)
  have nd: "has_node h p" if "start s \<le> p" "p < start s + len s" for p by (rule spans_ok_ends[OF invD(1)[OF i] s(1) that])
  have "has_node ?h1 (start ?t)" "has_node ?h1 (start ?t + len ?t - 1)" "0 < len ?t" "spans ?h1 j = Some ?t" using nd t n by simp_all
  then obtain tr where tr: "RecordSpan j ?h1 = Inr (?h1\<lparr>pagetree := tr\<rparr>)" "has_node (?h1\<lparr>pagetree := tr\<rparr>) = has_node ?h1"
    "pagemap (?h1\<lparr>pagetree := tr\<rparr>) = (pagemap ?h1)(start ?t := j, start ?t + len ?t - 1 := j)"
    using RecordSpan_node[of ?h1 j ?t] by metis
  let ?h2 = "?h1\<lparr>pagetree := tr\<rparr>"
  let ?h' = "put_span i ?s' (mark_page (start s + n - 1) i ?h2)"
  have np: "has_node ?h2 (start s + n - 1)" using nd[of "start s + n - 1"] n tr(2) by simp
  have r: "Split e i n h = Inr (j, ?h')" using s j tr(1) np by (simp add: Split_def alloc_span_def Let_def set_page_node)
  have sp: "spans ?h' = (spans h)(j \<mapsto> ?t, i \<mapsto> ?s')"
    "pagemap ?h' = (pagemap h)(start ?t := j, start ?t + len ?t - 1 := j, start s + n - 1 := i)" "has_node ?h' = has_node h"
    using np tr(2,3) by simp_all
  have so: "spans_ok P ?h'" by (rule spans_ok_cut[OF invD(1)[OF i] s(1) n _ jw(1) _ _ t(1,2) sp]) (use jw(2) in auto)
  have "lists_ok {i, j} h" by (rule lists_ok_D[OF invD(2)[OF i]]) (use s jw(2) in auto)
  then have "lists_ok {i, j} ?h'" by (rule lists_ok_cong) auto
  then have "lists_ok {} ?h'" by (rule lists_ok_D) (use s(2) t(3) in \<open>auto split: if_splits\<close>)
  moreover have "clean_ok ?h'" using invD(5)[OF i] s(2) t(3) by (auto simp: clean_ok_def clean_def)
  moreover have "dom (spans ?h') = insert j (dom (spans h))" using s(1) by auto
  ultimately have inv: "inv {} P ?h'" using so jw(3) by (simp add: inv_def)
  have us: "used ?h' = insert (j, ?t) (insert (i, ?s') (used h - {(i, s)}))"
    using s jw(2) t(3) by (auto simp: used_def split: if_splits)
  have "pagemap ?h' p = pagemap h p" if "p \<notin> pg s" for p
  proof -
    have "p \<noteq> start s + n" "p \<noteq> start s + n + (len s - n) - 1" "p \<noteq> start s + n - 1" using that n by (auto simp: pg_def)
    then show ?thesis using sp(2) t by simp
  qed
  then show ?thesis using r inv us jw(2) by simp
qed

lemma CheckList_ok:
  "spans_ok P h \<Longrightarrow> \<forall>i\<in>set is. \<exists>s. spans h i = Some s \<and> location s = loc \<and> a \<le> len s \<and> len s \<le> b \<Longrightarrow> CheckList h is a b loc = Inr ()"
proof (induction "is")
  case (Cons i "is")
  then obtain s where s: "spans h i = Some s" "location s = loc" "a \<le> len s" "len s \<le> b" by auto
  then show ?case using Cons spans_okD[OF Cons.prems(1) s(1)] by (simp add: GetDescriptor_eq)
qed simp

lemma check_lists_ok:
  assumes i: "inv {} P h" shows "s + n \<le> kMaxPages \<Longrightarrow> check_lists h s n = Inr ()"
proof (induction n arbitrary: s)
  case (Suc n)
  have len: "list_of x = s \<Longrightarrow> x = s" for x using Suc.prems by (auto simp: list_of_def split: if_splits)
  have "CheckList h (normal h s) s s ON_NORMAL_FREELIST = Inr ()" "CheckList h (returned h s) s s ON_RETURNED_FREELIST = Inr ()"
    using on_normal[OF i, of _ s] on_returned[OF i, of _ s] len by (metis CheckList_ok[OF invD(1)[OF i]] order_refl)+
  then show ?case using Suc by simp
qed simp

lemma CheckExpensive_ok:
  assumes i: "inv {} P h" and b: "\<forall>i s. spans h i = Some s \<longrightarrow> len s \<le> 1000000000"
  shows "CheckExpensive h = Inr True"
proof -
  have len: "list_of x = kMaxPages \<Longrightarrow> kMaxPages \<le> x" for x by (auto simp: list_of_def split: if_splits)
  have "CheckList h (normal h kMaxPages) kMaxPages 1000000000 ON_NORMAL_FREELIST = Inr ()"
    "CheckList h (returned h kMaxPages) kMaxPages 1000000000 ON_RETURNED_FREELIST = Inr ()"
    using on_normal[OF i, of _ kMaxPages] on_returned[OF i, of _ kMaxPages] len b by (metis CheckList_ok[OF invD(1)[OF i]])+
  moreover have "check_lists h 1 (kMaxPages - 1) = Inr ()" by (rule check_lists_ok[OF i]) (simp add: kMaxPages_def)
  ultimately show ?thesis by (simp add: CheckExpensive_def)
qed

lemma fuel_free:
  assumes "inv {} P h" and "card (dom (spans h)) + 1 < fuel" shows "card (free_spans h) + 1 < fuel"
proof -
  have "free_spans h \<subseteq> dom (spans h)" by (auto simp: at_loc_def)
  then have "card (free_spans h) \<le> card (dom (spans h))" by (rule card_mono[OF invD(4)[OF assms(1)]])
  then show ?thesis using assms(2) by simp
qed

lemma inv_fields:
  "inv D P h \<Longrightarrow> inv D P (CacheSizeClass p cl h)" "inv D P h \<Longrightarrow> inv D P (SetAggressiveDecommit b h)"
  using inv_frame[of D P h "CacheSizeClass p cl h"] inv_frame[of D P h "SetAggressiveDecommit b h"] invD(3)[of D P h]
  by (simp_all add: CacheSizeClass_def SetAggressiveDecommit_def flist_def lbytes_def fun_eq_iff split: location.splits)

lemma new_PageHeap_inv: "wok {} {} w \<Longrightarrow> inv {} {} (new_PageHeap w)"
  by (auto simp: inv_def spans_ok_def lists_ok_def clean_ok_def new_PageHeap_def at_loc_def total_def flist_def lbytes_def
      pagemap_def view3_def get3_def split: location.splits)

lemma heap_run_inv:
  assumes "heap_run e fl ag w0 h" and "wok {} {} w0"
  shows "(\<exists>P. inv {} P h) \<and> (\<not> ag \<longrightarrow> \<not> aggressive_decommit h \<and> bal h = 0)"
  using assms
proof (induction rule: heap_run.induct)
  case start
  then show ?case using new_PageHeap_inv[of w0] by (auto simp: new_PageHeap_def)
next
  case (new h n fuel i h')
  then obtain P where P: "inv {} P h" by blast
  have "new_post n P h (i, h')" using New_ok[OF P fuel_free[OF P new(3)] new(2), of fl] new(4) by simp
  then show ?case using new.IH[OF new.prems] by (auto simp: new_post_def allocated_def keeps_def split: if_splits)
next
  case (delete h i s fuel h')
  then obtain P where P: "inv {} P h" by blast
  obtain h1 where "Delete e fl fuel i h = Inr h1" "inv {} P h1" "aggressive_decommit h1 = aggressive_decommit h"
    "\<not> aggressive_decommit h \<Longrightarrow> bal h1 = bal h"
    by (rule Delete_ok[OF P delete(2) fuel_free[OF P delete(3)], of fl]) blast
  then show ?case using delete.IH[OF delete.prems] delete(4) by auto
next
  case (split h i s n j h')
  then obtain P where P: "inv {} P h" by blast
  show ?case using Split_ok[OF P split(2-4)] split.IH[OF split.prems] split(5) by auto
next
  case (register h i s sc h')
  then obtain P where P: "inv {} P h" by blast
  obtain h1 where "RegisterSizeClass i sc h = Inr h1" "inv {} P h1" "bal h1 = bal h" "aggressive_decommit h1 = aggressive_decommit h"
    by (rule RegisterSizeClass_ok[OF P register(2), of sc]) blast
  then show ?case using register.IH[OF register.prems] register(3) by auto
next
  case (release h fuel n r h')
  then obtain P where P: "inv {} P h" by blast
  have "card (free_spans h) < fuel" using fuel_free[OF P release(2)] by simp
  then have "inv {} P h'" "steps r h h'" using release_loop_ok[OF P, of fuel n 0] release(3) by (auto simp: ReleaseAtLeastNPages_def)
  then show ?case using release.IH[OF release.prems] by (auto simp: steps_def keeps_def)
next
  case (cache h p cl)
  then obtain P where "inv {} P h" by blast
  then have "inv {} P (CacheSizeClass p cl h)" by (rule inv_fields)
  moreover have "aggressive_decommit (CacheSizeClass p cl h) = aggressive_decommit h" "bal (CacheSizeClass p cl h) = bal h"
    by (simp_all add: CacheSizeClass_def)
  ultimately show ?case using cache.IH[OF cache.prems] by auto
next
  case (aggressive h b)
  then show ?case using inv_fields(2)[of "{}"] by blast
next
  case (user h i s b r x)
  then obtain P where P: "inv {} P h" by blast
  have "inv {} P (put_span i (s\<lparr>objects := x, refcount := r, sample := b\<rparr>) h)"
    by (rule inv_put_used[OF P user(2)]) (use user(2) in \<open>auto simp: used_def\<close>)
  then show ?case using user.IH[OF user.prems] by auto
qed

end

subsection \<open>The properties\<close>

text \<open>C9: in every state that a page heap reaches, on any system that keeps the laws of \<open>os_ok\<close>, the spans are disjoint, the page
  map has the nodes for all their pages, is right at the boundaries of every span and null outside of them, every free list holds exactly the free spans
  of its kind and length, \<^verbatim>\<open>free_bytes\<close> and \<^verbatim>\<open>unmapped_bytes\<close> are the sums over the lists, a free span has no size class,
  and unless aggressive decommit is used \<^verbatim>\<open>unmapped_bytes + committed_bytes == system_bytes\<close>.\<close>

theorem PageHeap_invariant:
  assumes "os_ok ops owned" and "world_ok ops owned {} {} w0" and "heap_run (heap_env ops sfl) fl ag w0 h"
  shows "(\<exists>P. spans_ok P h) \<and> lists_ok {} h \<and> clean_ok h \<and> (\<not> ag \<longrightarrow> unmapped_bytes h + committed_bytes h = system_bytes h)"
proof -
  note tot = heap_env_total[OF assms(1), of sfl]
  note pe = page_env_total.axioms(1)[OF tot]
  obtain P where P: "page_env.inv (world_ok ops owned) {} P h" and b: "\<not> ag \<longrightarrow> unmapped_bytes h + committed_bytes h - system_bytes h = 0"
    using page_env_total.heap_run_inv[OF tot assms(3,2)] by blast
  show ?thesis using page_env.invD(1,2,5)[OF pe P] b by auto
qed

text \<open>C5: \<^verbatim>\<open>New(n)\<close>, when it returns a span, returns one that was not in use, has exactly \<open>n\<close> pages, no size class, and shares no
  page with any span in use; the spans in use before it stay in use unchanged, and so do the page-map entries of all
  their pages.\<close>

theorem PageHeap_New_exclusive:
  assumes "os_ok ops owned" and "world_ok ops owned {} {} w0" and "heap_run (heap_env ops sfl) fl ag w0 h"
    and "0 < n" and "card (dom (spans h)) + 1 < fuel" and "New (heap_env ops sfl) fl fuel n h = Inr (i, h')" and "i \<noteq> 0"
  shows "\<exists>s. spans h' i = Some s \<and> location s = IN_USE \<and> len s = n \<and> sizeclass s = 0 \<and>
    (\<forall>j t. spans h j = Some t \<and> location t = IN_USE \<longrightarrow> j \<noteq> i \<and> pg s \<inter> pg t = {} \<and> spans h' j = Some t \<and>
      (\<forall>p\<in>pg t. pagemap h' p = pagemap h p))"
proof -
  note tot = heap_env_total[OF assms(1), of sfl]
  note pe = page_env_total.axioms(1)[OF tot]
  obtain P where P: "page_env.inv (world_ok ops owned) {} P h" using page_env_total.heap_run_inv[OF tot assms(3,2)] by blast
  have "page_env_total.new_post (world_ok ops owned) n P h (i, h')"
    using page_env_total.New_ok[OF tot P page_env_total.fuel_free[OF tot P assms(5)] assms(4), of fl] assms(6) by simp
  then obtain P' where P': "page_env.inv (world_ok ops owned) {} P' h'" and a: "allocated n h i h'"
    by (auto simp: page_env_total.new_post_def[OF tot])
  obtain s where s: "len s = n" "sizeclass s = 0" "i \<notin> fst ` used h" "used h' = insert (i, s) (used h)"
    and pm: "\<forall>j t p. (j, t) \<in> used h \<longrightarrow> p \<in> pg t \<longrightarrow> pagemap h' p = pagemap h p" using a assms(7) by (auto simp: allocated_def)
  have si: "spans h' i = Some s" "location s = IN_USE" using s(4) by (auto simp: used_def)
  have "j \<noteq> i \<and> pg s \<inter> pg t = {} \<and> spans h' j = Some t \<and> (\<forall>p\<in>pg t. pagemap h' p = pagemap h p)"
    if t: "spans h j = Some t" "location t = IN_USE" for j t
  proof -
    have u: "(j, t) \<in> used h" using t by (simp add: used_def)
    then have "spans h' j = Some t" "j \<noteq> i" using s(3,4) by (force simp: used_def)+
    then show ?thesis using spans_ok_disj[OF page_env.invD(1)[OF pe P'] si(1), of j t] pm u by auto
  qed
  then show ?thesis using si s(1,2) by blast
qed

text \<open>C30: with fuel above the number of spans \<^verbatim>\<open>New\<close> ends: it returns a span or null, or stops with the crash of an allocator of
  internal objects that gets no memory.  It never follows a bad span pointer, it never sets an entry of the page map whose
  node is missing, not even when \<^verbatim>\<open>Ensure\<close> gets no memory for the nodes, and its loops and retries end.\<close>

theorem PageHeap_New_returns:
  assumes "os_ok ops owned" and "world_ok ops owned {} {} w0" and "heap_run (heap_env ops sfl) fl ag w0 h"
    and "0 < n" and "card (dom (spans h)) + 1 < fuel"
  shows "(\<exists>i h'. New (heap_env ops sfl) fl fuel n h = Inr (i, h')) \<or> New (heap_env ops sfl) fl fuel n h = Inl Crash"
proof -
  note tot = heap_env_total[OF assms(1), of sfl]
  obtain P where P: "page_env.inv (world_ok ops owned) {} P h" using page_env_total.heap_run_inv[OF tot assms(3,2)] by blast
  show ?thesis
    using page_env_total.New_ok[OF tot P page_env_total.fuel_free[OF tot P assms(5)] assms(4), of fl]
    by (cases "New (heap_env ops sfl) fl fuel n h") auto
qed

text \<open>C8: \<^verbatim>\<open>Delete\<close> of a span in use returns; that span is no longer in use, every other span in use stays as it was with the
  page-map entries of its pages, and the heap keeps the pages: what \<^verbatim>\<open>system_bytes\<close> counts does not change.\<close>

theorem PageHeap_Delete_frees:
  assumes "os_ok ops owned" and "world_ok ops owned {} {} w0" and "heap_run (heap_env ops sfl) fl ag w0 h"
    and "spans h i = Some s" and "location s = IN_USE" and "card (dom (spans h)) + 1 < fuel"
  shows "\<exists>h'. Delete (heap_env ops sfl) fl fuel i h = Inr h' \<and> used h' = used h - {(i, s)} \<and> system_bytes h' = system_bytes h \<and>
    (\<forall>j t p. (j, t) \<in> used h' \<longrightarrow> p \<in> pg t \<longrightarrow> pagemap h' p = pagemap h p)"
proof -
  note tot = heap_env_total[OF assms(1), of sfl]
  obtain P where P: "page_env.inv (world_ok ops owned) {} P h" using page_env_total.heap_run_inv[OF tot assms(3,2)] by blast
  have u: "(i, s) \<in> used h" using assms(4,5) by (simp add: used_def)
  show ?thesis
    by (rule page_env_total.Delete_ok[OF tot P u page_env_total.fuel_free[OF tot P assms(6)], of fl]) blast
qed

text \<open>C31: \<^verbatim>\<open>ReleaseAtLeastNPages\<close> ends with fuel above the number of spans.  Outside aggressive decommit the number it returns is
  exactly the number of pages that left the normal free lists, \<^verbatim>\<open>unmapped_bytes\<close> grows by exactly these pages,
  \<^verbatim>\<open>committed_bytes\<close> falls by them, and no span in use is touched; and if the system never refuses a release it releases at least as many pages as asked for or leaves no normal
  free page.\<close>

theorem PageHeap_release:
  assumes "os_ok ops owned" and "world_ok ops owned {} {} w0" and "heap_run (heap_env ops sfl) fl ag w0 h"
    and "\<not> aggressive_decommit h" and "card (dom (spans h)) + 1 < fuel"
  shows "\<exists>r h'. ReleaseAtLeastNPages (heap_env ops sfl) fuel n h = Inr (r, h') \<and> used h' = used h \<and>
    free_bytes h' = free_bytes h - int r * 2 ^ kPageShift \<and> unmapped_bytes h' = unmapped_bytes h + int r * 2 ^ kPageShift \<and>
    committed_bytes h' = committed_bytes h - int r * 2 ^ kPageShift \<and>
    ((\<forall>L P p m w. world_ok ops owned L P w \<longrightarrow> 0 < m \<longrightarrow> fst (sys_release_w ops sfl (p * 2 ^ kPageShift) (m * 2 ^ kPageShift) w)) \<longrightarrow>
      n \<le> r \<or> free_bytes h' = 0)"
proof -
  note tot = heap_env_total[OF assms(1), of sfl]
  note pe = page_env_total.axioms(1)[OF tot]
  obtain P where P: "page_env.inv (world_ok ops owned) {} P h" using page_env_total.heap_run_inv[OF tot assms(3,2)] by blast
  have "card (at_loc ON_NORMAL_FREELIST {} h) < fuel" using page_env_total.fuel_free[OF tot P assms(5)] by simp
  then obtain r h' where r: "release_loop (heap_env ops sfl) fuel n 0 h = Inr (r, h')" "page_env.inv (world_ok ops owned) {} P h'"
    "page_env.steps (heap_env ops sfl) (r - 0) h h'" "page_env.release_works (heap_env ops sfl) (world_ok ops owned) \<longrightarrow> n \<le> r \<or> free_bytes h' \<le> 0"
    using page_env.release_loop_ok[OF pe P] by blast
  have "free_bytes h' = bytes (total ON_NORMAL_FREELIST {} h')"
    using page_env.invD(2)[OF pe r(2)] by (auto simp: lists_ok_def lbytes_def dest!: spec[of _ ON_NORMAL_FREELIST])
  then have "0 \<le> free_bytes h'" by simp
  then show ?thesis using r assms(4)
    by (auto simp: ReleaseAtLeastNPages_def page_env.steps_def[OF pe] keeps_def bytes_def page_env.release_works_def[OF pe])
qed

text \<open>C32: \<^verbatim>\<open>CheckExpensive\<close> never fails a check in a reachable state whose spans have at most \<open>10 ^ 9\<close> pages.\<close>

theorem PageHeap_CheckExpensive:
  assumes "os_ok ops owned" and "world_ok ops owned {} {} w0" and "heap_run (heap_env ops sfl) fl ag w0 h"
    and "\<forall>i s. spans h i = Some s \<longrightarrow> len s \<le> 1000000000"
  shows "CheckExpensive h = Inr True"
proof -
  note tot = heap_env_total[OF assms(1), of sfl]
  obtain P where P: "page_env.inv (world_ok ops owned) {} P h" using page_env_total.heap_run_inv[OF tot assms(3,2)] by blast
  show ?thesis by (rule page_env_total.CheckExpensive_ok[OF tot P assms(4)])
qed

text \<open>C33: in the mode of aggressive decommit, on a system that never refuses a release, releasing the last span of a normal list
  takes its \<open>n\<close> pages from \<^verbatim>\<open>committed_bytes\<close> twice: \<^verbatim>\<open>unmapped_bytes + committed_bytes\<close> falls by the \<open>n\<close> pages and no longer
  equals \<^verbatim>\<open>system_bytes\<close>.\<close>

theorem PageHeap_aggressive_release_miscounts:
  assumes "os_ok ops owned" and "world_ok ops owned {} {} w0" and "heap_run (heap_env ops sfl) fl True w0 h"
    and "\<forall>L P p m w. world_ok ops owned L P w \<longrightarrow> 0 < m \<longrightarrow> fst (sys_release_w ops sfl (p * 2 ^ kPageShift) (m * 2 ^ kPageShift) w)"
    and "aggressive_decommit h" and "normal h k \<noteq> []"
  shows "\<exists>n h'. ReleaseLastNormalSpan (heap_env ops sfl) k h = Inr (n, h') \<and> 0 < n \<and> system_bytes h' = system_bytes h \<and>
    unmapped_bytes h' + committed_bytes h' = unmapped_bytes h + committed_bytes h - int n * 2 ^ kPageShift"
proof -
  note tot = heap_env_total[OF assms(1), of sfl]
  note pe = page_env_total.axioms(1)[OF tot]
  obtain P where P: "page_env.inv (world_ok ops owned) {} P h" using page_env_total.heap_run_inv[OF tot assms(3,2)] by blast
  have rw: "page_env.release_works (heap_env ops sfl) (world_ok ops owned)" using assms(4) by (simp add: page_env.release_works_def[OF pe])
  show ?thesis
    by (rule page_env.ReleaseLastNormalSpan_ok[OF pe P assms(6)]) (use rw assms(5) in \<open>auto simp: bytes_def\<close>)
qed

subsection \<open>Witnesses\<close>

definition demo_pool :: pha where "demo_pool = \<lparr>free_area = 0, free_avail = 0, free_list = 0, inuse = 0\<rparr>"

definition demo_world :: "(nat \<times> nat set) pworld" where
  "demo_world = \<lparr>pw_spans = demo_pool, pw_span_store = (\<lambda>_. 0), pw_traces = demo_pool, pw_trace_store = (\<lambda>_. 0),
     pw_trace = (\<lambda>_. (0, 0)), growth_stacks = 0, pw_meta = demo_metastate, pw_sys = demo_system\<rparr>"

definition demo_pflags :: pflags where "demo_pflags = \<lparr>release_rate = 0, heap_limit_mb = 0\<rparr>"

abbreviation demo_env :: "(nat \<times> nat set) pworld penv" where "demo_env \<equiv> heap_env demo_os demo_flags"

lemma demo_world_ok: "world_ok demo_os demo_owned {} {} demo_world"
proof -
  note src = MetaDataAlloc_source[OF demo_os_ok, of demo_flags]
  have "md_inv demo_os demo_owned {} (demo_metastate, demo_system)"
    by (simp add: md_inv_def demo_sys_ok chunk_def demo_metastate_def)
  then have "chunk_source.pha_inv (md_inv demo_os demo_owned) sizeof_Span {} {} (demo_pool, \<lambda>_. 0, demo_metastate, demo_system)"
    by (intro chunk_source.pha_invI[OF src, where fl = "[]" and own = "{}"]) (auto simp: pool_def demo_pool_def)
  then show ?thesis by (auto simp: world_ok_def pbytes_def demo_world_def)
qed

lemma demo_System1:
  "\<exists>s. SystemAlloc demo_os demo_flags 1048576 kPageSize demo_system = Inr (Some (8192, 1048576), s) \<and>
     pagesize s = 4096 \<and> fst (os s) = 1056768 \<and> system_alloc_inited s \<and> failed s = [True, False] \<and>
     allocs s = [Some SbrkSysAllocator, Some MmapSysAllocator]"
  by (simp add: demo_run kPageSize_def kPageShift_def)

text \<open>A chunk of metadata with at least \<open>n\<close> bytes left.\<close>

definition demo_chunk :: "nat \<Rightarrow> metastate \<Rightarrow> bool" where
  "demo_chunk n md \<longleftrightarrow> kMemoryAligner dvd metadata_chunk_alloc md \<and> 0 < metadata_chunk_alloc md \<and>
     metadata_chunk_alloc md + metadata_chunk_avail md < 2 ^ 40 \<and> n \<le> metadata_chunk_avail md"

lemma demo_Meta1:
  assumes "pagesize s = 4096" "fst (os s) = 1056768" "system_alloc_inited s" "failed s = [True, False]"
    "allocs s = [Some SbrkSysAllocator, Some MmapSysAllocator]"
  shows "\<exists>md s'. MetaDataAlloc demo_os demo_flags 131072 (demo_metastate, s) = Inr (1060864, md, s') \<and> demo_chunk 1000000 md"
proof -
  have "\<exists>s'. SystemAlloc demo_os demo_flags 8388608 64 s = Inr (Some (1060864, 8388608), s')" using assms by (simp add: demo_run)
  then show ?thesis
    by (auto simp: MetaDataAlloc_def demo_metastate_def kMetadataAllocChunkSize_def kMemoryAligner_def demo_chunk_def dvd_eq_mod_eq_0)
qed

lemma demo_Meta2:
  assumes "demo_chunk (n + m) md" "kMemoryAligner dvd n" "n < 8000000"
  shows "\<exists>a md'. MetaDataAlloc demo_os demo_flags n (md, s) = Inr (a, md', s) \<and> a \<noteq> 0 \<and> demo_chunk m md'"
proof -
  let ?c = "metadata_chunk_alloc md"
  have k: "kMemoryAligner = 2 ^ 6" by (simp add: kMemoryAligner_def)
  have "2 ^ 6 dvd (2 ^ 64 - ?c)" using assms(1) unfolding demo_chunk_def k by (intro dvd_diff_nat le_imp_power_dvd) simp_all
  then have "(2 ^ 64 - ?c) AND (kMemoryAligner - 1) = 0" unfolding k and_pow2 by (simp add: dvd_eq_mod_eq_0)
  then show ?thesis using assms unfolding demo_chunk_def by (auto simp: MetaDataAlloc_def kMetadataAllocChunkSize_def Let_def)
qed

lemma demo_ensure:
  assumes "demo_chunk (32768 + (16384 + n)) (pw_meta w)"
  shows "\<exists>md. Ensure3 35 (map_alloc_w demo_os demo_flags) 0 (last_key 0 130) (\<lambda>_. None, Inr w) =
      (True, [0 \<mapsto> [0 \<mapsto> (\<lambda>_. 0)]], Inr (w\<lparr>pw_meta := md\<rparr>)) \<and> demo_chunk n md"
proof -
  obtain a md1 where a: "MetaDataAlloc demo_os demo_flags 32768 (pw_meta w, pw_sys w) = Inr (a, md1, pw_sys w)" "a \<noteq> 0" "demo_chunk (16384 + n) md1"
    using demo_Meta2[OF assms, of "pw_sys w"] by (auto simp: kMemoryAligner_def)
  obtain b md2 where b: "MetaDataAlloc demo_os demo_flags 16384 (md1, pw_sys w) = Inr (b, md2, pw_sys w)" "b \<noteq> 0" "demo_chunk n md2"
    using demo_Meta2[OF a(3), of "pw_sys w"] by (auto simp: kMemoryAligner_def)
  have bits: "INTERIOR_BITS 35 = 12" "LEAF_BITS3 35 = 11" by (simp_all add: INTERIOR_BITS_def LEAF_BITS3_def)
  have "last_key 0 130 = 129" by (simp add: last_key_def)
  then have "Ensure3 35 (map_alloc_w demo_os demo_flags) 0 (last_key 0 130) (\<lambda>_. None, Inr w) =
      (True, [0 \<mapsto> [0 \<mapsto> (\<lambda>_. 0)]], Inr (w\<lparr>pw_meta := md2\<rparr>))"
    using a b by (subst Ensure3.simps) (simp add: ensure_leaf_def NewNode_def map_alloc_w_def bits key3_1_def key3_2_def Ensure3.simps)
  then show ?thesis using b(3) by blast
qed

lemma demo_pool_New:
  assumes "MetaDataAlloc ops fl 131072 (md, s) = Inr (a, md', s')" and "a \<noteq> 0" and "0 < tsz" and "tsz < 1000"
  shows "\<exists>p'. pha_New (MetaDataAlloc ops fl) tsz (demo_pool, st, md, s) = Inr (a, p', st, md', s')"
  using assms by (simp add: pha_New_def demo_pool_def kAllocIncrement_def)

lemma demo_grow:
  "\<exists>w1 w2 w3 i w4. sys_alloc demo_env 1048576 demo_world = Inr (Some (8192, 1048576), w1) \<and> record_growth demo_env 1048576 w1 = Inr w2 \<and>
     Ensure3 35 (map_alloc demo_env) 0 (last_key 0 130) (\<lambda>_. None, Inr w2) = (True, [0 \<mapsto> [0 \<mapsto> (\<lambda>_. 0)]], Inr w3) \<and> span_new demo_env w3 = Inr (i, w4) \<and> i \<noteq> 0 \<and> pw_spans w3 = demo_pool"
proof -
  obtain s where s: "SystemAlloc demo_os demo_flags 1048576 kPageSize demo_system = Inr (Some (8192, 1048576), s)"
    "pagesize s = 4096" "fst (os s) = 1056768" "system_alloc_inited s" "failed s = [True, False]"
    "allocs s = [Some SbrkSysAllocator, Some MmapSysAllocator]" using demo_System1 by blast
  obtain md s' where m: "MetaDataAlloc demo_os demo_flags 131072 (demo_metastate, s) = Inr (1060864, md, s')" "demo_chunk 1000000 md"
    using demo_Meta1[OF s(2-6)] by blast
  obtain p1 where p1: "pha_New (MetaDataAlloc demo_os demo_flags) sizeof_StackTrace (demo_pool, \<lambda>_. 0, demo_metastate, s) = Inr (1060864, p1, \<lambda>_. 0, md, s')"
    using demo_pool_New[OF m(1), of sizeof_StackTrace] by (auto simp: sizeof_StackTrace_def)
  let ?w1 = "demo_world\<lparr>pw_sys := s\<rparr>"
  have 1: "sys_alloc demo_env 1048576 demo_world = Inr (Some (8192, 1048576), ?w1)" using s(1) by (simp add: sys_alloc_w_def demo_world_def)
  have 2: "\<exists>w2. record_growth demo_env 1048576 ?w1 = Inr w2 \<and> pw_spans w2 = demo_pool \<and> pw_span_store w2 = (\<lambda>_. 0) \<and>
      pw_meta w2 = md \<and> pw_sys w2 = s'" using p1 by (simp add: RecordGrowth_def demo_world_def)
  then obtain w2 where w2: "record_growth demo_env 1048576 ?w1 = Inr w2" "pw_spans w2 = demo_pool" "pw_span_store w2 = (\<lambda>_. 0)"
      "pw_meta w2 = md" "pw_sys w2 = s'" by blast
  have "demo_chunk (32768 + (16384 + (131072 + 0))) (pw_meta w2)" using m(2) w2(4) by (simp add: demo_chunk_def)
  then obtain md' where e: "Ensure3 35 (map_alloc_w demo_os demo_flags) 0 (last_key 0 130) (\<lambda>_. None, Inr w2) =
      (True, [0 \<mapsto> [0 \<mapsto> (\<lambda>_. 0)]], Inr (w2\<lparr>pw_meta := md'\<rparr>))" "demo_chunk (131072 + 0) md'" using demo_ensure by blast
  obtain a md'' where a: "MetaDataAlloc demo_os demo_flags 131072 (md', s') = Inr (a, md'', s')" "a \<noteq> 0"
    using demo_Meta2[OF e(2), of s'] by (auto simp: kMemoryAligner_def)
  obtain p2 where p2: "pha_New (MetaDataAlloc demo_os demo_flags) sizeof_Span (demo_pool, \<lambda>_. 0, md', s') = Inr (a, p2, \<lambda>_. 0, md'', s')"
    using demo_pool_New[OF a, of sizeof_Span] by (auto simp: sizeof_Span_def)
  let ?w3 = "w2\<lparr>pw_meta := md'\<rparr>"
  have 4: "\<exists>w4. span_new demo_env ?w3 = Inr (a, w4)" using p2 w2 by (simp add: span_new_w_def)
  have 5: "pw_spans ?w3 = demo_pool" using w2(2) by simp
  have 3: "Ensure3 35 (map_alloc demo_env) 0 (last_key 0 130) (\<lambda>_. None, Inr w2) = (True, [0 \<mapsto> [0 \<mapsto> (\<lambda>_. 0)]], Inr ?w3)"
    using e(1) by simp
  show ?thesis using 1 w2(1) 3 4 5 a(2) by blast
qed

lemmas demo_tree = set3_def view3_def get3_def key3_1_def key3_2_def key3_3_def INTERIOR_BITS_def LEAF_BITS3_def

lemma New_Delete_fresh:
  assumes "sys_alloc e 1048576 w0 = Inr (Some (8192, 1048576), w1)" "record_growth e 1048576 w1 = Inr w2"
    "Ensure3 35 (map_alloc e) 0 (last_key 0 130) (\<lambda>_. None, Inr w2) = (True, [0 \<mapsto> [0 \<mapsto> (\<lambda>_. 0)]], Inr w3)" "span_new e w3 = Inr (i, w4)" "i \<noteq> 0"
  shows "\<exists>h h'. New e demo_pflags 3 128 (new_PageHeap w0) = Inr (i, h) \<and> spans h = [i \<mapsto> NewSpan 1 128] \<and> \<not> aggressive_decommit h \<and>
     Delete e demo_pflags 3 i h = Inr h' \<and> dom (spans h') = {i} \<and> normal h' kMaxPages = [i] \<and> \<not> aggressive_decommit h'"
proof -
  have "(3::nat) = Suc (Suc (Suc 0))" by simp
  then show ?thesis using assms unfolding \<open>3 = Suc (Suc (Suc 0))\<close>
    by (simp add: New_def SearchFreeAndLargeLists_def kMaxPages_def new_PageHeap_def EnsureLimit_def demo_pflags_def GrowHeap_def
      kMinSystemAlloc_def kMaxValidPages_def kPageShift_def Let_def alloc_span_def RecordSpan_def get_span_def NewSpan_def
      set_page_def ensure_pages_def demo_tree wrap64_def put_span_def Delete_def MergeIntoFreeList_def merge_prev_def merge_next_def GetDescriptor_def
      PrependToFreeList_def list_of_def IncrementalScavenge_def Carve_def RemoveFromFreeList_def kDefaultReleaseDelay_def)
qed

lemma demo_heap:
  "\<exists>i h h'. i \<noteq> 0 \<and> New demo_env demo_pflags 3 128 (new_PageHeap demo_world) = Inr (i, h) \<and> spans h = [i \<mapsto> NewSpan 1 128] \<and>
     heap_run demo_env demo_pflags ag demo_world h \<and> heap_run demo_env demo_pflags ag demo_world h' \<and>
     dom (spans h') = {i} \<and> normal h' kMaxPages = [i] \<and> \<not> aggressive_decommit h'"
proof -
  obtain w1 w2 w3 i w4 where g: "sys_alloc demo_env 1048576 demo_world = Inr (Some (8192, 1048576), w1)" "record_growth demo_env 1048576 w1 = Inr w2"
     "Ensure3 35 (map_alloc demo_env) 0 (last_key 0 130) (\<lambda>_. None, Inr w2) = (True, [0 \<mapsto> [0 \<mapsto> (\<lambda>_. 0)]], Inr w3)" "span_new demo_env w3 = Inr (i, w4)" "i \<noteq> 0" using demo_grow by blast
  obtain h h' where h: "New demo_env demo_pflags 3 128 (new_PageHeap demo_world) = Inr (i, h)" "spans h = [i \<mapsto> NewSpan 1 128]"
    "Delete demo_env demo_pflags 3 i h = Inr h'" "dom (spans h') = {i}" "normal h' kMaxPages = [i]" "\<not> aggressive_decommit h'"
    using New_Delete_fresh[OF g] by blast
  have r: "heap_run demo_env demo_pflags ag demo_world h"
    by (rule heap_run.new[OF heap_run.start _ _ h(1)]) (simp_all add: new_PageHeap_def)
  have u: "(i, NewSpan 1 128) \<in> used h" using h(2) by (simp add: used_def NewSpan_def)
  have "heap_run demo_env demo_pflags ag demo_world h'" by (rule heap_run.delete[OF r u _ h(3)]) (simp add: h(2))
  then show ?thesis using h r g(5) by blast
qed

lemma demo_release:
  "\<forall>L P p m w. world_ok demo_os demo_owned L P w \<longrightarrow> 0 < m \<longrightarrow> fst (sys_release_w demo_os demo_flags (p * 2 ^ kPageShift) (m * 2 ^ kPageShift) w)"
proof (intro allI impI)
  fix L P p m w assume w: "world_ok demo_os demo_owned L P w" and m: "0 < (m::nat)"
  have "sys_ok demo_os (pw_sys w)"
    using w by (auto simp: world_ok_def chunk_source.pha_inv_def[OF MetaDataAlloc_source[OF demo_os_ok, of demo_flags]] md_inv_def)
  then have ps: "(if pagesize (pw_sys w) = 0 then os_pagesize demo_os else pagesize (pw_sys w)) = 4096"
    by (auto simp: sys_ok_def demo_os_def)
  have "(p * 8192 + 4096 - 1) div 4096 * 4096 = p * 8192" "(p * 8192 + m * 8192) div 4096 * 4096 = p * 8192 + m * 8192" for p :: nat
  proof -
    have "(p * 8192 + 4096 - 1) div 4096 = p * 2" by simp
    then show "(p * 8192 + 4096 - 1) div 4096 * 4096 = p * 8192" by simp
    have "p * 8192 + m * 8192 = (p * 2 + m * 2) * 4096" by simp
    then show "(p * 8192 + m * 8192) div 4096 * 4096 = p * 8192 + m * 8192" by (metis nonzero_mult_div_cancel_right zero_neq_numeral)
  qed
  then show "fst (sys_release_w demo_os demo_flags (p * 2 ^ kPageShift) (m * 2 ^ kPageShift) w)"
    using ps m by (auto simp: sys_release_w_def SystemRelease_def demo_flags_def Let_def demo_os_def kPageShift_def split: if_splits prod.splits)
qed

theorem PageHeap_invariant_witness:
  "\<exists>h i. heap_run demo_env demo_pflags False demo_world h \<and> normal h kMaxPages = [i] \<and> lists_ok {} h \<and>
     unmapped_bytes h + committed_bytes h = system_bytes h"
proof -
  obtain i h' where h: "heap_run demo_env demo_pflags False demo_world h'" "normal h' kMaxPages = [i]" using demo_heap[of False] by blast
  then show ?thesis using PageHeap_invariant[OF demo_os_ok demo_world_ok h(1)] by blast
qed

theorem PageHeap_New_exclusive_witness:
  "\<exists>i h s. New demo_env demo_pflags 3 128 (new_PageHeap demo_world) = Inr (i, h) \<and> spans h i = Some s \<and> location s = IN_USE \<and> len s = 128"
proof -
  obtain i h where h: "i \<noteq> 0" "New demo_env demo_pflags 3 128 (new_PageHeap demo_world) = Inr (i, h)" using demo_heap by blast
  have "card (dom (spans (new_PageHeap demo_world))) + 1 < 3" by (simp add: new_PageHeap_def)
  then show ?thesis using PageHeap_New_exclusive[OF demo_os_ok demo_world_ok heap_run.start _ _ h(2,1)] h(2) by fastforce
qed

theorem PageHeap_New_returns_witness:
  "\<exists>i h. New demo_env demo_pflags 3 128 (new_PageHeap demo_world) = Inr (i, h)"
proof -
  have "card (dom (spans (new_PageHeap demo_world))) + 1 < 3" by (simp add: new_PageHeap_def)
  moreover have "New demo_env demo_pflags 3 128 (new_PageHeap demo_world) \<noteq> Inl Crash" using demo_heap by auto
  ultimately show ?thesis
    using PageHeap_New_returns[OF demo_os_ok demo_world_ok heap_run.start, where n = 128 and fuel = 3 and fl = demo_pflags and sfl = demo_flags] by auto
qed

theorem PageHeap_Delete_frees_witness:
  "\<exists>i h h'. New demo_env demo_pflags 3 128 (new_PageHeap demo_world) = Inr (i, h) \<and> Delete demo_env demo_pflags 3 i h = Inr h' \<and>
     used h' = {}"
proof -
  obtain i h where h: "New demo_env demo_pflags 3 128 (new_PageHeap demo_world) = Inr (i, h)" "spans h = [i \<mapsto> NewSpan 1 128]"
    "heap_run demo_env demo_pflags False demo_world h" using demo_heap[of False] by blast
  have "spans h i = Some (NewSpan 1 128)" "location (NewSpan 1 128) = IN_USE" "card (dom (spans h)) + 1 < 3" "used h = {(i, NewSpan 1 128)}"
    using h(2) by (auto simp: NewSpan_def used_def split: if_splits)
  then show ?thesis using PageHeap_Delete_frees[OF demo_os_ok demo_world_ok h(3), of i "NewSpan 1 128" 3] h(1) by auto
qed

theorem PageHeap_release_witness:
  "\<exists>h r h'. heap_run demo_env demo_pflags False demo_world h \<and> ReleaseAtLeastNPages demo_env 3 5 h = Inr (r, h') \<and>
     (5 \<le> r \<or> free_bytes h' = 0) \<and> free_bytes h' = free_bytes h - int r * 2 ^ kPageShift"
proof -
  obtain i h where h: "heap_run demo_env demo_pflags False demo_world h" "dom (spans h) = {i}" "\<not> aggressive_decommit h"
    using demo_heap[of False] by blast
  show ?thesis using PageHeap_release[OF demo_os_ok demo_world_ok h(1,3), of 3 5] h demo_release by fastforce
qed

theorem PageHeap_CheckExpensive_witness:
  "\<exists>h i. heap_run demo_env demo_pflags False demo_world h \<and> spans h = [i \<mapsto> NewSpan 1 128] \<and> CheckExpensive h = Inr True"
proof -
  obtain i h where h: "heap_run demo_env demo_pflags False demo_world h" "spans h = [i \<mapsto> NewSpan 1 128]" using demo_heap[of False] by blast
  have "\<forall>j s. spans h j = Some s \<longrightarrow> len s \<le> 1000000000" using h(2) by (auto simp: NewSpan_def split: if_splits)
  then show ?thesis using PageHeap_CheckExpensive[OF demo_os_ok demo_world_ok h(1)] h by blast
qed

theorem PageHeap_aggressive_release_miscounts_witness:
  "\<exists>h n h'. heap_run demo_env demo_pflags True demo_world h \<and> ReleaseLastNormalSpan demo_env kMaxPages h = Inr (n, h') \<and> 0 < n \<and>
     unmapped_bytes h' + committed_bytes h' = unmapped_bytes h + committed_bytes h - int n * 2 ^ kPageShift"
proof -
  obtain i h where h: "heap_run demo_env demo_pflags True demo_world h" "normal h kMaxPages = [i]" using demo_heap[of True] by blast
  let ?h = "SetAggressiveDecommit True h"
  have r: "heap_run demo_env demo_pflags True demo_world ?h" by (rule heap_run.aggressive[OF h(1)]) simp
  have "aggressive_decommit ?h" "normal ?h kMaxPages \<noteq> []" using h(2) by (simp_all add: SetAggressiveDecommit_def)
  then show ?thesis using PageHeap_aggressive_release_miscounts[OF demo_os_ok demo_world_ok r demo_release] r by blast
qed

end
