(* ===== verification/MetaSpans.thy ===== *)
theory MetaSpans
  imports CentralFreeList PageHeap_Life
begin

section \<open>The metadata of spans\<close>

text \<open>
  Every span that holds objects has a second span for their metadata, and the entries of its pages in the metadata page table lead
  there.  The locale \<open>central_env\<close> extends the contract of the page heap's environment by what the central free lists need: the mode
  of compression, the size classes and the fuel.  Its lemmas show that \<open>attach_metadata\<close> and \<open>detach_metadata\<close> keep the pairing of
  spans.  The fuel \<open>2 ^ 48\<close> is above the number of spans and of objects that the address space has room for.
\<close>

text \<open>Any registration of entries changes only the entries of its own pages.\<close>

lemma set_metapagetable_entries_frame:
  assumes "pageTable m = Some t" and "isPageTableAlloced m" and "unat P mod 4096 = 0" and "unat P + n * 4096 \<le> 2 ^ 48"
  obtains t' where "set_metapagetable_entries c mm P (of_nat (n * 4096)) M a m = Inr (m\<lparr>pageTable := Some t'\<rparr>)"
    and "\<And>p. unat p < unat P div 4096 \<or> unat P div 4096 + n \<le> unat p \<Longrightarrow> t' p = t p"
proof -
  let ?page = "P div METALLOC_PAGESIZE"
  have n: "n * 4096 < 2 ^ 64" using assms(4) by simp
  have sz: "unat (of_nat (n * 4096) :: u64) = n * 4096" using unat_of_nat64[OF n] .
  have page: "unat ?page + unat (0::u64) + n \<le> 2 ^ 36" using assms(3,4) by simp
  have e: "set_metapagetable_entries c mm P (of_nat (n * 4096)) M a m = set_entries_loop c ?page M a 0 n m"
    using assms(2) sz unfolding set_metapagetable_entries_def word_unat_eq_iff unat_mod_page unat_div_page by simp
  obtain t' where t': "set_entries_loop c ?page M a 0 n m = Inr (m\<lparr>pageTable := Some t'\<rparr>)"
    "\<forall>p. t' p = (if unat ?page + unat (0::u64) \<le> unat p \<and> unat p < unat ?page + unat (0::u64) + n
       then entry_value c M a (p - ?page) else t p)"
    using set_entries_loop_eq[OF assms(1) page, of c M a] by blast
  show thesis by (rule that[OF e[unfolded t'(1)]]) (use t'(2) in auto)
qed

lemma meta_region_frame:
  assumes r: "meta_region c m P n M a" and "pageTable m = Some t" and "pageTable m' = Some t'"
    and f: "\<And>p. unat P div 4096 \<le> unat p \<Longrightarrow> unat p < unat P div 4096 + n \<Longrightarrow> t' p = t p"
  shows "meta_region c m' P n M a"
proof -
  have ok: "region_ok c P n M a" and e: "\<forall>i<n. t (P div METALLOC_PAGESIZE + of_nat i) = entry_value c M a (of_nat i)"
    using r assms(2) by (auto simp: meta_region_def)
  have "t' (P div METALLOC_PAGESIZE + of_nat i) = t (P div METALLOC_PAGESIZE + of_nat i)" if i: "i < n" for i
  proof -
    have b: "unat P + n * 4096 \<le> 2 ^ 48" using ok by (simp add: region_ok_def)
    then have "unat P div 4096 + i < 2 ^ 64" using i div_le_dividend[of "unat P" 4096] by simp
    moreover from this have "unat (of_nat i :: u64) = i" by (intro unat_of_nat64) linarith
    ultimately have "unat (P div METALLOC_PAGESIZE + of_nat i) = unat P div 4096 + i"
      using unat_add_small[of "P div METALLOC_PAGESIZE" "of_nat i"] unfolding unat_div_page by (simp only:)
    then show ?thesis using i by (intro f) linarith+
  qed
  then show ?thesis using ok e assms(3) by (auto simp: meta_region_def)
qed

lemma meta_region_entry:
  assumes r: "meta_region c m P n M a" and "0 < n" and "isPageTableAlloced m"
  obtains e where "get_metapagetable_entry c mm P m = Inr (e, m)" and "drop_bit 8 e = M"
proof -
  have ok: "region_ok c P n M a" using r by (simp add: meta_region_def)
  obtain t where t: "pageTable m = Some t" "t (P div METALLOC_PAGESIZE + of_nat 0) = entry_value c M a (of_nat 0)"
    using r assms(2) unfolding meta_region_def by blast
  have "unat P div 4096 < 2 ^ 36" using ok assms(2) by (auto simp: region_ok_def div_less_iff_less_mult)
  then have "pt_read m (P div METALLOC_PAGESIZE) = Inr (entry_value c M a (of_nat 0))"
    using t unfolding pt_read_def unat_div_page by simp
  moreover have "drop_bit 8 (entry_value c M a (of_nat 0)) = M" using region_entry(1)[OF ok assms(2)] by simp
  ultimately show thesis using that assms(3) by (auto simp: get_metapagetable_entry_def)
qed

text \<open>The pages of the user address space.\<close>

lemma span_word:
  assumes "p \<le> 2 ^ 35" shows "unat (of_nat (p * 2 ^ kPageShift) :: u64) = p * 8192"
proof -
  have "p * 8192 \<le> 2 ^ 35 * 8192" using assms by (rule mult_right_mono) simp
  then show ?thesis unfolding kPageShift_def by (subst unat_of_nat64) simp_all
qed

definition span_fits :: "span \<Rightarrow> bool" where "span_fits s \<longleftrightarrow> 0 < start s \<and> 0 < len s \<and> start s + len s \<le> 2 ^ 35"

lemma span_bytes_word: "(of_nat (len s * 2 ^ kPageShift) :: u64) = of_nat ((len s * 2) * 4096)"
  by (simp add: kPageShift_def)

lemma span_entries_frame:
  assumes "span_fits s" and "pageTable m = Some t" and "isPageTableAlloced m"
  obtains t' where "span_entries ce s M a m = Inr (m\<lparr>pageTable := Some t'\<rparr>)"
    and "\<And>p. unat p < start s * 2 \<or> (start s + len s) * 2 \<le> unat p \<Longrightarrow> t' p = t p"
proof -
  let ?P = "of_nat (start s * 2 ^ kPageShift) :: u64"
  have P: "unat ?P = start s * 8192" by (rule span_word) (use assms(1) in \<open>simp add: span_fits_def\<close>)
  have 1: "unat ?P mod 4096 = 0" "unat ?P div 4096 = start s * 2" unfolding P by simp_all
  have 2: "unat ?P + (len s * 2) * 4096 \<le> 2 ^ 48" using assms(1) unfolding P span_fits_def by simp
  obtain t' where t': "set_metapagetable_entries (c_config ce) (c_mmap ce) ?P (of_nat ((len s * 2) * 4096)) (of_nat M) (of_nat a) m = Inr (m\<lparr>pageTable := Some t'\<rparr>)"
    "\<And>p. unat p < unat ?P div 4096 \<or> unat ?P div 4096 + len s * 2 \<le> unat p \<Longrightarrow> t' p = t p"
    by (rule set_metapagetable_entries_frame[OF assms(2,3) 1(1) 2]) (rule that)
  have "span_entries ce s M a m = Inr (m\<lparr>pageTable := Some t'\<rparr>)" unfolding span_entries_def span_bytes_word by (rule t'(1))
  then show thesis by (rule that) (use t'(2)[unfolded 1(2)] in \<open>auto simp only: add_mult_distrib\<close>)
qed

text \<open>The span \<open>t\<close> holds the metadata of the span \<open>s\<close>: it is large enough, and the entries of all pages of \<open>s\<close> lead to it.\<close>

definition align_of :: "SizeMap \<Rightarrow> span \<Rightarrow> nat \<Rightarrow> bool" where
  "align_of sm s a \<longleftrightarrow> (if sizeclass s = 0 then a = kPageShift else AlignmentBitsForSize (class_to_size sm (sizeclass s)) = Inr a)"

definition covers :: "'w cenv \<Rightarrow> metalloc \<Rightarrow> span \<Rightarrow> span \<Rightarrow> nat \<Rightarrow> bool" where
  "covers ce m s t a \<longleftrightarrow> align_of (c_sizes ce) s a \<and>
     len s * 2 ^ kPageShift div 2 ^ a * unat (metadataBytes (c_config ce)) \<le> len t * 2 ^ kPageShift \<and>
     meta_region (c_config ce) m (of_nat (start s * 2 ^ kPageShift)) (len s * 2) (of_nat (start t * 2 ^ kPageShift)) (of_nat a)"

lemma align_of_le: "align_of sm s a \<Longrightarrow> a \<le> 13"
  using AlignmentBitsForSize_eq[of "class_to_size sm (sizeclass s)"] by (auto simp: align_of_def kPageShift_def split: if_splits)

lemma span_entries_covers:
  assumes s: "span_fits s" and t: "span_fits t" and a: "align_of (c_sizes ce) s a" and N: "unat (metadataBytes (c_config ce)) \<le> 64"
    and l: "(len s * unat (metadataBytes (c_config ce)) + (2 ^ a - 1)) div 2 ^ a = len t"
    and m: "pageTable m = Some tb" "isPageTableAlloced m"
  obtains t' where "span_entries ce s (start t * 2 ^ kPageShift) a m = Inr (m\<lparr>pageTable := Some t'\<rparr>)"
    and "\<And>p. unat p < start s * 2 \<or> (start s + len s) * 2 \<le> unat p \<Longrightarrow> t' p = tb p"
    and "covers ce (m\<lparr>pageTable := Some t'\<rparr>) s t a"
proof -
  let ?P = "of_nat (start s * 2 ^ kPageShift) :: u64" and ?M = "of_nat (start t * 2 ^ kPageShift) :: u64"
  let ?N = "unat (metadataBytes (c_config ce))"
  have a13: "a \<le> 13" using align_of_le[OF a] .
  have ua: "unat (of_nat a :: u32) = a" using a13 by (simp add: unat_of_nat)
  have P: "unat ?P = start s * 8192" by (rule span_word) (use s in \<open>simp add: span_fits_def\<close>)
  have M: "unat ?M = start t * 8192" by (rule span_word) (use t in \<open>simp add: span_fits_def\<close>)
  have ls: "start s * 8192 + len s * 2 * 4096 \<le> 2 ^ 48" using s by (simp add: span_fits_def)
  have ts: "start t * 8192 \<le> 2 ^ 48" using t by (simp add: span_fits_def)
  have "(len s * 2 * 4096 div 2 ^ a + 1) * ?N \<le> (2 ^ 48 + 1) * 64"
    by (rule mult_le_mono[OF _ N]) (use ls div_le_dividend[of "len s * 2 * 4096" "2 ^ a"] in linarith)
  then have "unat ?M + (len s * 2 * 4096 div 2 ^ a + 1) * ?N < 2 ^ 56" unfolding M using ts by simp
  moreover have "?M \<noteq> 0" using M t by (auto simp: span_fits_def)
  ultimately have ok: "region_ok (c_config ce) ?P (len s * 2) ?M (of_nat a)"
    unfolding region_ok_def ua P using ls a13 by auto
  obtain m' where m': "set_metapagetable_entries (c_config ce) (c_mmap ce) ?P (of_nat (len s * 2 * 4096)) ?M (of_nat a) m = Inr m'"
    "meta_region (c_config ce) m' ?P (len s * 2) ?M (of_nat a)"
    using set_metapagetable_entries_region[OF m ok] by blast
  obtain t' where t': "span_entries ce s (start t * 2 ^ kPageShift) a m = Inr (m\<lparr>pageTable := Some t'\<rparr>)"
    "\<And>p. unat p < start s * 2 \<or> (start s + len s) * 2 \<le> unat p \<Longrightarrow> t' p = tb p"
    by (rule span_entries_frame[OF s m]) (rule that)
  have "m' = m\<lparr>pageTable := Some t'\<rparr>" using m'(1) t'(1) unfolding span_entries_def span_bytes_word by simp
  moreover have "len s * 2 ^ kPageShift div 2 ^ a * ?N \<le> len t * 2 ^ kPageShift"
  proof -
    obtain b where b: "13 = a + b" using a13 le_Suc_ex by blast
    have z: "(2::nat) ^ kPageShift = 2 ^ a * 2 ^ b" unfolding kPageShift_def b by (rule power_add)
    have "len s * ?N \<le> len t * 2 ^ a"
      using l dividend_less_div_times[of "2 ^ a" "len s * ?N + (2 ^ a - 1)"] by (simp add: algebra_simps)
    then have "len s * ?N * 2 ^ b \<le> len t * 2 ^ a * 2 ^ b" by (rule mult_right_mono) simp
    then show ?thesis unfolding z by (simp add: algebra_simps)
  qed
  ultimately show thesis using that[OF t'] m'(2) a by (simp add: covers_def)
qed

lemma covers_frame:
  assumes "covers ce m s t a" and "start s' = start s" "len s' = len s" "sizeclass s' = sizeclass s" "start t' = start t" "len t' = len t"
    and "span_fits s" and "pageTable m = Some tb" and "pageTable m' = Some tb'"
    and "\<And>p. start s * 2 \<le> unat p \<Longrightarrow> unat p < (start s + len s) * 2 \<Longrightarrow> tb' p = tb p"
  shows "covers ce m' s' t' a"
proof -
  have P: "unat (of_nat (start s * 2 ^ kPageShift) :: u64) div 4096 = start s * 2"
    using span_word[of "start s"] assms(7) by (simp add: span_fits_def)
  have "meta_region (c_config ce) m' (of_nat (start s * 2 ^ kPageShift)) (len s * 2) (of_nat (start t * 2 ^ kPageShift)) (of_nat a)"
    by (rule meta_region_frame[OF _ assms(8,9)]) (use assms(1,10) P in \<open>auto simp: covers_def add_mult_distrib\<close>)
  then show ?thesis using assms(1-6) by (simp add: covers_def align_of_def)
qed

subsection \<open>Object spans and their metadata spans\<close>

text \<open>\<open>C\<close> maps every span that holds objects to the span of its metadata.  Each of these spans is in use and has one role; a span of
  small objects is found from each of its pages.\<close>

definition span_pair :: "'w cenv \<Rightarrow> 'w pageheap \<Rightarrow> metalloc \<Rightarrow> nat \<Rightarrow> nat \<Rightarrow> bool" where
  "span_pair ce h m i j \<longleftrightarrow> (\<exists>s t a. (i, s) \<in> used h \<and> (j, t) \<in> used h \<and> sizeclass t = 0 \<and> covers ce m s t a \<and>
     (sizeclass s \<noteq> 0 \<longrightarrow> (\<forall>p\<in>pg s. pagemap h p = i)))"

definition metas_ok :: "'w cenv \<Rightarrow> (nat \<rightharpoonup> nat) \<Rightarrow> 'w pageheap \<Rightarrow> metalloc \<Rightarrow> bool" where
  "metas_ok ce C h m \<longleftrightarrow> inj_on C (dom C) \<and> dom C \<inter> ran C = {} \<and> (\<forall>i j. C i = Some j \<longrightarrow> span_pair ce h m i j)"

definition same_span :: "span \<Rightarrow> span \<Rightarrow> bool" where
  "same_span s s' \<longleftrightarrow> start s' = start s \<and> len s' = len s \<and> sizeclass s' = sizeclass s"

lemma same_span_refl [simp]: "same_span s s" by (simp add: same_span_def)

lemma usedD: "(i, s) \<in> used h \<Longrightarrow> spans h i = Some s \<and> location s = IN_USE"
  by (simp add: used_def)

lemma used_fun: "(i, s) \<in> used h \<Longrightarrow> (i, t) \<in> used h \<Longrightarrow> t = s"
  by (simp add: used_def)

lemma metas_okD: "metas_ok ce C h m \<Longrightarrow> C i = Some j \<Longrightarrow> span_pair ce h m i j"
  by (simp add: metas_ok_def)

lemma span_pairE:
  assumes "span_pair ce h m i j"
  obtains s t a where "(i, s) \<in> used h" "(j, t) \<in> used h" "sizeclass t = 0" "covers ce m s t a"
    "sizeclass s \<noteq> 0 \<longrightarrow> (\<forall>p\<in>pg s. pagemap h p = i)"
  using assms unfolding span_pair_def by blast

lemma metas_frame:
  assumes ok: "metas_ok ce C h m" and tb: "pageTable m = Some tb" "pageTable m' = Some tb'"
    and fit: "\<And>i s. (i, s) \<in> used h \<Longrightarrow> span_fits s"
    and sp: "\<And>i s. (i, s) \<in> used h \<Longrightarrow> i \<in> dom C \<union> ran C \<Longrightarrow> \<exists>s'. (i, s') \<in> used h' \<and> same_span s s' \<and> (\<forall>p\<in>pg s. pagemap h' p = pagemap h p)"
    and en: "\<And>i s p. (i, s) \<in> used h \<Longrightarrow> i \<in> dom C \<Longrightarrow> start s * 2 \<le> unat p \<Longrightarrow> unat p < (start s + len s) * 2 \<Longrightarrow> tb' p = tb p"
  shows "metas_ok ce C h' m'"
proof -
  have "span_pair ce h' m' i j" if ij: "C i = Some j" for i j
  proof -
    obtain s t a where s: "(i, s) \<in> used h" "(j, t) \<in> used h" "sizeclass t = 0" "covers ce m s t a"
      "sizeclass s \<noteq> 0 \<longrightarrow> (\<forall>p\<in>pg s. pagemap h p = i)" by (rule span_pairE[OF metas_okD[OF ok ij]])
    have d: "i \<in> dom C" "j \<in> ran C" using ij by (auto simp: ran_def)
    obtain s' where s': "(i, s') \<in> used h'" "same_span s s'" "\<forall>p\<in>pg s. pagemap h' p = pagemap h p" using sp[OF s(1)] d by blast
    obtain t' where t': "(j, t') \<in> used h'" "same_span t t'" using sp[OF s(2)] d by blast
    have "covers ce m' s' t' a"
      by (rule covers_frame[OF s(4) _ _ _ _ _ fit[OF s(1)] tb]) (use s'(2) t'(2) en[OF s(1) d(1)] in \<open>auto simp: same_span_def\<close>)
    moreover have "pg s' = pg s" "sizeclass s' = sizeclass s" "sizeclass t' = sizeclass t" using s'(2) t'(2) by (simp_all add: same_span_def pg_def)
    ultimately show ?thesis using s'(1,3) t'(1) s(3,5) unfolding span_pair_def by metis
  qed
  then show ?thesis using ok by (simp add: metas_ok_def)
qed

lemma metas_sub: "metas_ok ce C h m \<Longrightarrow> metas_ok ce (C(i := None)) h m"
  by (auto simp: metas_ok_def inj_on_def ran_def dom_def)

lemma metas_add:
  assumes "metas_ok ce C h m" and "span_pair ce h m i j" and "i \<notin> dom C \<union> ran C" "j \<notin> dom C \<union> ran C" "i \<noteq> j"
  shows "metas_ok ce (C(i \<mapsto> j)) h m"
proof -
  have "inj_on (C(i \<mapsto> j)) (dom (C(i \<mapsto> j)))" using assms(1,3,4) by (auto simp: metas_ok_def inj_on_def dom_def ran_def)
  moreover have "dom (C(i \<mapsto> j)) \<inter> ran (C(i \<mapsto> j)) = {}" using assms(1,3-5) by (auto simp: metas_ok_def dom_def ran_def)
  ultimately show ?thesis using assms(1,2) by (simp add: metas_ok_def)
qed

definition class_ok :: "SizeMap \<Rightarrow> nat \<Rightarrow> bool" where
  "class_ok sm c \<longleftrightarrow> 8 \<le> class_to_size sm c \<and> (\<exists>a. AlignmentForSize (class_to_size sm c) = Inr a \<and> a dvd class_to_size sm c) \<and>
     0 < class_to_pages sm c \<and> class_to_size sm c \<le> class_to_pages sm c * 2 ^ kPageShift \<and>
     class_to_pages sm c * 2 ^ kPageShift div class_to_size sm c < 2 ^ 16 \<and> class_to_size sm c \<le> kMaxSize \<and>
     2 \<le> num_objects_to_move sm c \<and> num_objects_to_move sm c \<le> 8192"

locale central_env = page_env_total "c_env ce" wok for ce :: "'w cenv" and wok +
  assumes mode: "\<not> fixedCompression (c_config ce)"
    and meta_bytes: "0 < unat (metadataBytes (c_config ce))" "unat (metadataBytes (c_config ce)) \<le> 64"
    and fuel: "2 ^ 48 \<le> c_fuel ce"
    and sizes: "0 < c \<Longrightarrow> c < kNumClasses \<Longrightarrow> class_ok (c_sizes ce) c"
begin

definition hinv :: "(nat \<rightharpoonup> nat) \<Rightarrow> 'w pageheap \<Rightarrow> metalloc \<Rightarrow> bool" where
  "hinv C h m \<longleftrightarrow> (\<exists>P. inv {} P h) \<and> isPageTableAlloced m \<and> pageTable m \<noteq> None \<and> metas_ok ce C h m"

lemma used_fits: "inv {} P h \<Longrightarrow> (i, s) \<in> used h \<Longrightarrow> span_fits s"
proof -
  assume i: "inv {} P h" and u: "(i, s) \<in> used h"
  note sb = spans_okD[OF invD(1)[OF i] conjunct1[OF usedD[OF u]]]
  have "start s + len s - 1 \<in> pg s" using sb(2) by (simp add: pg_def)
  then have "start s + len s - 1 < 2 ^ 35" using sb(4) pages_bound[OF invD(3)[OF i]] by blast
  then show ?thesis using sb(2,3) by (simp add: span_fits_def)
qed

lemma few_spans: assumes i: "inv {} P h" shows "card (dom (spans h)) \<le> 2 ^ 35"
proof -
  have "card (dom (spans h)) \<le> card {..<2 ^ 35 :: nat}"
  proof (rule card_inj_on_le[of "\<lambda>i. start (the (spans h i))"])
    show "inj_on (\<lambda>i. start (the (spans h i))) (dom (spans h))"
    proof (rule inj_onI, clarsimp)
      fix x y s t assume e: "spans h x = Some s" "spans h y = Some t" "start s = start t"
      then have "start s \<in> pg s \<inter> pg t" using spans_okD[OF invD(1)[OF i]] by (simp add: pg_def)
      then show "x = y" using spans_ok_disj[OF invD(1)[OF i] e(1,2)] by auto
    qed
    show "(\<lambda>i. start (the (spans h i))) ` dom (spans h) \<subseteq> {..<2 ^ 35}"
    proof (rule image_subsetI)
      fix x assume "x \<in> dom (spans h)"
      then obtain s where e: "spans h x = Some s" by blast
      note sb = spans_okD[OF invD(1)[OF i] e]
      have "start s \<in> P" using sb(2,4) by (auto simp: pg_def)
      then show "start (the (spans h x)) \<in> {..<2 ^ 35}" using pages_bound[OF invD(3)[OF i]] e by auto
    qed
  qed simp
  then show ?thesis by simp
qed

lemma heap_fuel: assumes "inv {} P h" shows "card (free_spans h) + 1 < c_fuel ce"
proof (rule fuel_free[OF assms])
  show "card (dom (spans h)) + 1 < c_fuel ce" using few_spans[OF assms] fuel by simp
qed

lemma hinvE:
  assumes "hinv C h m"
  obtains P tb where "inv {} P h" "pageTable m = Some tb" "isPageTableAlloced m" "metas_ok ce C h m"
  using assms unfolding hinv_def by blast

lemma hinvI: "inv {} P h \<Longrightarrow> pageTable m = Some tb \<Longrightarrow> isPageTableAlloced m \<Longrightarrow> metas_ok ce C h m \<Longrightarrow> hinv C h m"
  unfolding hinv_def by blast

text \<open>The heap changes, the table does not.\<close>

lemma hinv_heap:
  assumes C: "hinv C h m" and "inv {} P h'"
    and sp: "\<And>i s. (i, s) \<in> used h \<Longrightarrow> i \<in> dom C \<union> ran C \<Longrightarrow> \<exists>s'. (i, s') \<in> used h' \<and> same_span s s' \<and> (\<forall>p\<in>pg s. pagemap h' p = pagemap h p)"
  shows "hinv C h' m"
proof -
  obtain P tb where P: "inv {} P h" "pageTable m = Some tb" "isPageTableAlloced m" "metas_ok ce C h m" by (rule hinvE[OF C])
  have "metas_ok ce C h' m" by (rule metas_frame[OF P(4,2,2) used_fits[OF P(1)] sp]) simp_all
  then show ?thesis using hinvI[OF assms(2) P(2,3)] by simp
qed

lemma keeps_span: "(\<forall>j t p. (j, t) \<in> used h \<longrightarrow> p \<in> pg t \<longrightarrow> pagemap h' p = pagemap h p) \<Longrightarrow> (i, s) \<in> used h \<Longrightarrow> (i, s) \<in> used h' \<Longrightarrow>
    \<exists>s'. (i, s') \<in> used h' \<and> same_span s s' \<and> (\<forall>p\<in>pg s. pagemap h' p = pagemap h p)"
  using same_span_refl by blast

lemma C_used: assumes "hinv C h m" "i \<in> dom C \<union> ran C" shows "i \<in> fst ` used h"
proof -
  obtain P tb where P: "metas_ok ce C h m" by (rule hinvE[OF assms(1)])
  from assms(2) consider j where "C i = Some j" | j where "C j = Some i" by (auto simp: ran_def)
  then show ?thesis by cases (use span_pairE[OF metas_okD[OF P]] in \<open>metis fst_conv image_eqI\<close>)+
qed

text \<open>The entries of one span change.\<close>

lemma other_entries:
  assumes P: "inv {} P h" and u: "(i, s) \<in> used h" and v: "(k, t) \<in> used h" "k \<noteq> i"
    and p: "start t * 2 \<le> unat p" "unat p < (start t + len t) * 2"
  shows "unat (p :: u64) < start s * 2 \<or> (start s + len s) * 2 \<le> unat p"
proof (rule ccontr)
  assume "\<not> ?thesis"
  then have "unat p div 2 \<in> pg s" "unat p div 2 \<in> pg t" using p by (auto simp: pg_def)
  then show False using spans_ok_disj[OF invD(1)[OF P] conjunct1[OF usedD[OF u]] conjunct1[OF usedD[OF v(1)]]] v(2) by blast
qed

lemma pair_ok:
  assumes C: "hinv C h m" and u: "(i, s) \<in> used h" and i: "i \<notin> dom C \<union> ran C" and a: "align_of (c_sizes ce) s a"
    and pm: "sizeclass s \<noteq> 0 \<Longrightarrow> \<forall>p\<in>pg s. pagemap h p = i"
    and v: "(j, t) \<in> used h" "j \<notin> dom C \<union> ran C" "j \<noteq> i" "sizeclass t = 0"
    and l: "len t = (len s * unat (metadataBytes (c_config ce)) + (2 ^ a - 1)) div 2 ^ a"
  obtains m' where "span_entries ce s (start t * 2 ^ kPageShift) a m = Inr m'" and "hinv (C(i \<mapsto> j)) h m'"
proof -
  obtain P tb where P: "inv {} P h" "pageTable m = Some tb" "isPageTableAlloced m" "metas_ok ce C h m" by (rule hinvE[OF C])
  obtain t' where t': "span_entries ce s (start t * 2 ^ kPageShift) a m = Inr (m\<lparr>pageTable := Some t'\<rparr>)"
    "\<And>p. unat p < start s * 2 \<or> (start s + len s) * 2 \<le> unat p \<Longrightarrow> t' p = tb p" "covers ce (m\<lparr>pageTable := Some t'\<rparr>) s t a"
    by (rule span_entries_covers[OF used_fits[OF P(1) u] used_fits[OF P(1) v(1)] a meta_bytes(2) l[symmetric] P(2,3)]) (rule that)
  have "metas_ok ce C h (m\<lparr>pageTable := Some t'\<rparr>)"
  proof (rule metas_frame[OF P(4,2) _ used_fits[OF P(1)]])
    show "pageTable (m\<lparr>pageTable := Some t'\<rparr>) = Some t'" by simp
    show "t' p = tb p" if "(k, r) \<in> used h" "k \<in> dom C" "start r * 2 \<le> unat p" "unat p < (start r + len r) * 2" for k r p
      by (rule t'(2)[OF other_entries[OF P(1) u that(1) _ that(3,4)]]) (use that(2) i in auto)
  qed (use same_span_refl in auto)
  moreover have "span_pair ce h (m\<lparr>pageTable := Some t'\<rparr>) i j" using u v(1,4) t'(3) pm unfolding span_pair_def by blast
  ultimately have "metas_ok ce (C(i \<mapsto> j)) h (m\<lparr>pageTable := Some t'\<rparr>)" by (rule metas_add) (use i v in auto)
  then show thesis using that[OF t'(1)] hinvI[OF P(1)] P(3) by simp
qed

lemma attach_ok:
  assumes C: "hinv C h m" and u: "(i, s) \<in> used h" and i: "i \<notin> dom C \<union> ran C" and a: "align_of (c_sizes ce) s a"
    and pm: "sizeclass s \<noteq> 0 \<Longrightarrow> \<forall>p\<in>pg s. pagemap h p = i"
  shows "outcome (attach_metadata ce a i (h, m)) (\<lambda>(r, h', m').
    (\<forall>j t p. (j, t) \<in> used h \<longrightarrow> (j, t) \<in> used h' \<longrightarrow> p \<in> pg t \<longrightarrow> pagemap h' p = pagemap h p) \<and> pagemap_cache h' = pagemap_cache h \<and>
    (if r = 0 then hinv C h' m' \<and> used h' = used h - {(i, s)}
     else r = i \<and> (\<exists>j t. hinv (C(i \<mapsto> j)) h' m' \<and> j \<notin> fst ` used h \<and> used h' = insert (j, t) (used h))))" (is "outcome _ ?Q")
proof -
  obtain P tb where P: "inv {} P h" "pageTable m = Some tb" "isPageTableAlloced m" "metas_ok ce C h m" by (rule hinvE[OF C])
  note sb = spans_okD[OF invD(1)[OF P(1)] conjunct1[OF usedD[OF u]]] and sf = used_fits[OF P(1) u]
  let ?n = "(len s * unat (metadataBytes (c_config ce)) + (2 ^ a - 1)) div 2 ^ a"
  have n: "0 < ?n"
  proof -
    have "1 \<le> len s * unat (metadataBytes (c_config ce))" using sb(2) meta_bytes(1) by simp
    then have "2 ^ a \<le> len s * unat (metadataBytes (c_config ce)) + (2 ^ a - 1)" by linarith
    then show ?thesis by (simp add: div_greater_zero_iff)
  qed
  show ?thesis
    unfolding attach_metadata_def prod.case get_span_def conjunct1[OF usedD[OF u]] of_opt_Some bindR_Inr Let_def
  proof (rule outcome_bind[OF New_ok[OF P(1) heap_fuel[OF P(1)] n]], clarify)
    fix j h1 assume "new_post ?n P h (j, h1)"
    then obtain P1 where P1: "inv {} P1 h1" and al: "allocated ?n h j h1" by (auto simp: new_post_def)
    show "outcome (if j \<noteq> 0 then bindR (of_opt Segv (spans h1 j)) (\<lambda>t. bindR (span_entries ce s (start t * 2 ^ kPageShift) a m) (\<lambda>m. Inr (i, h1, m)))
        else bindR (Delete (c_env ce) (c_flags ce) (c_fuel ce) i h1) (\<lambda>h. Inr (0, h, m))) ?Q"
    proof (cases "j = 0")
      case True
      then have k: "keeps h h1" using al by (simp add: allocated_def)
      then have u1: "(i, s) \<in> used h1" using u by (simp add: keeps_def)
      obtain h2 where h2: "Delete (c_env ce) (c_flags ce) (c_fuel ce) i h1 = Inr h2" "inv {} P1 h2" "used h2 = used h1 - {(i, s)}"
        "pagemap_cache h2 = pagemap_cache h1" "\<forall>j t p. (j, t) \<in> used h2 \<longrightarrow> p \<in> pg t \<longrightarrow> pagemap h2 p = pagemap h1 p"
        by (rule Delete_ok[OF P1 u1 heap_fuel[OF P1], of "c_flags ce"]) (rule that)
      have pm2: "\<forall>j t p. (j, t) \<in> used h \<longrightarrow> (j, t) \<in> used h2 \<longrightarrow> p \<in> pg t \<longrightarrow> pagemap h2 p = pagemap h p"
        using h2(5) k by (simp add: keeps_def)
      have "hinv C h2 m"
      proof (rule hinv_heap[OF C h2(2)])
        fix k r assume kr: "(k, r) \<in> used h" "k \<in> dom C \<union> ran C"
        then have "(k, r) \<in> used h2" using h2(3) \<open>keeps h h1\<close> i by (auto simp: keeps_def)
        then show "\<exists>s'. (k, s') \<in> used h2 \<and> same_span r s' \<and> (\<forall>p\<in>pg r. pagemap h2 p = pagemap h p)" using kr(1) pm2 same_span_refl by blast
      qed
      then show ?thesis using True h2(1,3,4) pm2 k by (simp add: keeps_def)
    next
      case False
      then obtain t where t: "len t = ?n" "sizeclass t = 0" "j \<notin> fst ` used h" "used h1 = insert (j, t) (used h)"
        and pm1: "\<forall>j t p. (j, t) \<in> used h \<longrightarrow> p \<in> pg t \<longrightarrow> pagemap h1 p = pagemap h p" and pc: "pagemap_cache h1 = pagemap_cache h"
        using al by (auto simp: allocated_def)
      have C1: "hinv C h1 m" by (rule hinv_heap[OF C P1]) (use pm1 t(4) same_span_refl in blast)
      have jC: "j \<notin> dom C \<union> ran C" using C_used[OF C] t(3) by blast
      have ji: "j \<noteq> i" using t(3) u by force
      obtain m' where m': "span_entries ce s (start t * 2 ^ kPageShift) a m = Inr m'" "hinv (C(i \<mapsto> j)) h1 m'"
        by (rule pair_ok[OF C1 _ i a _ _ jC ji t(2,1)]) (use u t(4) pm pm1 in auto)
      have "spans h1 j = Some t" using t(4) by (auto dest: usedD)
      then show ?thesis using False m' t(3,4) pm1 pc sb(1) by auto
    qed
  qed
qed

lemma hinv_put:
  assumes C: "hinv C h m" and u: "(i, s) \<in> used h" and s': "same_span s s'" "location s' = IN_USE"
  shows "hinv C (put_span i s' h) m"
proof -
  obtain P tb where P: "inv {} P h" by (rule hinvE[OF C])
  have "inv {} P (put_span i s' h)" by (rule inv_put_used[OF P u]) (use s' in \<open>auto simp: same_span_def\<close>)
  then show ?thesis
  proof (rule hinv_heap[OF C])
    fix k r assume kr: "(k, r) \<in> used h"
    show "\<exists>r'. (k, r') \<in> used (put_span i s' h) \<and> same_span r r' \<and> (\<forall>p\<in>pg r. pagemap (put_span i s' h) p = pagemap h p)"
    proof (cases "k = i")
      case True
      then have "r = s" using used_fun[OF u] kr by simp
      then show ?thesis using True used_put[OF u s'(2)] s'(1) by (intro exI[of _ s']) simp
    next
      case False
      then show ?thesis using kr used_put[OF u s'(2)] by (intro exI[of _ r]) simp
    qed
  qed
qed

lemma detach_ok:
  assumes C: "hinv C h m" and ij: "C i = Some j" and u: "(i, s) \<in> used h" and v: "(j, t) \<in> used h"
  obtains h' m' where "detach_metadata ce i (h, m) = Inr (h', m')" and "hinv (C(i := None)) h' m'" and "used h' = used h - {(j, t)}"
    and "pagemap_cache h' = pagemap_cache h" and "\<forall>k r p. (k, r) \<in> used h' \<longrightarrow> p \<in> pg r \<longrightarrow> pagemap h' p = pagemap h p"
proof -
  obtain P tb where P: "inv {} P h" "pageTable m = Some tb" "isPageTableAlloced m" "metas_ok ce C h m" by (rule hinvE[OF C])
  obtain s1 t1 a where st: "(i, s1) \<in> used h" "(j, t1) \<in> used h" "covers ce m s1 t1 a" by (rule span_pairE[OF metas_okD[OF P(4) ij]])
  have cov: "covers ce m s t a" using st used_fun[OF u] used_fun[OF v] by blast
  have fs: "span_fits s" "span_fits t" using used_fits[OF P(1)] u v by blast+
  obtain e where e: "get_metapagetable_entry (c_config ce) (c_mmap ce) (of_nat (start s * 2 ^ kPageShift)) m = Inr (e, m)"
    "drop_bit 8 e = of_nat (start t * 2 ^ kPageShift)"
    by (rule meta_region_entry[OF _ _ P(3)]) (use cov fs(1) in \<open>auto simp: covers_def span_fits_def\<close>)
  have "unat (drop_bit 8 e) div 2 ^ kPageShift = start t"
    unfolding e(2) using span_word[of "start t"] fs(2) by (simp add: span_fits_def kPageShift_def)
  then have mo: "MapObjectToSpan (unat (drop_bit 8 e)) h = j"
    using spans_okD(5)[OF invD(1)[OF P(1)] conjunct1[OF usedD[OF v]]] by (simp add: MapObjectToSpan_def GetDescriptor_eq)
  obtain t' where t': "span_entries ce s 0 0 m = Inr (m\<lparr>pageTable := Some t'\<rparr>)"
    "\<And>p. unat p < start s * 2 \<or> (start s + len s) * 2 \<le> unat p \<Longrightarrow> t' p = tb p"
    by (rule span_entries_frame[OF fs(1) P(2,3)]) (rule that)
  obtain h2 where h2: "Delete (c_env ce) (c_flags ce) (c_fuel ce) j h = Inr h2" "inv {} P h2" "used h2 = used h - {(j, t)}"
    "pagemap_cache h2 = pagemap_cache h" "\<forall>k r p. (k, r) \<in> used h2 \<longrightarrow> p \<in> pg r \<longrightarrow> pagemap h2 p = pagemap h p"
    by (rule Delete_ok[OF P(1) v heap_fuel[OF P(1)], of "c_flags ce"]) (rule that)
  have nj: "j \<notin> dom (C(i := None)) \<union> ran (C(i := None))"
  proof -
    have "j \<notin> dom C" using P(4) ij by (auto simp: metas_ok_def ran_def)
    moreover have "C k \<noteq> Some j" if "k \<noteq> i" for k
    proof
      assume k: "C k = Some j"
      have "inj_on C (dom C)" using P(4) by (simp add: metas_ok_def)
      then have "k = i" by (rule inj_onD) (use k ij in auto)
      then show False using that by simp
    qed
    ultimately show ?thesis by (auto simp: ran_def)
  qed
  have "metas_ok ce (C(i := None)) h2 (m\<lparr>pageTable := Some t'\<rparr>)"
  proof (rule metas_frame[OF metas_sub[OF P(4), of i] P(2) _ used_fits[OF P(1)]])
    show "pageTable (m\<lparr>pageTable := Some t'\<rparr>) = Some t'" by simp
    show "t' p = tb p" if "(k, r) \<in> used h" "k \<in> dom (C(i := None))" "start r * 2 \<le> unat p" "unat p < (start r + len r) * 2" for k r p
      by (rule t'(2)[OF other_entries[OF P(1) u that(1) _ that(3,4)]]) (use that(2) in auto)
    show "\<exists>s'. (k, s') \<in> used h2 \<and> same_span r s' \<and> (\<forall>p\<in>pg r. pagemap h2 p = pagemap h p)"
      if kr: "(k, r) \<in> used h" "k \<in> dom (C(i := None)) \<union> ran (C(i := None))" for k r
    proof -
      have "k \<noteq> j" using kr(2) nj by blast
      then have "(k, r) \<in> used h2" using kr(1) h2(3) by auto
      then show ?thesis using h2(5) same_span_refl by blast
    qed
  qed simp
  then have "hinv (C(i := None)) h2 (m\<lparr>pageTable := Some t'\<rparr>)" using hinvI[OF h2(2)] P(3) by simp
  moreover have "detach_metadata ce i (h, m) = Inr (h2, m\<lparr>pageTable := Some t'\<rparr>)"
    using e(1) mo t'(1) h2(1) conjunct1[OF usedD[OF u]] by (simp add: detach_metadata_def get_span_def)
  ultimately show thesis using that h2(3-5) by blast
qed

text \<open>Both spans go back.\<close>

lemma give_back:
  assumes C: "hinv C h m" and ij: "C i = Some j" and u: "(i, s) \<in> used h"
  obtains h1 m1 h2 t where "detach_metadata ce i (h, m) = Inr (h1, m1)" and "Delete (c_env ce) (c_flags ce) (c_fuel ce) i h1 = Inr h2"
    and "hinv (C(i := None)) h2 m1" and "(j, t) \<in> used h" and "used h2 = used h - {(i, s), (j, t)}" and "pagemap_cache h2 = pagemap_cache h"
    and "\<forall>k r p. (k, r) \<in> used h2 \<longrightarrow> p \<in> pg r \<longrightarrow> pagemap h2 p = pagemap h p"
proof -
  obtain P where P: "metas_ok ce C h m" by (rule hinvE[OF C])
  obtain t where v: "(j, t) \<in> used h" by (rule span_pairE[OF metas_okD[OF P ij]])
  have "i \<noteq> j" using P ij by (auto simp: metas_ok_def ran_def)
  obtain h1 m1 where d: "detach_metadata ce i (h, m) = Inr (h1, m1)" "hinv (C(i := None)) h1 m1" "used h1 = used h - {(j, t)}"
    "pagemap_cache h1 = pagemap_cache h" "\<forall>k r p. (k, r) \<in> used h1 \<longrightarrow> p \<in> pg r \<longrightarrow> pagemap h1 p = pagemap h p"
    by (rule detach_ok[OF C ij u v]) (rule that)
  obtain P1 where P1: "inv {} P1 h1" by (rule hinvE[OF d(2)])
  have u1: "(i, s) \<in> used h1" using u d(3) \<open>i \<noteq> j\<close> by simp
  obtain h2 where h2: "Delete (c_env ce) (c_flags ce) (c_fuel ce) i h1 = Inr h2" "inv {} P1 h2" "used h2 = used h1 - {(i, s)}"
    "pagemap_cache h2 = pagemap_cache h1" "\<forall>k r p. (k, r) \<in> used h2 \<longrightarrow> p \<in> pg r \<longrightarrow> pagemap h2 p = pagemap h1 p"
    by (rule Delete_ok[OF P1 u1 heap_fuel[OF P1], of "c_flags ce"]) (rule that)
  have "i \<notin> ran C" using P ij by (auto simp: metas_ok_def)
  then have iC: "i \<notin> dom (C(i := None)) \<union> ran (C(i := None))" by (auto simp: ran_def)
  have "hinv (C(i := None)) h2 m1"
  proof (rule hinv_heap[OF d(2) h2(2)])
    fix k r assume kr: "(k, r) \<in> used h1" "k \<in> dom (C(i := None)) \<union> ran (C(i := None))"
    then have "(k, r) \<in> used h2" using h2(3) iC by auto
    then show "\<exists>s'. (k, s') \<in> used h2 \<and> same_span r s' \<and> (\<forall>p\<in>pg r. pagemap h2 p = pagemap h1 p)" using h2(5) same_span_refl by blast
  qed
  moreover have "used h2 = used h - {(i, s), (j, t)}" using h2(3) d(3) by auto
  moreover have "\<forall>k r p. (k, r) \<in> used h2 \<longrightarrow> p \<in> pg r \<longrightarrow> pagemap h2 p = pagemap h p" using h2(3,5) d(5) by (metis DiffD1)
  ultimately show thesis using that[OF d(1) h2(1)] v h2(4) d(4) by simp
qed

end

end
