(* ===== verification/CentralFreeList_Inv.thy ===== *)
theory CentralFreeList_Inv
  imports MetaSpans
begin

section \<open>The objects of the central free lists\<close>

text \<open>
  The invariant of the central free lists.  \<open>A c\<close> is the set of objects of class \<open>c\<close> that are not on the free list of their span:
  those of the transfer cache and those the clients hold.  The objects of a span are disjoint, the free list of a span holds
  exactly the others, and the reference count, the two lists of spans and \<^verbatim>\<open>counter_\<close> agree with that.
\<close>

subsection \<open>The objects of a span\<close>

definition slots :: "SizeMap \<Rightarrow> span \<Rightarrow> nat set" where
  "slots sm s = (\<lambda>k. start s * 2 ^ kPageShift + k * class_to_size sm (sizeclass s)) `
     {..<len s * 2 ^ kPageShift div class_to_size sm (sizeclass s)}"

definition per_span :: "SizeMap \<Rightarrow> nat \<Rightarrow> nat" where
  "per_span sm c = class_to_pages sm c * 2 ^ kPageShift div class_to_size sm c"

lemma per_span_pos: "class_ok sm c \<Longrightarrow> 0 < per_span sm c"
  by (simp add: class_ok_def per_span_def div_greater_zero_iff)

lemma finite_slots [simp]: "finite (slots sm s)" by (simp add: slots_def)

lemma card_slots:
  assumes "0 < class_to_size sm (sizeclass s)" and "len s = class_to_pages sm (sizeclass s)"
  shows "card (slots sm s) = per_span sm (sizeclass s)"
  using assms by (simp add: slots_def per_span_def card_image inj_on_def)

lemma slot_end:
  assumes "x \<in> slots sm s"
  shows "start s * 2 ^ kPageShift \<le> x" and "x + class_to_size sm (sizeclass s) \<le> (start s + len s) * 2 ^ kPageShift"
proof -
  let ?z = "class_to_size sm (sizeclass s)" and ?B = "len s * 2 ^ kPageShift"
  obtain k where k: "x = start s * 2 ^ kPageShift + k * ?z" "k < ?B div ?z" using assms by (auto simp: slots_def)
  show "start s * 2 ^ kPageShift \<le> x" using k by simp
  have "(k + 1) * ?z \<le> ?B div ?z * ?z" using k(2) by (intro mult_right_mono) simp_all
  then have "(k + 1) * ?z \<le> ?B" using div_times_less_eq_dividend order_trans by blast
  then show "x + ?z \<le> (start s + len s) * 2 ^ kPageShift" using k(1) by (simp add: algebra_simps)
qed

lemma slot_page:
  assumes "x \<in> slots sm s" and "0 < class_to_size sm (sizeclass s)" shows "x div 2 ^ kPageShift \<in> pg s"
proof -
  have "start s \<le> x div 2 ^ kPageShift" using slot_end(1)[OF assms(1)] by (simp add: less_eq_div_iff_mult_less_eq)
  moreover have "x < (start s + len s) * 2 ^ kPageShift" using slot_end(2)[OF assms(1)] assms(2) by linarith
  then have "x div 2 ^ kPageShift < start s + len s" by (simp add: div_less_iff_less_mult)
  ultimately show ?thesis by (simp add: pg_def)
qed

lemma slot_nonnull: "x \<in> slots sm s \<Longrightarrow> 0 < start s \<Longrightarrow> x \<noteq> 0"
  using slot_end(1)[of x sm s] by (cases "x = 0") auto

text \<open>Two objects never share a byte.\<close>

lemma slot_disjoint:
  assumes "x \<in> slots sm s" "y \<in> slots sm s" "x \<noteq> y"
  shows "{x..<x + class_to_size sm (sizeclass s)} \<inter> {y..<y + class_to_size sm (sizeclass s)} = {}"
proof -
  let ?z = "class_to_size sm (sizeclass s)"
  obtain k l where kl: "x = start s * 2 ^ kPageShift + k * ?z" "y = start s * 2 ^ kPageShift + l * ?z" using assms(1,2) by (auto simp: slots_def)
  then have "k < l \<or> l < k" using assms(3) by auto
  then have "(k + 1) * ?z \<le> l * ?z \<or> (l + 1) * ?z \<le> k * ?z" by (auto intro!: mult_right_mono simp del: mult_Suc)
  then show ?thesis using kl by auto
qed

lemma slots_cong: "same_span s s' \<Longrightarrow> slots sm s' = slots sm s"
  by (simp add: slots_def same_span_def)

subsection \<open>The invariant\<close>

definition class_span :: "(nat \<rightharpoonup> nat) \<Rightarrow> 'w pageheap \<Rightarrow> nat \<Rightarrow> span \<Rightarrow> bool" where
  "class_span C h i s \<longleftrightarrow> i \<in> dom C \<and> (i, s) \<in> used h \<and> sizeclass s \<noteq> 0"

definition bigs :: "(nat \<rightharpoonup> nat) \<Rightarrow> 'w pageheap \<Rightarrow> (nat \<times> span) set" where
  "bigs C h = {(i, s). i \<in> dom C \<and> (i, s) \<in> used h \<and> sizeclass s = 0}"

definition small_ok :: "SizeMap \<Rightarrow> (nat \<Rightarrow> nat set) \<Rightarrow> store \<Rightarrow> span \<Rightarrow> bool" where
  "small_ok sm A w s \<longleftrightarrow> sizeclass s < kNumClasses \<and> len s = class_to_pages sm (sizeclass s) \<and>
     refcount s = card (slots sm s \<inter> A (sizeclass s)) \<and> (\<exists>fr. sll w (objects s) fr \<and> set fr = slots sm s - A (sizeclass s))"

definition class_objs :: "SizeMap \<Rightarrow> (nat \<rightharpoonup> nat) \<Rightarrow> 'w pageheap \<Rightarrow> nat \<Rightarrow> nat set" where
  "class_objs sm C h c = {x. \<exists>i s. class_span C h i s \<and> sizeclass s = c \<and> x \<in> slots sm s}"

definition list_ok :: "SizeMap \<Rightarrow> (nat \<rightharpoonup> nat) \<Rightarrow> nat set \<Rightarrow> 'w pageheap \<Rightarrow> nat \<Rightarrow> cfl \<Rightarrow> bool" where
  "list_ok sm C B h c l \<longleftrightarrow> size_class l = c \<and> distinct (nonempty_spans l) \<and> distinct (empty_spans l) \<and>
     (\<forall>i. i \<in> set (nonempty_spans l) \<longleftrightarrow> (\<exists>s. class_span C h i s \<and> sizeclass s = c \<and> objects s \<noteq> 0)) \<and>
     (\<forall>i. i \<in> set (empty_spans l) \<longleftrightarrow> (\<exists>s. class_span C h i s \<and> sizeclass s = c \<and> objects s = 0)) \<and>
     num_spans l = length (nonempty_spans l) + length (empty_spans l) \<and>
     counter l = int (num_spans l * per_span sm c) - int (card B)"

definition sizes_cached :: "(nat \<rightharpoonup> nat) \<Rightarrow> 'w pageheap \<Rightarrow> bool" where
  "sizes_cached C h \<longleftrightarrow> (\<forall>i s p. i \<in> dom C \<longrightarrow> (i, s) \<in> used h \<longrightarrow> p \<in> (if sizeclass s = 0 then {start s} else pg s) \<longrightarrow>
     GetSizeClassIfCached p h = 0 \<or> GetSizeClassIfCached p h = sizeclass s)"

definition objs_ok :: "SizeMap \<Rightarrow> (nat \<rightharpoonup> nat) \<Rightarrow> (nat \<Rightarrow> nat set) \<Rightarrow> 'w central \<Rightarrow> bool" where
  "objs_ok sm C A st \<longleftrightarrow> (\<forall>i s. class_span C (heap st) i s \<longrightarrow> small_ok sm A (objs st) s) \<and>
     (\<forall>c. A c \<subseteq> class_objs sm C (heap st) c \<and> finite (A c)) \<and>
     (\<forall>c. 0 < c \<and> c < kNumClasses \<longrightarrow> list_ok sm C (A c) (heap st) c (central_cache st c)) \<and> sizes_cached C (heap st)"

text \<open>The fields of the transfer cache.\<close>

definition tc_fields :: "cfl \<Rightarrow> (nat \<Rightarrow> nat \<times> nat) \<times> nat \<times> nat \<times> nat \<times> nat" where
  "tc_fields l = (tc_slots l, used_slots l, cache_size l, max_cache_size l, size_class l)"

lemma small_okI:
  "sizeclass s < kNumClasses \<Longrightarrow> len s = class_to_pages sm (sizeclass s) \<Longrightarrow> refcount s = card (slots sm s \<inter> A (sizeclass s)) \<Longrightarrow>
     sll w (objects s) fr \<Longrightarrow> set fr = slots sm s - A (sizeclass s) \<Longrightarrow> small_ok sm A w s"
  unfolding small_ok_def by blast

lemma class_spanD: "class_span C h i s \<Longrightarrow> (i, s) \<in> used h" "class_span C h i s \<Longrightarrow> spans h i = Some s" "class_span C h i s \<Longrightarrow> location s = IN_USE"
  by (auto simp: class_span_def used_def)

lemma class_span_fun: "class_span C h i s \<Longrightarrow> class_span C h i t \<Longrightarrow> t = s"
  by (simp add: class_span_def used_def)

lemma class_span_put:
  assumes "class_span C h i s" "same_span s s'" "location s' = IN_USE"
  shows "class_span C (put_span i s' h) k t \<longleftrightarrow> (if k = i then t = s' else class_span C h k t)"
  using assms by (auto simp: class_span_def used_def same_span_def)

lemma bigs_put: assumes "class_span C h i s" "same_span s s'" "location s' = IN_USE" shows "bigs C (put_span i s' h) = bigs C h"
  using assms by (auto simp: class_span_def used_def same_span_def bigs_def split: if_splits)

lemma class_objs_put:
  assumes "class_span C h i s" "same_span s s'" "location s' = IN_USE" shows "class_objs sm C (put_span i s' h) c = class_objs sm C h c"
proof -
  note put = class_span_put[OF assms]
  have s': "class_span C (put_span i s' h) i s'" by (simp add: put)
  have "(\<exists>k t. class_span C (put_span i s' h) k t \<and> sizeclass t = c \<and> x \<in> slots sm t) \<longleftrightarrow>
      (\<exists>k t. class_span C h k t \<and> sizeclass t = c \<and> x \<in> slots sm t)" for x
    using put s' assms(1,2) slots_cong[OF assms(2), of sm] class_span_fun[OF assms(1)] unfolding same_span_def by metis
  then show ?thesis by (simp add: class_objs_def)
qed

lemma sizes_cached_put:
  assumes "sizes_cached C h" "class_span C h i s" "same_span s s'" "location s' = IN_USE" shows "sizes_cached C (put_span i s' h)"
proof -
  have g: "GetSizeClassIfCached p (put_span i s' h) = GetSizeClassIfCached p h" for p by (simp add: GetSizeClassIfCached_def)
  have e: "sizeclass s' = sizeclass s" "start s' = start s" "pg s' = pg s" using assms(3) by (auto simp: same_span_def pg_def)
  have "\<exists>r. (k, r) \<in> used h \<and> sizeclass t = sizeclass r \<and> start t = start r \<and> pg t = pg r" if "(k, t) \<in> used (put_span i s' h)" for k t
    using that class_spanD[OF assms(2)] e by (cases "k = i") (auto simp: used_def)
  then show ?thesis using assms(1) unfolding sizes_cached_def g by metis
qed

lemma list_ok_put:
  assumes l: "list_ok sm C B h c l" and s: "class_span C h i s" "sizeclass s = c" "same_span s s'" "location s' = IN_USE"
    and l': "size_class l' = size_class l" "distinct (nonempty_spans l')" "distinct (empty_spans l')"
      "set (nonempty_spans l') = (if objects s' = 0 then set (nonempty_spans l) - {i} else insert i (set (nonempty_spans l)))"
      "set (empty_spans l') = (if objects s' = 0 then insert i (set (empty_spans l)) else set (empty_spans l) - {i})"
      "num_spans l' = num_spans l" "length (nonempty_spans l') + length (empty_spans l') = length (nonempty_spans l) + length (empty_spans l)"
      "counter l' = counter l + int (card B) - int (card B')"
  shows "list_ok sm C B' (put_span i s' h) c l'"
proof -
  note put = class_span_put[OF s(1,3,4)]
  have s': "sizeclass s' = c" using s(2,3) by (simp add: same_span_def)
  have 1: "k \<in> set (nonempty_spans l) \<longleftrightarrow> (\<exists>s. class_span C h k s \<and> sizeclass s = c \<and> objects s \<noteq> 0)"
    and 2: "k \<in> set (empty_spans l) \<longleftrightarrow> (\<exists>s. class_span C h k s \<and> sizeclass s = c \<and> objects s = 0)" for k
    using l unfolding list_ok_def by blast+
  have "\<forall>k. k \<in> set (nonempty_spans l') \<longleftrightarrow> (\<exists>s. class_span C (put_span i s' h) k s \<and> sizeclass s = c \<and> objects s \<noteq> 0)"
    using 1 s' unfolding l'(4) put by auto
  moreover have "\<forall>k. k \<in> set (empty_spans l') \<longleftrightarrow> (\<exists>s. class_span C (put_span i s' h) k s \<and> sizeclass s = c \<and> objects s = 0)"
    using 2 s' unfolding l'(5) put by auto
  moreover have "size_class l' = c" "num_spans l' = length (nonempty_spans l') + length (empty_spans l')"
    "counter l' = int (num_spans l' * per_span sm c) - int (card B')" using l l'(1,6-8) by (simp_all add: list_ok_def)
  ultimately show ?thesis using l'(2,3) unfolding list_ok_def by blast
qed

lemma list_ok_other:
  assumes "list_ok sm C B h c l" and "class_span C h i s" "sizeclass s \<noteq> c" "same_span s s'" "location s' = IN_USE"
  shows "list_ok sm C B (put_span i s' h) c l"
proof -
  note put = class_span_put[OF assms(2,4,5)]
  have e: "(\<exists>t. class_span C (put_span i s' h) k t \<and> sizeclass t = c \<and> Q t) \<longleftrightarrow> (\<exists>t. class_span C h k t \<and> sizeclass t = c \<and> Q t)" for k Q
    using assms(3,4) class_span_fun[OF assms(2)] unfolding put same_span_def by (cases "k = i") auto
  show ?thesis using assms(1) unfolding list_ok_def e .
qed

lemma fetch_walk_lst:
  assumes "sll m x (x # ys)" and "r < N"
  shows "\<exists>xs zs. x # ys = xs @ zs \<and> xs \<noteq> [] \<and> length xs \<le> N - r \<and> fetch_walk N r x m = Inr (r + length xs, last xs, m (last xs))"
  using assms
proof (induction ys arbitrary: x r)
  case Nil
  then have "fetch_walk N r x m = Inr (r + length [x], last [x], m (last [x]))" by (subst fetch_walk.simps) (simp add: SLL_Next_def)
  then show ?case using Nil(2) by (intro exI[of _ "[x]"] exI[of _ "[]"]) simp
next
  case (Cons y ys)
  have n: "SLL_Next x m = Inr y" "y \<noteq> 0" "sll m y (y # ys)" "m x = y" using Cons.prems(1) by (auto simp: SLL_Next_def)
  show ?case
  proof (cases "r + 1 < N")
    case True
    obtain xs zs where xs: "y # ys = xs @ zs" "xs \<noteq> []" "length xs \<le> N - (r + 1)"
      "fetch_walk N (r + 1) y m = Inr (r + 1 + length xs, last xs, m (last xs))" using Cons.IH[OF n(3) True] by blast
    have "fetch_walk N r x m = fetch_walk N (r + 1) y m" using n(1,2) True by (subst fetch_walk.simps) simp
    then show ?thesis using xs True by (intro exI[of _ "x # xs"] exI[of _ zs]) auto
  next
    case False
    then have "fetch_walk N r x m = Inr (r + length [x], last [x], m (last [x]))" using n(1,4) by (subst fetch_walk.simps) simp
    then show ?thesis using Cons.prems(2) by (intro exI[of _ "[x]"] exI[of _ "y # ys"]) simp
  qed
qed

lemma cut_span_lst:
  assumes "0 < sz" and "0 < ptr" and "ptr + n * sz \<le> limit" and "limit < ptr + Suc n * sz" and "n < fu"
    and "\<And>a. tail = Some a \<Longrightarrow> a < ptr"
  shows "\<exists>f' m'. cut_span fu sz limit ptr tail num (f, m) = Inr (num + n, f', m') \<and>
    (case tail of None \<Rightarrow> sll m' f' (map (\<lambda>k. ptr + k * sz) [0..<n]) | Some a \<Rightarrow> f' = f \<and> sll m' (m' a) (map (\<lambda>k. ptr + k * sz) [0..<n])) \<and>
    (\<forall>y. y \<notin> set_option tail \<union> (\<lambda>k. ptr + k * sz) ` {..<n} \<longrightarrow> m' y = m y)"
  using assms
proof (induction n arbitrary: fu ptr tail num f m)
  case 0
  then obtain k where "fu = Suc k" by (cases fu) auto
  then show ?case using 0 by (auto simp: set_tail_def split: option.splits)
next
  case (Suc n)
  then obtain k where fu: "fu = Suc k" by (cases fu) auto
  obtain f1 m1 where fm: "set_tail tail ptr (f, m) = (f1, m1)" by fastforce
  obtain f' m' where r: "cut_span k sz limit (ptr + sz) (Some ptr) (num + 1) (f1, m1) = Inr (num + 1 + n, f', m')" "f' = f1"
    "sll m' (m' ptr) (map (\<lambda>k. ptr + sz + k * sz) [0..<n])" "\<forall>y. y \<notin> insert ptr ((\<lambda>k. ptr + sz + k * sz) ` {..<n}) \<longrightarrow> m' y = m1 y"
    using Suc.IH[of "ptr + sz" k "Some ptr" "num + 1" f1 m1] Suc.prems fu by (auto simp: algebra_simps)
  have run: "cut_span fu sz limit ptr tail num (f, m) = Inr (num + Suc n, f', m')" using fu r(1) fm Suc.prems(3) by simp
  have e: "map (\<lambda>k. ptr + k * sz) [0..<Suc n] = ptr # map (\<lambda>k. ptr + sz + k * sz) [0..<n]"
    by (subst upt_conv_Cons) (simp_all add: map_Suc_upt[symmetric] del: upt_Suc)
  have sll: "sll m' ptr (map (\<lambda>k. ptr + k * sz) [0..<Suc n])" unfolding e using r(3) Suc.prems(2) by simp
  have im: "(\<lambda>k. ptr + k * sz) ` {..<Suc n} = insert ptr ((\<lambda>k. ptr + sz + k * sz) ` {..<n})" using arg_cong[OF e, of set] by (simp add: lessThan_atLeast0 atLeast0_lessThan_Suc)
  have "m' a = m1 a" if "tail = Some a" for a using r(4) Suc.prems(6)[OF that] by auto
  then have "case tail of None \<Rightarrow> f' = ptr \<and> m1 = m | Some a \<Rightarrow> f' = f \<and> m' a = ptr \<and> m1 = m(a := ptr)"
    using fm r(2) by (auto simp: set_tail_def split: option.splits)
  then show ?case using run sll r(4) unfolding im by (intro exI[of _ f'] exI[of _ m']) (auto split: option.splits)
qed

lemma cache_classes_frame [simp]:
  "spans (cache_classes p n cl h) = spans h" "pagemap (cache_classes p n cl h) = pagemap h" "used (cache_classes p n cl h) = used h"
  by (induction p n cl h rule: cache_classes.induct) (simp_all add: CacheSizeClass_def used_def)

lemma CacheSizeClass_get:
  assumes "p < 2 ^ 35" "q < 2 ^ 35" "cl < 2 ^ 7"
  shows "GetSizeClassIfCached q (CacheSizeClass p cl h) = (if q = p then cl else if Hash q = Hash p then 0 else GetSizeClassIfCached q h)"
  using Get_Put[of 35 64 p q cl 0 "pagemap_cache h"] assms
  by (simp add: GetSizeClassIfCached_def CacheSizeClass_def cache_params_def cache_consts)

lemma cache_classes_get:
  assumes "p + n \<le> 2 ^ 35" "q < 2 ^ 35" "cl < 2 ^ 7"
  shows "GetSizeClassIfCached q (cache_classes p n cl h) = 0 \<or>
    GetSizeClassIfCached q (cache_classes p n cl h) = (if p \<le> q \<and> q < p + n then cl else GetSizeClassIfCached q h)"
  using assms
proof (induction p n cl h rule: cache_classes.induct)
  case (2 p n cl h)
  have g: "GetSizeClassIfCached q (CacheSizeClass p cl h) = (if q = p then cl else if Hash q = Hash p then 0 else GetSizeClassIfCached q h)"
    by (rule CacheSizeClass_get) (use "2.prems" in simp_all)
  have r: "p \<le> q \<and> q < p + Suc n \<longleftrightarrow> q = p \<or> p + 1 \<le> q \<and> q < p + 1 + n" by auto
  have "GetSizeClassIfCached q (cache_classes (p + 1) n cl (CacheSizeClass p cl h)) = 0 \<or>
    GetSizeClassIfCached q (cache_classes (p + 1) n cl (CacheSizeClass p cl h)) =
      (if p + 1 \<le> q \<and> q < p + 1 + n then cl else GetSizeClassIfCached q (CacheSizeClass p cl h))"
    by (rule "2.IH") (use "2.prems" in simp_all)
  then show ?case unfolding cache_classes.simps r g by (auto split: if_splits)
qed simp

text \<open>What an operation leaves alone: the first words of all objects outside of \<open>X\<close>, the spans of large objects, the transfer
  caches.\<close>

definition frame :: "nat set \<Rightarrow> (nat \<rightharpoonup> nat) \<Rightarrow> 'w central \<Rightarrow> (nat \<rightharpoonup> nat) \<Rightarrow> 'w central \<Rightarrow> bool" where
  "frame X C st C' st' \<longleftrightarrow> (\<forall>x. x \<notin> X \<longrightarrow> objs st' x = objs st x) \<and> bigs C' (heap st') = bigs C (heap st) \<and>
     (\<forall>c. tc_fields (central_cache st' c) = tc_fields (central_cache st c)) \<and> race_counter st' = race_counter st"

lemma frame_refl: "frame X C st C st" by (simp add: frame_def)

lemma frame_sll:
  assumes "frame X C st C' st'" and "sll (objs st) f xs" and "set xs \<inter> X = {}" shows "sll (objs st') f xs"
proof -
  have "\<forall>x\<in>set xs. objs st' x = objs st x" using assms(1,3) unfolding frame_def by blast
  then show ?thesis using sll_frame assms(2) by blast
qed

lemma frame_trans: "frame X C st C' st' \<Longrightarrow> frame Y C' st' C'' st'' \<Longrightarrow> X \<union> Y \<subseteq> Z \<Longrightarrow> frame Z C st C'' st''"
  unfolding frame_def by (metis Un_iff in_mono)

context central_env
begin

abbreviation "sm \<equiv> c_sizes ce"

definition cinv :: "(nat \<rightharpoonup> nat) \<Rightarrow> (nat \<Rightarrow> nat set) \<Rightarrow> 'w central \<Rightarrow> bool" where
  "cinv C A st \<longleftrightarrow> hinv C (heap st) (meta st) \<and> objs_ok (c_sizes ce) C A st"

lemma cinvE:
  assumes "cinv C A st"
  obtains P tb where "inv {} P (heap st)" "hinv C (heap st) (meta st)" "objs_ok (c_sizes ce) C A st"
  using assms unfolding cinv_def hinv_def by blast

lemma class_size: assumes "cinv C A st" "class_span C (heap st) i s" shows "class_ok sm (sizeclass s)" "0 < class_to_size sm (sizeclass s)"
proof -
  have "sizeclass s < kNumClasses" "0 < sizeclass s" using assms by (auto simp: cinv_def objs_ok_def small_ok_def class_span_def)
  then show "class_ok sm (sizeclass s)" by (intro sizes)
  then show "0 < class_to_size sm (sizeclass s)" by (simp add: class_ok_def)
qed

lemma slots_other:
  assumes "cinv C A st" and s: "class_span C (heap st) i s" and t: "class_span C (heap st) k t" and "k \<noteq> i"
  shows "slots sm s \<inter> slots sm t = {}"
proof -
  obtain P where P: "inv {} P (heap st)" by (rule cinvE[OF assms(1)])
  show ?thesis
    using slot_page[OF _ class_size(2)[OF assms(1) s]] slot_page[OF _ class_size(2)[OF assms(1) t]]
      spans_ok_disj[OF invD(1)[OF P] class_spanD(2)[OF s] class_spanD(2)[OF t]] assms(4) by blast
qed

lemma update_ok:
  assumes c: "cinv C A st" and s: "class_span C (heap st) i s" "sizeclass s = c" "same_span s s'" "location s' = IN_USE"
    and out: "\<And>x. x \<notin> slots sm s \<Longrightarrow> (x \<in> B \<longleftrightarrow> x \<in> A c) \<and> w x = objs st x"
    and sm: "small_ok sm (A(c := B)) w s'" and l: "list_ok sm C B (put_span i s' (heap st)) c l"
  shows "cinv C (A(c := B)) (set_cfl c l (st\<lparr>objs := w, heap := put_span i s' (heap st)\<rparr>))"
proof -
  obtain P where P: "hinv C (heap st) (meta st)" "objs_ok sm C A st" by (rule cinvE[OF c])
  note put = class_span_put[OF s(1,3,4)]
  have "small_ok sm (A(c := B)) w t" if kt: "class_span C (heap st) k t" "k \<noteq> i" for k t
  proof -
    have d: "slots sm s \<inter> slots sm t = {}" by (rule slots_other[OF c s(1) kt])
    have t: "small_ok sm A (objs st) t" using P(2) kt(1) by (simp add: objs_ok_def)
    then obtain fr where fr: "sll (objs st) (objects t) fr" "set fr = slots sm t - A (sizeclass t)" by (auto simp: small_ok_def)
    have "slots sm t \<inter> (A(c := B)) (sizeclass t) = slots sm t \<inter> A (sizeclass t)" "slots sm t - (A(c := B)) (sizeclass t) = slots sm t - A (sizeclass t)"
      using d out by auto
    moreover have "sll w (objects t) fr" using sll_frame[of fr w "objs st"] fr d out by auto
    ultimately show ?thesis using t fr(2) unfolding small_ok_def by metis
  qed
  then have 1: "\<forall>k t. class_span C (put_span i s' (heap st)) k t \<longrightarrow> small_ok sm (A(c := B)) w t" using put sm by simp
  have sub: "B \<subseteq> A c \<union> slots sm s" using out by blast
  have sl: "slots sm s \<subseteq> class_objs sm C (heap st) c" using s(1,2) by (auto simp: class_objs_def)
  have A: "A d \<subseteq> class_objs sm C (heap st) d" "finite (A d)" for d using P(2) by (simp_all add: objs_ok_def)
  have "B \<subseteq> class_objs sm C (heap st) c" "finite B" using sub sl A[of c] finite_subset[OF sub] by auto
  then have 2: "\<forall>d. (A(c := B)) d \<subseteq> class_objs sm C (put_span i s' (heap st)) d \<and> finite ((A(c := B)) d)"
    using A class_objs_put[OF s(1,3,4), of sm] by simp
  have "list_ok sm C (A d) (put_span i s' (heap st)) d (central_cache st d)" if "0 < d" "d < kNumClasses" "d \<noteq> c" for d
    by (rule list_ok_other[OF _ s(1) _ s(3,4)]) (use P(2) that s(2) in \<open>auto simp: objs_ok_def\<close>)
  then have 3: "\<forall>d. 0 < d \<and> d < kNumClasses \<longrightarrow> list_ok sm C ((A(c := B)) d) (put_span i s' (heap st)) d (((central_cache st)(c := l)) d)"
    using l by simp
  have 4: "sizes_cached C (put_span i s' (heap st))" using sizes_cached_put[OF _ s(1,3,4)] P(2) by (simp add: objs_ok_def)
  have "hinv C (put_span i s' (heap st)) (meta st)" by (rule hinv_put[OF P(1) class_spanD(1)[OF s(1)] s(3,4)])
  then show ?thesis using 1 2 3 4 by (simp add: cinv_def objs_ok_def set_cfl_def)
qed

lemma FetchFromOneSpans_ok:
  assumes c: "cinv C A st" and cl: "0 < cl" "cl < kNumClasses" and N: "0 < N"
  shows "nonempty_spans (central_cache st cl) = [] \<and> FetchFromOneSpans cl N st = Inr (0, 0, 0, st) \<or>
    (\<exists>xs st'. xs \<noteq> [] \<and> length xs \<le> N \<and> FetchFromOneSpans cl N st = Inr (length xs, hd xs, last xs, st') \<and>
       sll (objs st') (hd xs) xs \<and> set xs \<inter> A cl = {} \<and> cinv C (A(cl := A cl \<union> set xs)) st' \<and> frame (set xs) C st C st')"
proof (cases "nonempty_spans (central_cache st cl)")
  case Nil
  then show ?thesis by (simp add: FetchFromOneSpans_def Let_def)
next
  case (Cons i rest)
  let ?l = "central_cache st cl"
  obtain P where P: "objs_ok sm C A st" by (rule cinvE[OF c])
  have l: "list_ok sm C (A cl) (heap st) cl ?l" using P cl by (simp add: objs_ok_def)
  have "i \<in> set (nonempty_spans ?l)" using Cons by simp
  then obtain s where s: "class_span C (heap st) i s" "sizeclass s = cl" "objects s \<noteq> 0" using l unfolding list_ok_def by blast
  have ie: "i \<notin> set (empty_spans ?l)" using l s class_span_fun[OF s(1)] unfolding list_ok_def by metis
  have so: "small_ok sm A (objs st) s" using P s(1) by (simp add: objs_ok_def)
  then obtain fr where fr: "sll (objs st) (objects s) fr" "set fr = slots sm s - A cl" using s(2) by (auto simp: small_ok_def)
  then obtain ys where ys: "fr = objects s # ys" using s(3) by (cases fr) auto
  obtain xs zs where xs: "fr = xs @ zs" "xs \<noteq> []" "length xs \<le> N"
    "fetch_walk N 0 (objects s) (objs st) = Inr (length xs, last xs, objs st (last xs))"
    using fetch_walk_lst[of "objs st" "objects s" ys 0 N] fr(1) ys N by auto
  let ?m = "(objs st)(last xs := 0)" and ?z = "objs st (last xs)"
  have d: "distinct (xs @ zs)" using sll_distinct[OF fr(1)] xs(1) by simp
  then have sl: "sll ?m (objects s) xs" "sll (objs st) ?z zs" using sll_append[OF _ xs(2), of "objs st" "objects s" zs] fr(1) xs(1) by auto
  have hd: "hd xs = objects s" using ys xs(1,2) by (cases xs) auto
  have "last xs \<noteq> 0" using sll_nonnull[OF fr(1)] xs(1,2) by (metis UnCI last_in_set set_append)
  let ?l' = "(if ?z = 0 then let l = unlink_span i ?l in l\<lparr>empty_spans := i # empty_spans l\<rparr> else ?l)"
  let ?l2 = "?l'\<lparr>counter := counter ?l' - int (length xs)\<rparr>"
  let ?s = "s\<lparr>objects := ?z, refcount := (refcount s + length xs) mod 2 ^ 16\<rparr>" and ?B = "A cl \<union> set xs"
  let ?st = "set_cfl cl ?l2 (st\<lparr>objs := ?m, heap := put_span i ?s (heap st)\<rparr>)"
  have run: "FetchFromOneSpans cl N st = Inr (length xs, hd xs, last xs, ?st)"
    using Cons class_spanD(2)[OF s(1)] xs(4) \<open>last xs \<noteq> 0\<close>
    by (simp add: FetchFromOneSpans_def Let_def get_span_def SLL_SetNext_def hd)
  have xA: "set xs \<inter> A cl = {}" "set xs \<subseteq> slots sm s" using fr(2) xs(1) by auto
  have fin: "finite (A cl)" using P by (simp add: objs_ok_def)
  have cB: "card ?B = card (A cl) + length xs" using fin xA(1) d by (simp add: card_Un_disjoint Int_commute distinct_card)
  have ss: "same_span s ?s" "location ?s = IN_USE" using class_spanD(3)[OF s(1)] by (simp_all add: same_span_def)
  have cs: "class_ok sm cl" "0 < class_to_size sm cl" using class_size[OF c s(1)] s(2) by simp_all
  have "slots sm s \<inter> ?B = (slots sm s \<inter> A cl) \<union> set xs" "(slots sm s \<inter> A cl) \<inter> set xs = {}" using xA by blast+
  then have "card (slots sm s \<inter> ?B) = card (slots sm s \<inter> A cl) + card (set xs)" by (simp add: card_Un_disjoint)
  then have rc: "card (slots sm s \<inter> ?B) = refcount s + length xs" using so s(2) d by (simp add: small_ok_def distinct_card)
  have "card (slots sm s \<inter> ?B) \<le> card (slots sm s)" by (rule card_mono) simp_all
  then have rb: "refcount s + length xs < 2 ^ 16"
    using rc card_slots[of sm s] cs so s(2) by (simp add: small_ok_def class_ok_def per_span_def)
  have "last xs \<notin> set zs" using d xs(2) by (meson disjoint_iff distinct_append last_in_set)
  then have "sll ?m ?z zs" using sll_frame[of zs ?m "objs st" ?z] sl(2) by auto
  moreover have "set zs = slots sm s - ?B" using fr(2) xs(1) d xA(2) by auto
  moreover have "slots sm ?s = slots sm s" using slots_cong[OF ss(1)] .
  ultimately have so': "small_ok sm (A(cl := ?B)) ?m ?s" using so s(2) rc rb unfolding small_ok_def by auto
  have ld: "distinct (nonempty_spans ?l)" "distinct (empty_spans ?l)" using l by (simp_all add: list_ok_def)
  have lo: "list_ok sm C ?B (put_span i ?s (heap st)) cl ?l2"
    by (rule list_ok_put[OF l s(1,2) ss]) (use ld Cons ie cB remove1_idem[OF ie] in \<open>auto simp: unlink_span_def Let_def\<close>)
  have "cinv C (A(cl := ?B)) ?st"
    by (rule update_ok[OF c s(1,2) ss _ so' lo]) (use xA xs(2) in \<open>auto dest: last_in_set\<close>)
  moreover have "frame (set xs) C st C ?st"
    using bigs_put[OF s(1) ss] last_in_set[OF xs(2)] by (auto simp: frame_def set_cfl_def tc_fields_def unlink_span_def Let_def)
  moreover have "objs ?st = ?m" by (simp add: set_cfl_def)
  ultimately show ?thesis using run xs(2,3) sl(1) hd xA(1) by (intro disjI2 exI[of _ xs] exI[of _ ?st]) simp
qed

lemma span_of_object:
  assumes c: "cinv C A st" and s: "class_span C (heap st) i s" and x: "x \<in> slots sm s"
  shows "MapObjectToSpan x (heap st) = i"
proof -
  obtain P where P: "hinv C (heap st) (meta st)" by (rule cinvE[OF c])
  obtain tb where m: "metas_ok ce C (heap st) (meta st)" by (rule hinvE[OF P])
  obtain j where j: "C i = Some j" using s by (auto simp: class_span_def)
  obtain r where "(i, r) \<in> used (heap st)" "sizeclass r \<noteq> 0 \<longrightarrow> (\<forall>p\<in>pg r. pagemap (heap st) p = i)"
    by (rule span_pairE[OF metas_okD[OF m j]])
  then have "\<forall>p\<in>pg s. pagemap (heap st) p = i" using used_fun[OF class_spanD(1)[OF s]] s by (auto simp: class_span_def)
  then show ?thesis using slot_page[OF x class_size(2)[OF c s]] by (simp add: MapObjectToSpan_def GetDescriptor_eq)
qed

lemma object_span:
  assumes "cinv C A st" and "x \<in> A cl"
  obtains i s where "class_span C (heap st) i s" "sizeclass s = cl" "x \<in> slots sm s"
  using assms unfolding cinv_def objs_ok_def class_objs_def by blast

lemma list_ok_drop:
  assumes L: "list_ok sm C B h cl l0" and s: "class_span C h i s" "sizeclass s = cl"
    and cs: "\<And>k u. class_span C' h' k u \<longleftrightarrow> k \<noteq> i \<and> class_span C h k u" and B: "finite B" "x \<in> B"
    and l: "size_class l = cl" "nonempty_spans l = remove1 i (nonempty_spans l0)" "empty_spans l = remove1 i (empty_spans l0)"
      "num_spans l = num_spans l0 - 1" "counter l = counter l0 + 1 - int (per_span sm cl)"
  shows "list_ok sm C' (B - {x}) h' cl l"
proof -
  have e: "(\<exists>u. class_span C' h' k u \<and> sizeclass u = cl \<and> Q u) \<longleftrightarrow> k \<noteq> i \<and> (\<exists>u. class_span C h k u \<and> sizeclass u = cl \<and> Q u)" for k Q using cs by auto
  have d: "distinct (nonempty_spans l0)" "distinct (empty_spans l0)" and len: "num_spans l0 = length (nonempty_spans l0) + length (empty_spans l0)"
    and c0: "counter l0 = int (num_spans l0 * per_span sm cl) - int (card B)"
    and st0: "\<And>k. k \<in> set (nonempty_spans l0) \<longleftrightarrow> (\<exists>s. class_span C h k s \<and> sizeclass s = cl \<and> objects s \<noteq> 0)"
      "\<And>k. k \<in> set (empty_spans l0) \<longleftrightarrow> (\<exists>s. class_span C h k s \<and> sizeclass s = cl \<and> objects s = 0)"
    using L unfolding list_ok_def by blast+
  have one: "i \<in> set (nonempty_spans l0) \<and> i \<notin> set (empty_spans l0) \<or> i \<in> set (empty_spans l0) \<and> i \<notin> set (nonempty_spans l0)"
    using st0 s class_span_fun[OF s(1)] by metis
  then have n: "num_spans l = length (nonempty_spans l) + length (empty_spans l)" "1 \<le> num_spans l0"
    using len length_pos_if_in_set[of i "nonempty_spans l0"] length_pos_if_in_set[of i "empty_spans l0"] unfolding l(2-4)
    by (auto simp: length_remove1 simp del: length_greater_0_conv)
  have "card (B - {x}) = card B - 1" "1 \<le> card B" using B by (auto simp: card_gt_0_iff Suc_le_eq)
  then have ct: "counter l = int (num_spans l * per_span sm cl) - int (card (B - {x}))"
    using n(2) c0 unfolding l(4,5) by (simp add: of_nat_diff algebra_simps)
  have st: "\<forall>k. k \<in> set (nonempty_spans l) \<longleftrightarrow> k \<noteq> i \<and> (\<exists>s. class_span C h k s \<and> sizeclass s = cl \<and> objects s \<noteq> 0)"
    "\<forall>k. k \<in> set (empty_spans l) \<longleftrightarrow> k \<noteq> i \<and> (\<exists>s. class_span C h k s \<and> sizeclass s = cl \<and> objects s = 0)"
    unfolding l(2,3) set_remove1_eq[OF d(1)] set_remove1_eq[OF d(2)] using st0 by blast+
  moreover have "distinct (nonempty_spans l)" "distinct (empty_spans l)" using d unfolding l(2,3) by simp_all
  ultimately show ?thesis using l(1) n(1) ct unfolding list_ok_def e by blast
qed

text \<open>The last object of a span comes back, and the span with it.\<close>

lemma drop_ok:
  assumes c: "cinv C A st" and s: "class_span C (heap st) i s" "sizeclass s = cl" "cl < kNumClasses" and x: "slots sm s \<inter> A cl = {x}"
    and h: "hinv (C(i := None)) h2 m" "used h2 = used (heap st) - {(i, s), (j, t)}" "pagemap_cache h2 = pagemap_cache (heap st)" "C i = Some j"
    and l: "size_class l = cl" "nonempty_spans l = remove1 i (nonempty_spans (central_cache st cl))"
      "empty_spans l = remove1 i (empty_spans (central_cache st cl))" "num_spans l = num_spans (central_cache st cl) - 1"
      "counter l = counter (central_cache st cl) + 1 - int (per_span sm cl)"
  shows "cinv (C(i := None)) (A(cl := A cl - {x})) (set_cfl cl l (st\<lparr>heap := h2, meta := m\<rparr>)) \<and> bigs (C(i := None)) h2 = bigs C (heap st)"
proof -
  let ?C = "C(i := None)" and ?A = "A(cl := A cl - {x})" and ?h = "heap st"
  obtain P where P: "hinv C ?h (meta st)" "objs_ok sm C A st" by (rule cinvE[OF c])
  obtain tb where mo: "metas_ok ce C ?h (meta st)" by (rule hinvE[OF P(1)])
  have ji: "j \<notin> dom C" using mo h(4) by (auto simp: metas_ok_def ran_def)
  have us: "k \<in> dom ?C \<and> (k, u) \<in> used h2 \<longleftrightarrow> k \<noteq> i \<and> k \<in> dom C \<and> (k, u) \<in> used ?h" for k u using h(2) ji by auto
  then have cs: "class_span ?C h2 k u \<longleftrightarrow> k \<noteq> i \<and> class_span C ?h k u" for k u unfolding class_span_def by blast
  have "small_ok sm ?A (objs st) u" if ku: "k \<noteq> i" "class_span C ?h k u" for k u
  proof -
    have "x \<notin> slots sm u" using slots_other[OF c s(1) ku(2,1)] x by blast
    then have "slots sm u \<inter> ?A (sizeclass u) = slots sm u \<inter> A (sizeclass u)" "slots sm u - ?A (sizeclass u) = slots sm u - A (sizeclass u)" by auto
    moreover have "small_ok sm A (objs st) u" using P(2) ku(2) by (simp add: objs_ok_def)
    ultimately show ?thesis unfolding small_ok_def by metis
  qed
  then have 1: "\<forall>k u. class_span ?C h2 k u \<longrightarrow> small_ok sm ?A (objs st) u" using cs by blast
  have 2: "?A d \<subseteq> class_objs sm ?C h2 d \<and> finite (?A d)" for d
  proof -
    have A: "A d \<subseteq> class_objs sm C ?h d" "finite (A d)" using P(2) by (simp_all add: objs_ok_def)
    have "y \<in> class_objs sm ?C h2 d" if y: "y \<in> ?A d" for y
    proof -
      have "y \<in> A d" using y by (auto split: if_splits)
      then obtain k u where ku: "class_span C ?h k u" "sizeclass u = d" "y \<in> slots sm u" using A(1) unfolding class_objs_def by blast
      have "k \<noteq> i"
      proof
        assume "k = i"
        then have "u = s" using class_span_fun[OF s(1)] ku(1) by simp
        then show False using ku(2,3) s(2) x y by auto
      qed
      then show ?thesis using ku cs unfolding class_objs_def by blast
    qed
    then have "?A d \<subseteq> class_objs sm ?C h2 d" by blast
    moreover have "finite (?A d)" using A(2) by auto
    ultimately show ?thesis by blast
  qed
  have lo: "list_ok sm C (A d) ?h d (central_cache st d)" if "0 < d" "d < kNumClasses" for d using P(2) that by (simp add: objs_ok_def)
  have "list_ok sm ?C (A d) h2 d (central_cache st d)" if d: "0 < d" "d < kNumClasses" "d \<noteq> cl" for d
  proof -
    have e: "(\<exists>u. class_span ?C h2 k u \<and> sizeclass u = d \<and> Q u) \<longleftrightarrow> (\<exists>u. class_span C ?h k u \<and> sizeclass u = d \<and> Q u)" for k Q
      using d(3) s(2) class_span_fun[OF s(1)] cs by metis
    show ?thesis using lo[OF d(1,2)] unfolding list_ok_def e .
  qed
  moreover have "list_ok sm ?C (A cl - {x}) h2 cl l"
    by (rule list_ok_drop[OF lo s(1,2) cs _ _ l]) (use s x P(2) in \<open>auto simp: objs_ok_def class_span_def\<close>)
  ultimately have 3: "\<forall>d. 0 < d \<and> d < kNumClasses \<longrightarrow> list_ok sm ?C (?A d) h2 d (((central_cache st)(cl := l)) d)" by simp
  have g: "GetSizeClassIfCached p h2 = GetSizeClassIfCached p ?h" for p using h(3) by (simp add: GetSizeClassIfCached_def)
  have "sizes_cached C ?h" using P(2) by (simp add: objs_ok_def)
  have 4: "sizes_cached ?C h2"
  proof (unfold sizes_cached_def g, intro allI impI)
    fix k u p assume k: "k \<in> dom ?C" "(k, u) \<in> used h2" and p: "p \<in> (if sizeclass u = 0 then {start u} else pg u)"
    have "k \<in> dom C" "(k, u) \<in> used ?h" using us[of k u] k by blast+
    then show "GetSizeClassIfCached p ?h = 0 \<or> GetSizeClassIfCached p ?h = sizeclass u"
      using \<open>sizes_cached C ?h\<close> p unfolding sizes_cached_def by blast
  qed
  have "bigs ?C h2 = bigs C ?h"
  proof -
    have nz: "sizeclass u \<noteq> 0" if "(i, u) \<in> used ?h" for u using that used_fun[OF class_spanD(1)[OF s(1)]] s(1) by (auto simp: class_span_def)
    have "(k, u) \<in> bigs ?C h2 \<longleftrightarrow> (k, u) \<in> bigs C ?h" for k u
      unfolding bigs_def mem_Collect_eq prod.case using us[of k u] nz[of u] by blast
    then show ?thesis by auto
  qed
  then show ?thesis using 1 2 3 4 h(1) by (simp add: cinv_def objs_ok_def set_cfl_def)
qed

lemma span_facts:
  assumes c: "cinv C A st" and s: "class_span C (heap st) i s" "sizeclass s = cl" "x \<in> slots sm s" and x: "x \<in> A cl"
  shows "small_ok sm A (objs st) s" and "list_ok sm C (A cl) (heap st) cl (central_cache st cl)" and "refcount s = card (slots sm s \<inter> A cl)"
    and "1 \<le> refcount s" and "(refcount s + 2 ^ 16 - 1) mod 2 ^ 16 = refcount s - 1" and "x \<noteq> 0" and "0 < class_to_size sm cl"
proof -
  obtain P where P: "inv {} P (heap st)" "objs_ok sm C A st" by (rule cinvE[OF c])
  have cs: "class_ok sm cl" "0 < class_to_size sm cl" using class_size[OF c s(1)] s(2) by simp_all
  show so: "small_ok sm A (objs st) s" using P(2) s(1) by (simp add: objs_ok_def)
  then show "list_ok sm C (A cl) (heap st) cl (central_cache st cl)" using P(2) s(1,2) by (simp add: objs_ok_def class_span_def small_ok_def)
  show r: "refcount s = card (slots sm s \<inter> A cl)" using so s(2) by (simp add: small_ok_def)
  show r1: "1 \<le> refcount s" using r x s(3) by (simp add: card_gt_0_iff Suc_le_eq) blast
  have "card (slots sm s \<inter> A cl) \<le> card (slots sm s)" by (rule card_mono) simp_all
  then have "refcount s < 2 ^ 16" using r card_slots[of sm s] cs so s(2) by (simp add: small_ok_def class_ok_def per_span_def)
  then show "(refcount s + 2 ^ 16 - 1) mod 2 ^ 16 = refcount s - 1" using r1 by (cases "refcount s") simp_all
  have "0 < start s" using spans_okD(3)[OF invD(1)[OF P(1)] class_spanD(2)[OF s(1)]] .
  then show "x \<noteq> 0" by (rule slot_nonnull[OF s(3)])
  show "0 < class_to_size sm cl" by (rule cs(2))
qed

text \<open>An object goes back to a span of which other objects stay out.\<close>

lemma release_keep:
  assumes c: "cinv C A st" and s: "class_span C (heap st) i s" "sizeclass s = cl" "x \<in> slots sm s" and x: "x \<in> A cl" and r: "refcount s \<noteq> 1"
  obtains st' where "ReleaseToSpans ce cl x st = Inr st'" and "cinv C (A(cl := A cl - {x})) st'" and "frame {x} C st C st'"
proof -
  let ?l = "central_cache st cl"
  note f = span_facts[OF c s x]
  let ?l1 = "if objects s = 0 then let l = unlink_span i ?l in l\<lparr>nonempty_spans := i # nonempty_spans l\<rparr> else ?l"
  let ?l2 = "?l1\<lparr>counter := counter ?l1 + 1\<rparr>"
  let ?s = "s\<lparr>refcount := refcount s - 1, objects := x\<rparr>" and ?w = "(objs st)(x := objects s)"
  let ?st = "set_cfl cl ?l2 (st\<lparr>objs := ?w, heap := put_span i ?s (heap st)\<rparr>)"
  have run: "ReleaseToSpans ce cl x st = Inr ?st"
    using r f(4,5) span_of_object[OF c s(1,3)] class_spanD(2)[OF s(1)] unfolding ReleaseToSpans_def Let_def get_span_def by (simp add: Let_def)
  have ss: "same_span s ?s" "location ?s = IN_USE" using class_spanD(3)[OF s(1)] by (simp_all add: same_span_def)
  have ne: "objects s = 0 \<Longrightarrow> i \<notin> set (nonempty_spans ?l) \<and> i \<in> set (empty_spans ?l)"
    "objects s \<noteq> 0 \<Longrightarrow> i \<in> set (nonempty_spans ?l) \<and> i \<notin> set (empty_spans ?l)"
    using f(2) s(1,2) class_span_fun[OF s(1)] unfolding list_ok_def by metis+
  have ld: "distinct (nonempty_spans ?l)" "distinct (empty_spans ?l)" using f(2) by (simp_all add: list_ok_def)
  have "finite (A cl)" using c by (simp add: cinv_def objs_ok_def)
  then have cB: "card (A cl) = card (A cl - {x}) + 1" using x card_Suc_Diff1[of "A cl" x] by simp
  have l2: "list_ok sm C (A cl - {x}) (put_span i ?s (heap st)) cl ?l2"
  proof (cases "objects s = 0")
    case True
    show ?thesis
      by (rule list_ok_put[OF f(2) s(1,2) ss])
        (use True ld ne(1)[OF True] f(6) cB remove1_idem[of i "nonempty_spans ?l"] length_pos_if_in_set[of i "empty_spans ?l"] in
          \<open>auto simp: unlink_span_def Let_def length_remove1 simp del: length_greater_0_conv\<close>)
  next
    case False
    show ?thesis by (rule list_ok_put[OF f(2) s(1,2) ss]) (use False ld ne(2)[OF False] f(6) cB in auto)
  qed
  obtain fr where fr: "sll (objs st) (objects s) fr" "set fr = slots sm s - A cl" using f(1) s(2) by (auto simp: small_ok_def)
  have "sll ?w (objects s) fr" using sll_frame[of fr ?w "objs st"] fr x by auto
  then have xf: "sll ?w x (x # fr)" "set (x # fr) = slots sm s - (A cl - {x})" using f(6) fr(2) s(3) x by auto
  have "slots sm s \<inter> (A cl - {x}) = (slots sm s \<inter> A cl) - {x}" by blast
  then have rc: "card (slots sm s \<inter> (A cl - {x})) = refcount s - 1" using f(3) s(3) x by simp
  have so: "small_ok sm (A(cl := A cl - {x})) ?w ?s"
    by (rule small_okI[of _ _ _ _ "x # fr"]) (use f(1) s(2) xf rc slots_cong[OF ss(1), of sm] in \<open>simp_all add: small_ok_def\<close>)
  have "cinv C (A(cl := A cl - {x})) ?st" by (rule update_ok[OF c s(1,2) ss _ so l2]) (use s(3) in auto)
  moreover have "frame {x} C st C ?st"
    using bigs_put[OF s(1) ss] by (auto simp: frame_def set_cfl_def tc_fields_def unlink_span_def Let_def)
  ultimately show thesis using that run by blast
qed

lemma release_last:
  assumes c: "cinv C A st" and s: "class_span C (heap st) i s" "sizeclass s = cl" "x \<in> slots sm s" and x: "x \<in> A cl" and r: "refcount s = 1"
  obtains C' st' where "ReleaseToSpans ce cl x st = Inr st'" and "cinv C' (A(cl := A cl - {x})) st'" and "frame {x} C st C' st'"
proof -
  let ?l = "central_cache st cl"
  note f = span_facts[OF c s x]
  obtain P where P: "hinv C (heap st) (meta st)" by (rule cinvE[OF c])
  let ?l1 = "if objects s = 0 then let l = unlink_span i ?l in l\<lparr>nonempty_spans := i # nonempty_spans l\<rparr> else ?l"
  let ?l2 = "?l1\<lparr>counter := counter ?l1 + 1\<rparr>" and ?s = "s\<lparr>refcount := 0\<rparr>"
  have ss: "same_span s ?s" "location ?s = IN_USE" using class_spanD(3)[OF s(1)] by (simp_all add: same_span_def)
  have u: "(i, s) \<in> used (heap st)" using class_spanD[OF s(1)] by simp
  have h1: "hinv C (put_span i ?s (heap st)) (meta st)" by (rule hinv_put[OF P u ss])
  obtain j where j: "C i = Some j" using s(1) by (auto simp: class_span_def)
  have us: "used (put_span i ?s (heap st)) = insert (i, ?s) (used (heap st) - {(i, s)})" by (rule used_put[OF u ss(2)])
  then have u1: "(i, ?s) \<in> used (put_span i ?s (heap st))" by simp
  obtain h1 m hf t where g: "detach_metadata ce i (put_span i ?s (heap st), meta st) = Inr (h1, m)"
    "Delete (c_env ce) (c_flags ce) (c_fuel ce) i h1 = Inr hf" "hinv (C(i := None)) hf m" "(j, t) \<in> used (put_span i ?s (heap st))"
    "used hf = used (put_span i ?s (heap st)) - {(i, ?s), (j, t)}" "pagemap_cache hf = pagemap_cache (put_span i ?s (heap st))"
    by (rule give_back[OF h1 j u1]) (rule that)
  have uf: "used hf = used (heap st) - {(i, s), (j, t)}" unfolding g(5) us using used_fun[OF u] by blast
  let ?l3 = "?l2\<lparr>counter := counter ?l2 - int (len s * 2 ^ kPageShift div class_to_size sm (sizeclass s))\<rparr>"
  let ?l4 = "(unlink_span i ?l3)\<lparr>num_spans := num_spans ?l3 - 1\<rparr>"
  let ?st = "set_cfl cl ?l4 (st\<lparr>heap := hf, meta := m\<rparr>)"
  have run: "ReleaseToSpans ce cl x st = Inr ?st"
    using r f(5,7) span_of_object[OF c s(1,3)] class_spanD(2)[OF s(1)] mode g(1,2) s(2) unfolding ReleaseToSpans_def Let_def get_span_def
    by (simp add: Let_def)
  obtain y where "slots sm s \<inter> A cl = {y}" using r f(3) by (auto simp: card_1_singleton_iff)
  then have xy: "slots sm s \<inter> A cl = {x}" using x s(3) by (metis IntI singletonD)
  have re: "remove1 i (remove1 i (nonempty_spans ?l)) = remove1 i (nonempty_spans ?l)" "remove1 i (remove1 i (empty_spans ?l)) = remove1 i (empty_spans ?l)"
    using f(2) by (simp_all add: remove1_idem list_ok_def)
  have pc: "pagemap_cache hf = pagemap_cache (heap st)" using g(6) by simp
  have cl: "cl < kNumClasses" "len s = class_to_pages sm cl" using f(1) s(2) by (simp_all add: small_ok_def)
  have "cinv (C(i := None)) (A(cl := A cl - {x})) ?st \<and> bigs (C(i := None)) hf = bigs C (heap st)"
    by (rule drop_ok[OF c s(1,2) cl(1) xy g(3) uf pc j])
      (use f(2) re cl s(2) in \<open>simp_all add: unlink_span_def Let_def list_ok_def per_span_def\<close>)
  moreover from this have "frame {x} C st (C(i := None)) ?st"
    by (auto simp: frame_def set_cfl_def tc_fields_def unlink_span_def Let_def)
  ultimately show thesis using that run by blast
qed

lemma ReleaseToSpans_ok:
  assumes c: "cinv C A st" and x: "x \<in> A cl"
  obtains C' st' where "ReleaseToSpans ce cl x st = Inr st'" and "cinv C' (A(cl := A cl - {x})) st'" and "frame {x} C st C' st'"
proof -
  obtain i s where s: "class_span C (heap st) i s" "sizeclass s = cl" "x \<in> slots sm s" by (rule object_span[where x = x, OF c x])
  show thesis
  proof (cases "refcount s = 1")
    case True
    show thesis by (rule release_last[OF c s x True]) (rule that)
  next
    case False
    show thesis by (rule release_keep[OF c s x False]) (rule that)
  qed
qed

lemma release_list_ok:
  assumes "cinv C A st" and "sll (objs st) f xs" and "set xs \<subseteq> A cl" and "length xs < fu"
  shows "\<exists>C' st'. release_list ce fu cl f st = Inr st' \<and> cinv C' (A(cl := A cl - set xs)) st' \<and> frame (set xs) C st C' st'"
  using assms
proof (induction xs arbitrary: fu f C A st)
  case Nil
  then show ?case using frame_refl by (cases fu) auto
next
  case (Cons x xs)
  obtain k where fu: "fu = Suc k" using Cons.prems(4) by (cases fu) auto
  have x: "f = x" "x \<noteq> 0" "sll (objs st) (objs st x) xs" "x \<in> A cl" using Cons.prems(2,3) by auto
  have d: "x \<notin> set xs" using sll_distinct[OF Cons.prems(2)] by simp
  obtain C1 st1 where r: "ReleaseToSpans ce cl x st = Inr st1" "cinv C1 (A(cl := A cl - {x})) st1" "frame {x} C st C1 st1"
    by (rule ReleaseToSpans_ok[OF Cons.prems(1) x(4)])
  have s1: "sll (objs st1) (objs st x) xs" by (rule frame_sll[OF r(3) x(3)]) (use d in simp)
  have sub: "set xs \<subseteq> (A(cl := A cl - {x})) cl" using Cons.prems(3) d by auto
  obtain C2 st2 where q: "release_list ce k cl (objs st x) st1 = Inr st2"
    "cinv C2 (A(cl := A cl - {x}, cl := (A(cl := A cl - {x})) cl - set xs)) st2" "frame (set xs) C1 st1 C2 st2"
    using Cons.IH[OF r(2) s1 sub] Cons.prems(4) fu by (metis Suc_less_SucD length_Cons)
  have "A(cl := A cl - {x}, cl := (A(cl := A cl - {x})) cl - set xs) = A(cl := A cl - set (x # xs))"
    by (rule ext) auto
  then have "cinv C2 (A(cl := A cl - set (x # xs))) st2" using q(2) by simp
  moreover have "frame (set (x # xs)) C st C2 st2" by (rule frame_trans[OF r(3) q(3)]) simp
  moreover have "release_list ce fu cl f st = Inr st2" using fu x(1,2) r(1) q(1) by (simp add: SLL_Next_def)
  ultimately show ?case by blast
qed

text \<open>A list of objects is shorter than the address space.\<close>

lemma objects_fuel:
  assumes c: "cinv C A st" and "set xs \<subseteq> A cl" and "distinct xs" shows "length xs < c_fuel ce"
proof -
  obtain P where P: "inv {} P (heap st)" by (rule cinvE[OF c])
  have "set xs \<subseteq> {1..2 ^ 48 - 1}"
  proof
    fix x assume "x \<in> set xs"
    then have x: "x \<in> A cl" using assms(2) by blast
    obtain i s where s: "class_span C (heap st) i s" "sizeclass s = cl" "x \<in> slots sm s" by (rule object_span[where x = x, OF c x])
    have "span_fits s" by (rule used_fits[OF P class_spanD(1)[OF s(1)]])
    then have "(start s + len s) * 2 ^ kPageShift \<le> 2 ^ 35 * 2 ^ kPageShift" by (intro mult_right_mono) (simp_all add: span_fits_def)
    moreover have "0 < class_to_size sm (sizeclass s)" using class_size(2)[OF c s(1)] .
    ultimately have "x < 2 ^ 48" using slot_end(2)[OF s(3)] by (simp add: kPageShift_def)
    then show "x \<in> {1..2 ^ 48 - 1}" using span_facts(6)[OF c s x] by simp
  qed
  then have "card (set xs) \<le> card {1..2 ^ 48 - 1 :: nat}" by (rule card_mono[rotated]) simp
  then show ?thesis using fuel distinct_card[OF assms(3)] by simp
qed

lemma ReleaseListToSpans_ok:
  assumes "cinv C A st" and "sll (objs st) f xs" and "set xs \<subseteq> A cl"
  shows "\<exists>C' st'. ReleaseListToSpans ce cl f st = Inr st' \<and> cinv C' (A(cl := A cl - set xs)) st' \<and> frame (set xs) C st C' st'"
  unfolding ReleaseListToSpans_def
  by (rule release_list_ok[OF assms objects_fuel[OF assms(1,3) sll_distinct[OF assms(2)]]])

lemma cinv_heap:
  assumes c: "cinv C A st" and h: "hinv C h' m'" and u: "\<And>i s. i \<in> dom C \<Longrightarrow> (i, s) \<in> used h' \<longleftrightarrow> (i, s) \<in> used (heap st)"
    and pc: "pagemap_cache h' = pagemap_cache (heap st)"
  shows "cinv C A (st\<lparr>heap := h', meta := m'\<rparr>)" and "frame X C st C (st\<lparr>heap := h', meta := m'\<rparr>)"
proof -
  have cs: "class_span C h' = class_span C (heap st)" using u unfolding class_span_def fun_eq_iff by blast
  have g: "GetSizeClassIfCached p h' = GetSizeClassIfCached p (heap st)" for p using pc by (simp add: GetSizeClassIfCached_def)
  have sc: "sizes_cached C h' = sizes_cached C (heap st)" unfolding sizes_cached_def g using u by blast
  have "objs_ok sm C A (st\<lparr>heap := h', meta := m'\<rparr>) = objs_ok sm C A st"
    by (simp add: objs_ok_def sc cs class_objs_def list_ok_def)
  then show "cinv C A (st\<lparr>heap := h', meta := m'\<rparr>)" using c h by (simp add: cinv_def)
  have "bigs C h' = bigs C (heap st)" using u by (auto simp: bigs_def)
  then show "frame X C st C (st\<lparr>heap := h', meta := m'\<rparr>)" by (simp add: frame_def)
qed

text \<open>A new span of free objects joins a class.\<close>

lemma list_ok_grow:
  assumes L: "list_ok sm C B h d (cc d)" and cs: "\<And>k u. class_span C' h' k u \<longleftrightarrow> k = i \<and> u = s \<or> class_span C h k u"
    and ni: "\<And>k u. class_span C h k u \<Longrightarrow> k \<noteq> i" and s: "sizeclass s = cl" "objects s \<noteq> 0"
    and l: "l = (cc cl)\<lparr>nonempty_spans := i # nonempty_spans (cc cl), num_spans := num_spans (cc cl) + 1,
       counter := counter (cc cl) + int (per_span sm cl)\<rparr>"
  shows "list_ok sm C' B h' d (if d = cl then l else cc d)"
proof -
  have e: "(\<exists>u. class_span C' h' k u \<and> sizeclass u = d \<and> Q u) \<longleftrightarrow> (k = i \<and> d = cl \<and> Q s \<or> (\<exists>u. class_span C h k u \<and> sizeclass u = d \<and> Q u))" for k Q
    unfolding cs using s(1) by blast
  have n: "i \<notin> set (nonempty_spans (cc d))" using L ni unfolding list_ok_def by blast
  show ?thesis
  proof (cases "d = cl")
    case True
    then show ?thesis using L n s(2) unfolding list_ok_def e l by (auto simp: algebra_simps)
  next
    case False
    then show ?thesis using L unfolding list_ok_def e by simp
  qed
qed

lemma grow_cached:
  assumes P': "inv {} P' h'" and c: "sizes_cached C h" and i: "(i, s) \<in> used h'"
    and us: "\<And>k u. k \<in> dom C' \<and> (k, u) \<in> used h' \<longleftrightarrow> k = i \<and> u = s \<or> k \<noteq> i \<and> k \<in> dom C \<and> (k, u) \<in> used h" and s: "sizeclass s = cl"
    and pc: "\<And>q. q < 2 ^ 35 \<Longrightarrow> GetSizeClassIfCached q h' = 0 \<or> GetSizeClassIfCached q h' = (if q \<in> pg s then cl else GetSizeClassIfCached q h)"
  shows "sizes_cached C' h'"
proof (unfold sizes_cached_def, intro allI impI)
  fix k u q assume k: "k \<in> dom C'" "(k, u) \<in> used h'" and q: "q \<in> (if sizeclass u = 0 then {start u} else pg u)"
  have q': "q \<in> pg u" using q spans_okD(2)[OF invD(1)[OF P'] conjunct1[OF usedD[OF k(2)]]] by (auto simp: pg_def split: if_splits)
  then have q35: "q < 2 ^ 35" using used_fits[OF P' k(2)] by (simp add: span_fits_def pg_def)
  show "GetSizeClassIfCached q h' = 0 \<or> GetSizeClassIfCached q h' = sizeclass u"
  proof (cases "k = i")
    case True
    then show ?thesis using us[of k u] k pc[OF q35] q' s by auto
  next
    case False
    then have "k \<in> dom C" "(k, u) \<in> used h" using us[of k u] k by blast+
    then have "GetSizeClassIfCached q h = 0 \<or> GetSizeClassIfCached q h = sizeclass u" using c q unfolding sizes_cached_def by blast
    moreover have "q \<notin> pg s"
      using spans_ok_disj[OF invD(1)[OF P'] conjunct1[OF usedD[OF k(2)]] conjunct1[OF usedD[OF i]] False] q' by blast
    ultimately show ?thesis using pc[OF q35] by auto
  qed
qed

lemma grow_ok:
  assumes c: "cinv C A st" and cl: "0 < cl" "cl < kNumClasses" and h: "hinv (C(i \<mapsto> j)) h' m'"
    and i: "i \<notin> dom C" "j \<notin> dom C" "i \<noteq> j" "(i, s) \<in> used h'" and u: "\<And>k u. k \<noteq> i \<Longrightarrow> k \<noteq> j \<Longrightarrow> (k, u) \<in> used h' \<longleftrightarrow> (k, u) \<in> used (heap st)"
    and s: "sizeclass s = cl" "len s = class_to_pages sm cl" "refcount s = 0" "sll w (objects s) fr" "set fr = slots sm s"
    and w: "\<And>x. x \<notin> slots sm s \<Longrightarrow> w x = objs st x"
    and pc: "\<And>q. q < 2 ^ 35 \<Longrightarrow> GetSizeClassIfCached q h' = 0 \<or> GetSizeClassIfCached q h' = (if q \<in> pg s then cl else GetSizeClassIfCached q (heap st))"
    and l: "l = (central_cache st cl)\<lparr>nonempty_spans := i # nonempty_spans (central_cache st cl), num_spans := num_spans (central_cache st cl) + 1,
       counter := counter (central_cache st cl) + int (per_span sm cl)\<rparr>"
  shows "cinv (C(i \<mapsto> j)) A (set_cfl cl l (st\<lparr>heap := h', meta := m', objs := w\<rparr>)) \<and>
    frame (slots sm s) C st (C(i \<mapsto> j)) (set_cfl cl l (st\<lparr>heap := h', meta := m', objs := w\<rparr>)) \<and> (\<forall>c. slots sm s \<inter> A c = {})"
proof -
  let ?C = "C(i \<mapsto> j)" and ?h = "heap st" and ?l = "central_cache st cl"
  obtain P where P: "inv {} P ?h" "hinv C ?h (meta st)" "objs_ok sm C A st" by (rule cinvE[OF c])
  obtain P' where P': "inv {} P' h'" by (rule hinvE[OF h])
  have cs0: "0 < class_to_size sm cl" using sizes[OF cl] by (simp add: class_ok_def)
  have us: "k \<in> dom ?C \<and> (k, u) \<in> used h' \<longleftrightarrow> k = i \<and> u = s \<or> k \<noteq> i \<and> k \<in> dom C \<and> (k, u) \<in> used ?h" for k u
  proof (cases "k = i")
    case True
    then show ?thesis using i(4) used_fun[OF i(4), of u] by auto
  next
    case False
    then show ?thesis using u[OF False, of u] i(2) by (cases "k = j") auto
  qed
  have ni: "k \<noteq> i" if "class_span C ?h k u" for k u using that i(1) by (auto simp: class_span_def)
  have cs: "class_span ?C h' k u \<longleftrightarrow> k = i \<and> u = s \<or> class_span C ?h k u" for k u
    unfolding class_span_def using us[of k u] s(1) cl(1) i(1) by auto
  have dis: "slots sm s \<inter> slots sm u = {}" if ku: "class_span C ?h k u" for k u
  proof -
    have ku': "class_span ?C h' k u" using cs ku by blast
    have "pg s \<inter> pg u = {}"
      using spans_ok_disj[OF invD(1)[OF P'] conjunct1[OF usedD[OF i(4)]] class_spanD(2)[OF ku']] ni[OF ku] by blast
    then show ?thesis using slot_page[of _ sm s] slot_page[OF _ class_size(2)[OF c ku]] cs0 s(1) by blast
  qed
  have dA: "slots sm s \<inter> A d = {}" for d using P(3) dis unfolding objs_ok_def class_objs_def by blast
  have 1: "small_ok sm A w u" if ku: "class_span ?C h' k u" for k u
  proof (cases "k = i")
    case True
    then have "u = s" using cs[of k u] ku ni[of k u] by blast
    then show ?thesis using small_okI[of s sm A w fr] s dA[of cl] cl by (simp add: Diff_triv Int_commute)
  next
    case False
    then have ku': "class_span C ?h k u" using cs[of k u] ku by simp
    then have so: "small_ok sm A (objs st) u" using P(3) by (simp add: objs_ok_def)
    then obtain g where g: "sll (objs st) (objects u) g" "set g = slots sm u - A (sizeclass u)" by (auto simp: small_ok_def)
    have "\<forall>x\<in>set g. w x = objs st x" using w dis[OF ku'] g(2) by blast
    then have "sll w (objects u) g" using sll_frame g(1) by blast
    then show ?thesis using small_okI[of u sm A w g] so g(2) by (simp add: small_ok_def)
  qed
  have 2: "A d \<subseteq> class_objs sm ?C h' d \<and> finite (A d)" for d
  proof -
    have "A d \<subseteq> class_objs sm C ?h d" "finite (A d)" using P(3) by (simp_all add: objs_ok_def)
    moreover have "class_objs sm C ?h d \<subseteq> class_objs sm ?C h' d" unfolding class_objs_def cs by blast
    ultimately show ?thesis by blast
  qed
  have "card (slots sm s) \<noteq> 0" using card_slots[of sm s] cs0 s(1,2) per_span_pos[OF sizes[OF cl]] by simp
  then have fr: "fr \<noteq> []" using s(5) by (metis card.empty list.set(1))
  then have o: "objects s \<noteq> 0" using sll_head[OF s(4)] by simp
  have "list_ok sm ?C (A d) h' d (if d = cl then l else central_cache st d)" if d: "0 < d" "d < kNumClasses" for d
  proof -
    have L: "list_ok sm C (A d) ?h d (central_cache st d)" using P(3) d by (simp add: objs_ok_def)
    show ?thesis by (rule list_ok_grow[OF L cs ni s(1) o l])
  qed
  then have 3: "\<forall>d. 0 < d \<and> d < kNumClasses \<longrightarrow> list_ok sm ?C (A d) h' d (((central_cache st)(cl := l)) d)" by simp
  have 4: "sizes_cached ?C h'" by (rule grow_cached[OF P' _ i(4) us s(1) pc]) (use P(3) in \<open>simp add: objs_ok_def\<close>)
  have "(k, u) \<in> bigs ?C h' \<longleftrightarrow> (k, u) \<in> bigs C ?h" for k u
    unfolding bigs_def mem_Collect_eq prod.case using us[of k u] s(1) cl(1) i(1) by auto
  then have "bigs ?C h' = bigs C ?h" by auto
  then show ?thesis using 1 2 3 4 h dA w l by (simp add: cinv_def objs_ok_def set_cfl_def frame_def tc_fields_def)
qed

definition acquired :: "(nat \<rightharpoonup> nat) \<Rightarrow> 'w pageheap \<Rightarrow> nat \<Rightarrow> nat \<times> 'w pageheap \<times> metalloc \<Rightarrow> bool" where
  "acquired C h cl r \<longleftrightarrow> (case r of (i, h', m') \<Rightarrow> pagemap_cache h' = pagemap_cache h \<and>
     (if i = 0 then hinv C h' m' \<and> used h' = used h
      else \<exists>j s t. hinv (C(i \<mapsto> j)) h' m' \<and> i \<notin> fst ` used h \<and> j \<notin> fst ` used h \<and> i \<noteq> j \<and>
        len s = class_to_pages sm cl \<and> sizeclass s = cl \<and> used h' = insert (j, t) (insert (i, s) (used h))))"

lemma acquiredI:
  "pagemap_cache h' = pagemap_cache h \<Longrightarrow> i \<noteq> 0 \<Longrightarrow> hinv (C(i \<mapsto> j)) h' m' \<Longrightarrow> i \<notin> fst ` used h \<Longrightarrow> j \<notin> fst ` used h \<Longrightarrow> i \<noteq> j \<Longrightarrow>
     len s = class_to_pages sm cl \<Longrightarrow> sizeclass s = cl \<Longrightarrow> used h' = insert (j, t) (insert (i, s) (used h)) \<Longrightarrow> acquired C h cl (i, h', m')"
  unfolding acquired_def by auto

lemma acquire_ok:
  assumes C: "hinv C h m" and cl: "0 < cl" "cl < kNumClasses" and P1: "inv {} P1 h1" and al: "allocated (class_to_pages sm cl) h i h1"
  shows "outcome (if i \<noteq> 0 then
       bindR (RegisterSizeClass i cl h1) (\<lambda>h. bindR (page_table_init (c_config ce) (c_mmap ce) m) (\<lambda>m.
         if \<not> fixedCompression (c_config ce) then
           bindR (AlignmentBitsForSize (class_to_size sm cl)) (\<lambda>alignment. attach_metadata ce alignment i (h, m))
         else Inr (i, h, m)))
     else Inr (0, h1, m)) (acquired C h cl)"
proof (cases "i = 0")
  case True
  then have k: "keeps h h1" using al by (simp add: allocated_def)
  have "hinv C h1 m" by (rule hinv_heap[OF C P1]) (use k same_span_refl in \<open>auto simp: keeps_def\<close>)
  then show ?thesis using True k by (simp add: acquired_def keeps_def)
next
  case False
  obtain s where s: "len s = class_to_pages sm cl" "i \<notin> fst ` used h" "used h1 = insert (i, s) (used h)"
    and pm1: "\<forall>j t p. (j, t) \<in> used h \<longrightarrow> p \<in> pg t \<longrightarrow> pagemap h1 p = pagemap h p" and pc: "pagemap_cache h1 = pagemap_cache h"
    using al False by (auto simp: allocated_def)
  let ?s = "s\<lparr>sizeclass := cl\<rparr>"
  have u1: "(i, s) \<in> used h1" using s(3) by simp
  obtain h2 where h2: "RegisterSizeClass i cl h1 = Inr h2" "inv {} P1 h2" "used h2 = insert (i, ?s) (used h1 - {(i, s)})"
    "\<forall>p\<in>pg s. pagemap h2 p = i" "\<forall>p. p \<notin> pg s \<longrightarrow> pagemap h2 p = pagemap h1 p" "bal h2 = bal h1"
    "aggressive_decommit h2 = aggressive_decommit h1" "pagemap_cache h2 = pagemap_cache h1"
    by (rule RegisterSizeClass_ok[OF P1 u1, of cl]) (rule that)
  have u2: "used h2 = insert (i, ?s) (used h)" unfolding h2(3) s(3) using s(2) by force
  have C2: "hinv C h2 m"
  proof (rule hinv_heap[OF C h2(2)])
    fix k u assume k: "(k, u) \<in> used h"
    have "k \<noteq> i" using k s(2) by force
    then have "pg u \<inter> pg s = {}"
      using spans_ok_disj[OF invD(1)[OF P1], of k u i s] usedD[of k u h1] usedD[OF u1] s(3) k by blast
    then have "\<forall>p\<in>pg u. pagemap h2 p = pagemap h p" using h2(5) pm1 k by auto
    then show "\<exists>u'. (k, u') \<in> used h2 \<and> same_span u u' \<and> (\<forall>p\<in>pg u. pagemap h2 p = pagemap h p)" using u2 k same_span_refl by blast
  qed
  have iC: "i \<notin> dom C \<union> ran C" using C_used[OF C] s(2) by blast
  obtain a where a: "AlignmentBitsForSize (class_to_size sm cl) = Inr a" using AlignmentBitsForSize_eq by blast
  have at: "outcome (attach_metadata ce a i (h2, m)) (\<lambda>(r, h', m').
    (\<forall>j t p. (j, t) \<in> used h2 \<longrightarrow> (j, t) \<in> used h' \<longrightarrow> p \<in> pg t \<longrightarrow> pagemap h' p = pagemap h2 p) \<and> pagemap_cache h' = pagemap_cache h2 \<and>
    (if r = 0 then hinv C h' m' \<and> used h' = used h2 - {(i, ?s)}
     else r = i \<and> (\<exists>j t. hinv (C(i \<mapsto> j)) h' m' \<and> j \<notin> fst ` used h2 \<and> used h' = insert (j, t) (used h2))))"
    by (rule attach_ok[OF C2 _ iC]) (use u2 a cl h2(4) in \<open>auto simp: align_of_def pg_def\<close>)
  have "outcome (attach_metadata ce a i (h2, m)) (acquired C h cl)"
  proof (rule outcome_mono[OF at], clarify)
    fix r h' m' assume pc': "pagemap_cache h' = pagemap_cache h2"
      and q: "if r = 0 then hinv C h' m' \<and> used h' = used h2 - {(i, ?s)}
        else r = i \<and> (\<exists>j t. hinv (C(i \<mapsto> j)) h' m' \<and> j \<notin> fst ` used h2 \<and> used h' = insert (j, t) (used h2))"
    show "acquired C h cl (r, h', m')"
    proof (cases "r = 0")
      case True
      have "(i, ?s) \<notin> used h" using s(2) by force
      then show ?thesis using True q u2 pc pc' h2(8) by (auto simp: acquired_def)
    next
      case False
      then obtain j t where j: "r = i" "hinv (C(i \<mapsto> j)) h' m'" "j \<notin> fst ` used h2" "used h' = insert (j, t) (used h2)" using q by auto
      have "j \<noteq> i" "j \<notin> fst ` used h" using j(3) u2 by auto
      then show ?thesis unfolding j(1)
        by (intro acquiredI[OF _ \<open>i \<noteq> 0\<close> j(2) s(2), of ?s _ t]) (use j s(1) u2 pc pc' h2(8) in simp_all)
    qed
  qed
  moreover have "page_table_init (c_config ce) (c_mmap ce) m = Inr m" using C by (simp add: hinv_def page_table_init_def)
  ultimately show ?thesis using False h2(1) a mode by simp
qed

lemma acquired_span:
  assumes c: "cinv C A st" and cl: "0 < cl" "cl < kNumClasses" and acq: "acquired C (heap st) cl (i, h, m)" "i \<noteq> 0"
  obtains s j t where "spans h i = Some s" and "(i, s) \<in> used h" and "len s = class_to_pages sm cl" and "sizeclass s = cl" and "span_fits s"
    and "hinv (C(i \<mapsto> j)) h m" and "i \<notin> fst ` used (heap st)" "j \<notin> fst ` used (heap st)" "i \<noteq> j" "used h = insert (j, t) (insert (i, s) (used (heap st)))"
proof -
  obtain j s t where j: "hinv (C(i \<mapsto> j)) h m" "i \<notin> fst ` used (heap st)" "j \<notin> fst ` used (heap st)" "i \<noteq> j"
    "len s = class_to_pages sm cl" "sizeclass s = cl" "used h = insert (j, t) (insert (i, s) (used (heap st)))" using acq by (auto simp: acquired_def)
  obtain P where P: "inv {} P h" by (rule hinvE[OF j(1)])
  have u: "(i, s) \<in> used h" using j(7) by simp
  show thesis by (rule that[of s j t, OF conjunct1[OF usedD[OF u]] u j(5,6) used_fits[OF P u] j(1-4,7)])
qed

lemma cache_classes_inv: "inv {} P h \<Longrightarrow> inv {} P (cache_classes p n cl h)"
  by (induction p n cl h rule: cache_classes.induct) (simp_all add: inv_fields(1))

lemma fill_ok:
  assumes c: "cinv C A st" and cl: "0 < cl" "cl < kNumClasses" and acq: "acquired C (heap st) cl (i, h, m)" "i \<noteq> 0"
  shows "outcome (bindR (get_span h i) (\<lambda>s.
      bindR (cut_span (c_fuel ce) (class_to_size sm cl) (start s * 2 ^ kPageShift + class_to_pages sm cl * 2 ^ kPageShift)
               (start s * 2 ^ kPageShift) None 0 (objects s, objs st)) (\<lambda>(num, first, os).
        Inr (set_cfl cl ((central_cache st cl)\<lparr>nonempty_spans := i # nonempty_spans (central_cache st cl),
               num_spans := num_spans (central_cache st cl) + 1, counter := counter (central_cache st cl) + int num\<rparr>)
          (st\<lparr>heap := put_span i (s\<lparr>objects := first, refcount := 0\<rparr>) (cache_classes (start s) (class_to_pages sm cl) cl h), meta := m, objs := os\<rparr>)))))
    (\<lambda>st'. \<exists>C' X. cinv C' A st' \<and> frame X C st C' st' \<and> (\<forall>d. X \<inter> A d = {}))"
proof -
  obtain s j t where s: "spans h i = Some s" "(i, s) \<in> used h" "len s = class_to_pages sm cl" "sizeclass s = cl" "span_fits s"
    "hinv (C(i \<mapsto> j)) h m" "i \<notin> fst ` used (heap st)" "j \<notin> fst ` used (heap st)" "i \<noteq> j" "used h = insert (j, t) (insert (i, s) (used (heap st)))"
    by (rule acquired_span[OF c cl acq]) (rule that)
  obtain P tb where P: "inv {} P h" by (rule hinvE[OF s(6)])
  let ?z = "class_to_size sm cl" and ?p = "start s * 2 ^ kPageShift" and ?B = "class_to_pages sm cl * 2 ^ kPageShift" and ?n = "per_span sm cl"
  have co: "class_ok sm cl" by (rule sizes[OF cl])
  have z: "0 < ?z" "?n < c_fuel ce" using co fuel by (auto simp: class_ok_def per_span_def)
  have p0: "0 < ?p" using s(5) by (simp add: span_fits_def)
  have "?n * ?z \<le> ?B" "?B < Suc ?n * ?z" using z(1) dividend_less_div_times[of ?z ?B] by (auto simp: per_span_def)
  then obtain f w where cut: "cut_span (c_fuel ce) ?z (?p + ?B) ?p None 0 (objects s, objs st) = Inr (?n, f, w)"
    "sll w f (map (\<lambda>k. ?p + k * ?z) [0..<?n])" "\<forall>y. y \<notin> (\<lambda>k. ?p + k * ?z) ` {..<?n} \<longrightarrow> w y = objs st y"
    using cut_span_lst[of ?z ?p ?n "?p + ?B" "c_fuel ce" None 0 "objects s" "objs st"] z p0 by auto
  let ?s = "s\<lparr>objects := f, refcount := 0\<rparr>" and ?h = "cache_classes (start s) (class_to_pages sm cl) cl h"
  have sl: "slots sm ?s = (\<lambda>k. ?p + k * ?z) ` {..<?n}" using s(3,4) by (simp add: slots_def per_span_def)
  have us: "(i, s) \<in> used ?h" using s(2) by simp
  have ss: "same_span s ?s" "location ?s = IN_USE" using usedD[OF s(2)] by (simp_all add: same_span_def)
  have "hinv (C(i \<mapsto> j)) ?h m"
    by (rule hinv_heap[OF s(6) cache_classes_inv[OF P]]) (use same_span_refl in auto)
  then have hp: "hinv (C(i \<mapsto> j)) (put_span i ?s ?h) m" by (rule hinv_put[OF _ us ss])
  have ni: "i \<notin> dom C" "j \<notin> dom C" using C_used s(7,8) c unfolding cinv_def by blast+
  have up: "used (put_span i ?s ?h) = insert (i, ?s) (used h - {(i, s)})" using used_put[OF us ss(2)] by simp
  have u1: "(i, ?s) \<in> used (put_span i ?s ?h)" using up by simp
  have u2: "(k, u) \<in> used (put_span i ?s ?h) \<longleftrightarrow> (k, u) \<in> used (heap st)" if "k \<noteq> i" "k \<noteq> j" for k u using that s(10) up by auto
  have fr: "set (map (\<lambda>k. ?p + k * ?z) [0..<?n]) = slots sm ?s" unfolding sl by (simp add: lessThan_atLeast0)
  have pc: "GetSizeClassIfCached q (put_span i ?s ?h) = 0 \<or>
      GetSizeClassIfCached q (put_span i ?s ?h) = (if q \<in> pg ?s then cl else GetSizeClassIfCached q (heap st))" if "q < 2 ^ 35" for q
  proof -
    have g: "GetSizeClassIfCached q (heap st) = GetSizeClassIfCached q h" using acq(1) by (simp add: acquired_def GetSizeClassIfCached_def)
    have e: "GetSizeClassIfCached q (put_span i ?s ?h) = GetSizeClassIfCached q ?h" by (simp add: GetSizeClassIfCached_def)
    have mem: "q \<in> pg ?s \<longleftrightarrow> start s \<le> q \<and> q < start s + class_to_pages sm cl" using s(3) by (simp add: pg_def)
    show ?thesis unfolding e g mem
      by (rule cache_classes_get) (use that s(3,5) cl(2) in \<open>simp_all add: span_fits_def kNumClasses_def kBaseClasses_def\<close>)
  qed
  have "cinv (C(i \<mapsto> j)) A (set_cfl cl ((central_cache st cl)\<lparr>nonempty_spans := i # nonempty_spans (central_cache st cl),
      num_spans := num_spans (central_cache st cl) + 1, counter := counter (central_cache st cl) + int ?n\<rparr>) (st\<lparr>heap := put_span i ?s ?h, meta := m, objs := w\<rparr>)) \<and>
    frame (slots sm ?s) C st (C(i \<mapsto> j)) (set_cfl cl ((central_cache st cl)\<lparr>nonempty_spans := i # nonempty_spans (central_cache st cl),
      num_spans := num_spans (central_cache st cl) + 1, counter := counter (central_cache st cl) + int ?n\<rparr>) (st\<lparr>heap := put_span i ?s ?h, meta := m, objs := w\<rparr>)) \<and>
    (\<forall>c. slots sm ?s \<inter> A c = {})"
    by (rule grow_ok[OF c cl hp ni s(9) u1 u2 _ _ _ _ fr _ pc refl]) (use s(3,4) cut(2,3) sl in auto)
  then show ?thesis using s(1) cut(1) by (auto simp: get_span_def)
qed

lemma Populate_ok:
  assumes c: "cinv C A st" and cl: "0 < cl" "cl < kNumClasses"
  shows "outcome (Populate ce cl st) (\<lambda>st'. \<exists>C' X. cinv C' A st' \<and> frame X C st C' st' \<and> (\<forall>d. X \<inter> A d = {}))"
proof -
  let ?n = "class_to_pages sm cl"
  obtain P where P: "inv {} P (heap st)" "hinv C (heap st) (meta st)" "objs_ok sm C A st" by (rule cinvE[OF c])
  have co: "class_ok sm cl" by (rule sizes[OF cl])
  have sc: "size_class (central_cache st cl) = cl" using P(3) cl by (simp add: objs_ok_def list_ok_def)
  have n: "0 < ?n" using co by (simp add: class_ok_def)
  obtain a where a: "AlignmentBitsForSize (class_to_size sm cl) = Inr a" using AlignmentBitsForSize_eq by blast
  have pt: "page_table_init (c_config ce) (c_mmap ce) (meta st) = Inr (meta st)"
    using P(2) by (simp add: hinv_def page_table_init_def)
  have acq: "outcome (bindR (if i \<noteq> 0 then bindR (RegisterSizeClass i cl h1) (\<lambda>h. bindR (page_table_init (c_config ce) (c_mmap ce) (meta st)) (\<lambda>m.
         if \<not> fixedCompression (c_config ce) then
           bindR (AlignmentBitsForSize (class_to_size sm cl)) (\<lambda>alignment. attach_metadata ce alignment i (h, m))
         else Inr (i, h, m))) else Inr (0, h1, meta st)) F) Q"
    if "new_post ?n P (heap st) (i, h1)" "\<And>i h m. acquired C (heap st) cl (i, h, m) \<Longrightarrow> outcome (F (i, h, m)) Q" for i h1 F Q
  proof -
    note R = that
    obtain P1 where P1: "inv {} P1 h1" and al: "allocated ?n (heap st) i h1" using R(1) by (auto simp: new_post_def)
    show ?thesis by (rule outcome_bind[OF acquire_ok[OF P(2) cl P1 al]]) (use R(2) in auto)
  qed
  have none: "\<exists>C' X. cinv C' A (st\<lparr>heap := h, meta := m\<rparr>) \<and> frame X C st C' (st\<lparr>heap := h, meta := m\<rparr>) \<and> (\<forall>d. X \<inter> A d = {})"
    if "acquired C (heap st) cl (0, h, m)" for h m
  proof (intro exI conjI)
    have "hinv C h m" "used h = used (heap st)" "pagemap_cache h = pagemap_cache (heap st)" using that by (simp_all add: acquired_def)
    then show "cinv C A (st\<lparr>heap := h, meta := m\<rparr>)" "frame {} C st C (st\<lparr>heap := h, meta := m\<rparr>)" using cinv_heap[OF c] by auto
  qed simp
  show ?thesis unfolding Populate_def Let_def sc
    by (rule outcome_bind[OF New_ok[OF P(1) heap_fuel[OF P(1)] n]], clarify, rule acq, assumption)
      (use none fill_ok[OF c cl] in auto)
qed

end

end
