(* ===== verification/CentralFreeList_Cache.thy ===== *)
theory CentralFreeList_Cache
  imports CentralFreeList_Inv
begin

section \<open>The transfer caches and the laws of the central free lists\<close>

text \<open>
  The transfer caches, and what \<^verbatim>\<open>InsertRange\<close> and \<^verbatim>\<open>RemoveRange\<close> promise their clients.  \<open>T c\<close> is the sequence of lists in the
  transfer cache of class \<open>c\<close>, \<open>U c\<close> the set of objects of class \<open>c\<close> that the clients hold.
\<close>

definition slot_ok :: "SizeMap \<Rightarrow> store \<Rightarrow> nat \<Rightarrow> nat \<times> nat \<Rightarrow> nat list \<Rightarrow> bool" where
  "slot_ok sm w c e xs \<longleftrightarrow> sll w (fst e) xs \<and> xs \<noteq> [] \<and> last xs = snd e \<and> int (length xs) = num_objects_to_move sm c"

definition cache_ok :: "SizeMap \<Rightarrow> store \<Rightarrow> nat \<Rightarrow> cfl \<Rightarrow> nat list list \<Rightarrow> nat set \<Rightarrow> bool" where
  "cache_ok sm w c l ts B \<longleftrightarrow> size_class l = c \<and> length ts = used_slots l \<and> used_slots l \<le> cache_size l \<and> cache_size l \<le> max_cache_size l \<and>
     max_cache_size l \<le> kMaxNumTransferEntries \<and> (c = 0 \<longrightarrow> ts = []) \<and> distinct (concat ts) \<and> set (concat ts) \<inter> B = {} \<and>
     (\<forall>k<length ts. slot_ok sm w c (tc_slots l k) (ts ! k))"

lemma cache_ok_frame:
  assumes "cache_ok sm w c l ts B" and "tc_fields l' = tc_fields l" and "\<And>x. x \<in> set (concat ts) \<Longrightarrow> w' x = w x" and "B' \<subseteq> B"
  shows "cache_ok sm w' c l' ts B'"
proof -
  have s: "slot_ok sm w' c e (ts ! k) = slot_ok sm w c e (ts ! k)" if "k < length ts" for k e
  proof -
    have "\<forall>x\<in>set (ts ! k). w' x = w x" using assms(3) nth_mem[OF that] by auto
    from sll_frame[OF this] show ?thesis unfolding slot_ok_def by simp
  qed
  have f: "tc_slots l' = tc_slots l" "used_slots l' = used_slots l" "cache_size l' = cache_size l" "max_cache_size l' = max_cache_size l"
    "size_class l' = size_class l" using assms(2) by (simp_all add: tc_fields_def)
  have "set (concat ts) \<inter> B' = {}" using assms(1,4) unfolding cache_ok_def by blast
  then show ?thesis using assms(1) s unfolding cache_ok_def f by simp
qed

lemma cache_ok_last:
  assumes "cache_ok sm w c l (ts @ [xs]) B"
  shows "used_slots l = Suc (length ts)" "sll w (fst (tc_slots l (length ts))) xs" "xs \<noteq> []" "last xs = snd (tc_slots l (length ts))"
    "int (length xs) = num_objects_to_move sm c" "set xs \<inter> set (concat ts) = {}" "set xs \<inter> B = {}"
proof -
  have "\<forall>k<length (ts @ [xs]). slot_ok sm w c (tc_slots l k) ((ts @ [xs]) ! k)" using assms unfolding cache_ok_def by blast
  from this[rule_format, of "length ts"] have "slot_ok sm w c (tc_slots l (length ts)) xs" by simp
  then show "sll w (fst (tc_slots l (length ts))) xs" "xs \<noteq> []" "last xs = snd (tc_slots l (length ts))"
    "int (length xs) = num_objects_to_move sm c" by (simp_all add: slot_ok_def)
  show "used_slots l = Suc (length ts)" "set xs \<inter> set (concat ts) = {}" "set xs \<inter> B = {}" using assms by (auto simp: cache_ok_def)
qed

lemma cache_ok_butlast:
  assumes "cache_ok sm w c l (ts @ [xs]) B" and "used_slots l' = length ts" "cache_size l' \<le> max_cache_size l'" "length ts \<le> cache_size l'"
    "max_cache_size l' = max_cache_size l" "tc_slots l' = tc_slots l" "size_class l' = size_class l" "set xs \<inter> set (concat ts) = {}"
    "B' \<subseteq> B \<union> set xs"
  shows "cache_ok sm w c l' ts B'"
proof -
  have a: "\<forall>k<length (ts @ [xs]). slot_ok sm w c (tc_slots l k) ((ts @ [xs]) ! k)" using assms(1) unfolding cache_ok_def by blast
  have "slot_ok sm w c (tc_slots l k) (ts ! k)" if "k < length ts" for k using a[rule_format, of k] that by (simp add: nth_append)
  moreover have "set (concat ts) \<inter> B = {}" using assms(1) by (auto simp: cache_ok_def)
  then have "set (concat ts) \<inter> B' = {}" using assms(8,9) by blast
  ultimately show ?thesis using assms unfolding cache_ok_def by auto
qed

text \<open>The clients' view: nothing they hold is touched.\<close>

definition keep :: "(nat \<Rightarrow> nat set) \<Rightarrow> (nat \<rightharpoonup> nat) \<Rightarrow> 'w central \<Rightarrow> (nat \<rightharpoonup> nat) \<Rightarrow> 'w central \<Rightarrow> bool" where
  "keep U C st C' st' \<longleftrightarrow> (\<forall>c. \<forall>x\<in>U c. objs st' x = objs st x) \<and> bigs C' (heap st') = bigs C (heap st)"

lemma keep_refl [simp]: "keep U C st C st" by (simp add: keep_def)

lemma keep_trans: "keep U C st C' st' \<Longrightarrow> keep U' C' st' C'' st'' \<Longrightarrow> (\<And>c. V c \<subseteq> U c) \<Longrightarrow> (\<And>c. V c \<subseteq> U' c) \<Longrightarrow> keep V C st C'' st''"
  unfolding keep_def by (metis subsetD)

lemma frame_keep: "frame X C st C' st' \<Longrightarrow> (\<And>c. X \<inter> U c = {}) \<Longrightarrow> keep U C st C' st'"
  unfolding frame_def keep_def by blast

lemma keep_sll: "keep U C st C' st' \<Longrightarrow> set xs \<subseteq> U c \<Longrightarrow> sll (objs st) f xs \<Longrightarrow> sll (objs st') f xs"
  using sll_frame[of xs "objs st'" "objs st"] unfolding keep_def by blast

lemma slot_bytes: assumes "x \<in> slots sm s" "z \<in> {x..<x + class_to_size sm (sizeclass s)}" shows "z div 2 ^ kPageShift \<in> pg s"
proof -
  have "start s * 2 ^ kPageShift \<le> z" "z < (start s + len s) * 2 ^ kPageShift" using slot_end[OF assms(1)] assms(2) by auto
  then show ?thesis by (simp add: pg_def div_less_iff_less_mult less_eq_div_iff_mult_less_eq)
qed

context central_env
begin

abbreviation taken_objs :: "(nat \<Rightarrow> nat set) \<Rightarrow> (nat \<Rightarrow> nat list list) \<Rightarrow> nat \<Rightarrow> nat set" where
  "taken_objs U T \<equiv> \<lambda>c. U c \<union> set (concat (T c))"

definition central_inv :: "(nat \<rightharpoonup> nat) \<Rightarrow> (nat \<Rightarrow> nat list list) \<Rightarrow> (nat \<Rightarrow> nat set) \<Rightarrow> 'w central \<Rightarrow> bool" where
  "central_inv C T U st \<longleftrightarrow> cinv C (taken_objs U T) st \<and> (\<forall>c<kNumClasses. cache_ok sm (objs st) c (central_cache st c) (T c) (U c)) \<and>
     (\<forall>c\<ge>kNumClasses. T c = [])"

lemma taken_disjoint:
  assumes c: "cinv C A st" and "c \<noteq> d" shows "A c \<inter> A d = {}"
proof (rule ccontr)
  assume "A c \<inter> A d \<noteq> {}"
  then obtain x where x: "x \<in> A c" "x \<in> A d" by blast
  obtain i s where s: "class_span C (heap st) i s" "sizeclass s = c" "x \<in> slots sm s" by (rule object_span[where x = x, OF c x(1)])
  obtain j t where t: "class_span C (heap st) j t" "sizeclass t = d" "x \<in> slots sm t" by (rule object_span[where x = x, OF c x(2)])
  have "j = i" using slots_other[OF c s(1) t(1)] s(3) t(3) by blast
  then show False using class_span_fun[OF s(1)] t(1,2) s(2) assms(2) by auto
qed

text \<open>Changes that the spans do not notice: of the transfer cache, and of the objects that are out.\<close>

lemma cinv_tc:
  assumes "cinv C A st" and "size_class l = size_class (central_cache st c)" "nonempty_spans l = nonempty_spans (central_cache st c)"
    "empty_spans l = empty_spans (central_cache st c)" "num_spans l = num_spans (central_cache st c)" "counter l = counter (central_cache st c)"
  shows "cinv C A (set_cfl c l st)"
  using assms by (simp add: cinv_def objs_ok_def set_cfl_def list_ok_def)

lemma cinv_objs:
  assumes c: "cinv C A st" and w: "\<And>x. (\<And>c. x \<notin> A c) \<Longrightarrow> w x = objs st x"
  shows "cinv C A (st\<lparr>objs := w\<rparr>)"
proof -
  have "small_ok sm A w s" if s: "class_span C (heap st) i s" for i s
  proof -
    have so: "small_ok sm A (objs st) s" using c s by (simp add: cinv_def objs_ok_def)
    then obtain fr where fr: "sll (objs st) (objects s) fr" "set fr = slots sm s - A (sizeclass s)" by (auto simp: small_ok_def)
    have "w x = objs st x" if x: "x \<in> set fr" for x
    proof (rule w)
      fix d show "x \<notin> A d"
      proof
        assume d: "x \<in> A d"
        obtain j t where t: "class_span C (heap st) j t" "sizeclass t = d" "x \<in> slots sm t" by (rule object_span[where x = x, OF c d])
        have "j = i" using slots_other[OF c s t(1)] t(3) x fr(2) by blast
        then show False using class_span_fun[OF s] t(1,2) d x fr(2) by auto
      qed
    qed
    then have "sll w (objects s) fr" using sll_frame[of fr w "objs st"] fr(1) by blast
    then show ?thesis using small_okI[of s sm A w fr] so fr(2) by (simp add: small_ok_def)
  qed
  then show ?thesis using c by (simp add: cinv_def objs_ok_def)
qed

lemma release_taken:
  assumes c: "cinv C (taken_objs U T) st" and d: "distinct (concat (T t))" "set (concat (T t)) \<inter> U t = {}" and T: "T t = ts @ [xs]"
  shows "(taken_objs U T)(t := taken_objs U T t - set xs) = taken_objs U (T(t := ts))"
  using d T by (auto simp: fun_eq_iff)

lemma evict_ok:
  assumes i: "central_inv C T U st" and t: "t < kNumClasses" and z: "cache_size (central_cache st t) \<noteq> 0"
    "used_slots (central_cache st t) = cache_size (central_cache st t)"
  shows "\<exists>C' T' st'. ReleaseListToSpans ce t (fst (tc_slots (central_cache st t) (used_slots (central_cache st t) - 1)))
      (set_cfl t ((central_cache st t)\<lparr>cache_size := cache_size (central_cache st t) - 1, used_slots := used_slots (central_cache st t) - 1\<rparr>) st) = Inr st' \<and>
    central_inv C' T' U st' \<and> keep U C st C' st'"
proof -
  let ?l = "central_cache st t" and ?A = "taken_objs U T"
  have c: "cinv C ?A st" and k: "cache_ok sm (objs st) t ?l (T t) (U t)" using i t by (auto simp: central_inv_def)
  let ?l' = "?l\<lparr>cache_size := cache_size ?l - 1, used_slots := used_slots ?l - 1\<rparr>"
  have "T t \<noteq> []" using k z by (auto simp: cache_ok_def)
  then obtain ts xs where T: "T t = ts @ [xs]" by (metis rev_exhaust)
  note kl = cache_ok_last[OF k[unfolded T]]
  have xs: "sll (objs st) (fst (tc_slots ?l (used_slots ?l - 1))) xs" using kl(1,2) by simp
  have c1: "cinv C ?A (set_cfl t ?l' st)" by (rule cinv_tc[OF c]) simp_all
  have o1: "objs (set_cfl t ?l' st) = objs st" by (simp add: set_cfl_def)
  have xs1: "sll (objs (set_cfl t ?l' st)) (fst (tc_slots ?l (used_slots ?l - 1))) xs" unfolding o1 by (rule xs)
  have sub: "set xs \<subseteq> ?A t" using T by auto
  obtain C' st' where r: "ReleaseListToSpans ce t (fst (tc_slots ?l (used_slots ?l - 1))) (set_cfl t ?l' st) = Inr st'"
    "cinv C' (?A(t := ?A t - set xs)) st'" "frame (set xs) C (set_cfl t ?l' st) C' st'"
    using ReleaseListToSpans_ok[OF c1 xs1 sub] by blast
  have eq: "?A(t := ?A t - set xs) = taken_objs U (T(t := ts))" by (rule release_taken[OF c _ _ T]) (use k in \<open>auto simp: cache_ok_def\<close>)
  have "cache_ok sm (objs st') d (central_cache st' d) ((T(t := ts)) d) (U d)" if d: "d < kNumClasses" for d
  proof -
    have kd: "cache_ok sm (objs st) d (central_cache st d) (T d) (U d)" using i d by (simp add: central_inv_def)
    then have k': "cache_ok sm (objs st) d (central_cache (set_cfl t ?l' st) d) ((T(t := ts)) d) (U d)"
      using cache_ok_butlast[OF k[unfolded T], of ?l' "U t"] T z kl(1,6) k by (auto simp: cache_ok_def set_cfl_def)
    have "set xs \<inter> set (concat ((T(t := ts)) d)) = {}"
    proof (cases "d = t")
      case True
      then show ?thesis using k T by (auto simp: cache_ok_def)
    next
      case False
      then show ?thesis using taken_disjoint[OF c, of d t] T by auto
    qed
    then show ?thesis using r(3) unfolding frame_def o1 by (intro cache_ok_frame[OF k']) auto
  qed
  moreover have "\<forall>c\<ge>kNumClasses. (T(t := ts)) c = []" using i t by (simp add: central_inv_def)
  ultimately have "central_inv C' (T(t := ts)) U st'" using r(2) unfolding eq central_inv_def by blast
  moreover have "keep U (C) (set_cfl t ?l' st) C' st'"
  proof (rule frame_keep[OF r(3)])
    fix d show "set xs \<inter> U d = {}"
      using taken_disjoint[OF c, of d t] T k by (cases "d = t") (auto simp: cache_ok_def)
  qed
  then have "keep U C st C' st'" by (simp add: keep_def set_cfl_def)
  ultimately show ?thesis using r(1) by blast
qed

lemma ShrinkCache_ok:
  assumes i: "central_inv C T U st" and t: "t < kNumClasses"
  shows "\<exists>b C' T' st'. ShrinkCache ce t force st = Inr (b, st') \<and> central_inv C' T' U st' \<and> keep U C st C' st'"
proof -
  let ?l = "central_cache st t" and ?A = "taken_objs U T"
  have c: "cinv C ?A st" and k: "cache_ok sm (objs st) t ?l (T t) (U t)" using i t by (auto simp: central_inv_def)
  consider "cache_size ?l = 0 \<or> \<not> force \<and> used_slots ?l = cache_size ?l" | "cache_size ?l \<noteq> 0" "used_slots ?l \<noteq> cache_size ?l"
    | "cache_size ?l \<noteq> 0" "used_slots ?l = cache_size ?l" "force" by blast
  then show ?thesis
  proof cases
    case 1
    then show ?thesis using i by (auto simp: ShrinkCache_def Let_def)
  next
    case 2
    let ?l' = "?l\<lparr>cache_size := cache_size ?l - 1\<rparr>"
    have "cinv C ?A (set_cfl t ?l' st)" by (rule cinv_tc[OF c]) simp_all
    moreover have "cache_ok sm (objs st) t ?l' (T t) (U t)" using k 2 by (auto simp: cache_ok_def)
    ultimately have "central_inv C T U (set_cfl t ?l' st)" using i by (auto simp: central_inv_def set_cfl_def)
    moreover have "keep U C st C (set_cfl t ?l' st)" by (simp add: keep_def set_cfl_def)
    ultimately show ?thesis using 2 by (auto simp: ShrinkCache_def Let_def)
  next
    case 3
    obtain C' T' st' where r: "ReleaseListToSpans ce t (fst (tc_slots ?l (used_slots ?l - 1)))
        (set_cfl t (?l\<lparr>cache_size := cache_size ?l - 1, used_slots := used_slots ?l - 1\<rparr>) st) = Inr st'" "central_inv C' T' U st'" "keep U C st C' st'"
      using evict_ok[OF i t 3(1,2)] by blast
    have "ShrinkCache ce t force st = Inr (True, st')" using 3 r(1) by (simp add: ShrinkCache_def Let_def)
    then show ?thesis using r(2,3) by blast
  qed
qed

lemma central_race: "central_inv C T U (st\<lparr>race_counter := n\<rparr>) = central_inv C T U st" "keep U C (st\<lparr>race_counter := n\<rparr>) C' st' = keep U C st C' st'"
  by (simp_all add: central_inv_def cinv_def objs_ok_def keep_def)

lemma EvictRandomSizeClass_ok:
  assumes i: "central_inv C T U st"
  shows "\<exists>b C' T' st'. EvictRandomSizeClass ce cl force st = Inr (b, st') \<and> central_inv C' T' U st' \<and> keep U C st C' st'"
proof -
  let ?t = "race_counter st"
  have z: "?t mod kNumClasses < kNumClasses" by (simp add: kNumClasses_def)
  obtain t n where e: "EvictRandomSizeClass ce cl force st =
      (if t = cl then Inr (False, st\<lparr>race_counter := n\<rparr>) else ShrinkCache ce t force (st\<lparr>race_counter := n\<rparr>))" "t < kNumClasses"
    by (cases "kNumClasses \<le> ?t") (use z in \<open>simp_all add: EvictRandomSizeClass_def Let_def\<close>)
  have i1: "central_inv C T U (st\<lparr>race_counter := n\<rparr>)" using i by (simp only: central_race)
  show ?thesis
  proof (cases "t = cl")
    case True
    have "keep U C st C (st\<lparr>race_counter := n\<rparr>)" by (simp add: keep_def)
    then show ?thesis using e(1) True i1 by auto
  next
    case False
    then show ?thesis using e(1) ShrinkCache_ok[OF i1 e(2), of force] unfolding central_race(2) by simp
  qed
qed

lemma MakeCacheSpace_ok:
  assumes i: "central_inv C T U st" and cl: "cl < kNumClasses"
  shows "\<exists>b C' T' st'. MakeCacheSpace ce cl st = Inr (b, st') \<and> central_inv C' T' U st' \<and> keep U C st C' st' \<and>
    (b \<longrightarrow> used_slots (central_cache st' cl) < cache_size (central_cache st' cl))"
proof -
  let ?l = "central_cache st cl"
  consider "used_slots ?l < cache_size ?l" | "\<not> used_slots ?l < cache_size ?l" "cache_size ?l = max_cache_size ?l"
    | "\<not> used_slots ?l < cache_size ?l" "cache_size ?l \<noteq> max_cache_size ?l" by blast
  then show ?thesis
  proof cases
    case 1
    then have "MakeCacheSpace ce cl st = Inr (True, st)" by (simp add: MakeCacheSpace_def Let_def)
    then show ?thesis using i 1 keep_refl by blast
  next
    case 2
    then have "MakeCacheSpace ce cl st = Inr (False, st)" by (simp add: MakeCacheSpace_def Let_def)
    then show ?thesis using i keep_refl by blast
  next
    case 3
    obtain b1 C1 T1 st1 where e1: "EvictRandomSizeClass ce (size_class ?l) False st = Inr (b1, st1)" "central_inv C1 T1 U st1" "keep U C st C1 st1"
      using EvictRandomSizeClass_ok[OF i] by blast
    obtain b2 C2 T2 st2 where e2: "(if b1 then Inr (True, st1) else EvictRandomSizeClass ce (size_class ?l) True st1) = Inr (b2, st2)"
      "central_inv C2 T2 U st2" "keep U C1 st1 C2 st2"
      using EvictRandomSizeClass_ok[OF e1(2), of "size_class ?l" True] e1(2) keep_refl by (cases b1) auto
    have k: "keep U C st C2 st2" by (rule keep_trans[OF e1(3) e2(3)]) simp_all
    let ?m = "central_cache st2 cl"
    let ?l' = "?m\<lparr>cache_size := cache_size ?m + 1\<rparr>"
    have r: "MakeCacheSpace ce cl st = (if b2 \<and> cache_size ?m < max_cache_size ?m then Inr (True, set_cfl cl ?l' st2) else Inr (False, st2))"
      using 3 e1(1) e2(1) by (simp add: MakeCacheSpace_def Let_def)
    show ?thesis
    proof (cases "b2 \<and> cache_size ?m < max_cache_size ?m")
      case True
      have c: "cinv C2 (taken_objs U T2) st2" and ko: "cache_ok sm (objs st2) cl ?m (T2 cl) (U cl)" using e2(2) cl by (auto simp: central_inv_def)
      have "cinv C2 (taken_objs U T2) (set_cfl cl ?l' st2)" by (rule cinv_tc[OF c]) simp_all
      moreover have "cache_ok sm (objs st2) cl ?l' (T2 cl) (U cl)" using ko True by (auto simp: cache_ok_def)
      ultimately have "central_inv C2 T2 U (set_cfl cl ?l' st2)" using e2(2) by (auto simp: central_inv_def set_cfl_def)
      moreover have "keep U C st C2 (set_cfl cl ?l' st2)" using k by (simp add: keep_def set_cfl_def)
      moreover have "used_slots ?l' < cache_size ?l'" "central_cache (set_cfl cl ?l' st2) cl = ?l'" using ko by (auto simp: cache_ok_def set_cfl_def)
      ultimately show ?thesis using r True by auto
    next
      case False
      then show ?thesis using r e2(2) k by auto
    qed
  qed
qed

text \<open>A list of objects that a client holds goes to the transfer cache or back to the spans.\<close>

lemma store_ok:
  assumes i: "central_inv C T U st" and cl: "0 < cl" "cl < kNumClasses" and xs: "sll (objs st) f xs" "xs \<noteq> []" "set xs \<subseteq> U cl"
    and n: "int (length xs) = num_objects_to_move sm cl" and room: "used_slots (central_cache st cl) < cache_size (central_cache st cl)"
  shows "\<exists>T'. central_inv C T' (U(cl := U cl - set xs)) (set_cfl cl ((central_cache st cl)\<lparr>used_slots := used_slots (central_cache st cl) + 1,
     tc_slots := (tc_slots (central_cache st cl))(used_slots (central_cache st cl) := (f, last xs))\<rparr>) st)"
proof -
  let ?l = "central_cache st cl" and ?T = "T(cl := T cl @ [xs])" and ?U = "U(cl := U cl - set xs)"
  let ?l' = "?l\<lparr>used_slots := used_slots ?l + 1, tc_slots := (tc_slots ?l)(used_slots ?l := (f, last xs))\<rparr>"
  have c: "cinv C (taken_objs U T) st" and k: "cache_ok sm (objs st) cl ?l (T cl) (U cl)" using i cl by (auto simp: central_inv_def)
  have eq: "taken_objs ?U ?T = taken_objs U T" using xs(3) by (auto simp: fun_eq_iff)
  have "cinv C (taken_objs ?U ?T) (set_cfl cl ?l' st)" unfolding eq by (rule cinv_tc[OF c]) simp_all
  moreover have "cache_ok sm (objs st) cl ?l' (T cl @ [xs]) (U cl - set xs)"
  proof -
    have "slot_ok sm (objs st) cl (tc_slots ?l' j) ((T cl @ [xs]) ! j)" if "j < length (T cl @ [xs])" for j
      using that k xs(1,2) n by (cases "j = length (T cl)") (auto simp: cache_ok_def slot_ok_def nth_append)
    moreover have "distinct (concat (T cl @ [xs]))" "set (concat (T cl @ [xs])) \<inter> (U cl - set xs) = {}"
      using k xs(3) sll_distinct[OF xs(1)] by (auto simp: cache_ok_def)
    ultimately show ?thesis using k room cl by (auto simp: cache_ok_def)
  qed
  ultimately have "central_inv C ?T ?U (set_cfl cl ?l' st)" using i cl by (auto simp: central_inv_def set_cfl_def)
  then show ?thesis by blast
qed

lemma InsertRange_ok:
  assumes i: "central_inv C T U st" and cl: "0 < cl" "cl < kNumClasses" and xs: "sll (objs st) f xs" "xs \<noteq> []" "set xs \<subseteq> U cl"
  shows "\<exists>C' T' st'. InsertRange ce cl f (last xs) (length xs) st = Inr st' \<and> central_inv C' T' (U(cl := U cl - set xs)) st' \<and>
    keep (U(cl := U cl - set xs)) C st C' st'"
proof -
  let ?U = "U(cl := U cl - set xs)"
  have sc: "size_class (central_cache st cl) = cl" using i cl by (simp add: central_inv_def cache_ok_def)
  let ?full = "int (length xs) = num_objects_to_move sm cl"
  obtain b C1 T1 st1 where m: "(if ?full then MakeCacheSpace ce cl st else Inr (False, st)) = Inr (b, st1)" "central_inv C1 T1 U st1" "keep U C st C1 st1"
    "b \<longrightarrow> ?full \<and> used_slots (central_cache st1 cl) < cache_size (central_cache st1 cl)"
    using MakeCacheSpace_ok[OF i cl(2)] i keep_refl by (cases ?full) fastforce+
  have s1: "sll (objs st1) f xs" by (rule keep_sll[OF m(3) xs(3,1)])
  show ?thesis
  proof (cases b)
    case True
    let ?l = "central_cache st1 cl"
    let ?st = "set_cfl cl (?l\<lparr>used_slots := used_slots ?l + 1, tc_slots := (tc_slots ?l)(used_slots ?l := (f, last xs))\<rparr>) st1"
    obtain T' where "central_inv C1 T' ?U ?st" using store_ok[OF m(2) cl s1 xs(2,3)] m(4) True by blast
    moreover have "keep ?U C st C1 ?st" using m(3) by (auto simp: keep_def set_cfl_def)
    moreover have "InsertRange ce cl f (last xs) (length xs) st = Inr ?st" using m(1) True unfolding InsertRange_def sc by (simp add: Let_def)
    ultimately show ?thesis by blast
  next
    case False
    have c: "cinv C1 (taken_objs U T1) st1" using m(2) by (simp add: central_inv_def)
    have sub: "set xs \<subseteq> taken_objs U T1 cl" using xs(3) by auto
    obtain C' st' where r: "ReleaseListToSpans ce cl f st1 = Inr st'" "cinv C' ((taken_objs U T1)(cl := taken_objs U T1 cl - set xs)) st'"
      "frame (set xs) C1 st1 C' st'" using ReleaseListToSpans_ok[OF c s1 sub] by blast
    have k: "cache_ok sm (objs st1) d (central_cache st1 d) (T1 d) (U d)" if "d < kNumClasses" for d using m(2) that by (simp add: central_inv_def)
    have eq: "(taken_objs U T1)(cl := taken_objs U T1 cl - set xs) = taken_objs ?U T1"
      using k[OF cl(2)] xs(3) by (auto simp: fun_eq_iff cache_ok_def)
    have other: "set xs \<inter> U d = {}" "set xs \<inter> set (concat (T1 d)) = {}" if "d \<noteq> cl" for d using taken_disjoint[OF c that] xs(3) by blast+
    have own: "set xs \<inter> set (concat (T1 cl)) = {}" using k[OF cl(2)] xs(3) unfolding cache_ok_def by blast
    have "cache_ok sm (objs st') d (central_cache st' d) (T1 d) (?U d)" if d: "d < kNumClasses" for d
    proof (rule cache_ok_frame[OF k[OF d]])
      show "tc_fields (central_cache st' d) = tc_fields (central_cache st1 d)" using r(3) by (simp add: frame_def)
      show "objs st' x = objs st1 x" if "x \<in> set (concat (T1 d))" for x using that r(3) own other(2)[of d] unfolding frame_def by (cases "d = cl") blast+
    qed simp
    then have "central_inv C' T1 ?U st'" using r(2) m(2) unfolding eq by (simp add: central_inv_def)
    moreover have "keep ?U C1 st1 C' st'" by (rule frame_keep[OF r(3)]) (use other(1) in auto)
    then have "keep ?U C st C' st'" by (rule keep_trans[OF m(3)]) auto
    moreover have "InsertRange ce cl f (last xs) (length xs) st = Inr st'" using m(1) False r(1) unfolding InsertRange_def sc by simp
    ultimately show ?thesis by blast
  qed
qed

text \<open>Objects come from the spans of the class.\<close>

lemma fetch_more_ok:
  assumes "cinv C A st" and "0 < cl" "cl < kNumClasses" and "sll (objs st) f xs" "xs \<noteq> []" "set xs \<subseteq> A cl" "length xs \<le> N"
  shows "\<exists>ys st' f'. fetch_more cl N (length xs) f st = Inr (length (ys @ xs), f', st') \<and> sll (objs st') f' (ys @ xs) \<and> set ys \<inter> A cl = {} \<and>
    length (ys @ xs) \<le> N \<and> cinv C (A(cl := A cl \<union> set ys)) st' \<and> frame (set ys) C st C st'"
  using assms
proof (induction "N - length xs" arbitrary: A st f xs rule: less_induct)
  case less
  show ?case
  proof (cases "length xs < N")
    case False
    then have "fetch_more cl N (length xs) f st = Inr (length ([] @ xs), f, st)" by (simp add: fetch_more.simps)
    then show ?thesis using less.prems frame_refl[of "{}" C st] by (intro exI[of _ "[]"] exI[of _ st] exI[of _ f]) simp
  next
    case True
    then have N: "0 < N - length xs" by simp
    consider "FetchFromOneSpans cl (N - length xs) st = Inr (0, 0, 0, st)"
      | zs st1 where "zs \<noteq> []" "length zs \<le> N - length xs" "FetchFromOneSpans cl (N - length xs) st = Inr (length zs, hd zs, last zs, st1)"
       "sll (objs st1) (hd zs) zs" "set zs \<inter> A cl = {}" "cinv C (A(cl := A cl \<union> set zs)) st1" "frame (set zs) C st C st1"
      using FetchFromOneSpans_ok[OF less.prems(1-3) N] by blast
    then show ?thesis
    proof cases
      case 1
      then have "fetch_more cl N (length xs) f st = Inr (length ([] @ xs), f, st)" using True by (subst fetch_more.simps) simp
      then show ?thesis using less.prems frame_refl[of "{}" C st] by (intro exI[of _ "[]"] exI[of _ st] exI[of _ f]) simp
    next
      case 2
      have dis: "set zs \<inter> set xs = {}" using 2(5) less.prems(6) by blast
      have x1: "sll (objs st1) f xs" by (rule frame_sll[OF 2(7) less.prems(4)]) (use dis in blast)
      let ?w = "(objs st1)(last zs := f)" and ?B = "A(cl := A cl \<union> set zs)"
      have p: "SLL_PushRange (hd zs) (last zs) (f, objs st1) = Inr (hd zs, ?w)" "sll ?w (hd zs) (zs @ xs)"
        using SLL_PushRange_lst[OF 2(4) x1 dis 2(1)] by auto
      have c2: "cinv C ?B (st1\<lparr>objs := ?w\<rparr>)"
      proof (rule cinv_objs[OF 2(6)])
        fix x assume "\<And>c. x \<notin> ?B c"
        from this[of cl] have "x \<noteq> last zs" using last_in_set[OF 2(1)] by auto
        then show "?w x = objs st1 x" by simp
      qed
      have fr: "frame (set zs) C st C (st1\<lparr>objs := ?w\<rparr>)" using 2(7) last_in_set[OF 2(1)] by (auto simp: frame_def)
      have sub: "set (zs @ xs) \<subseteq> ?B cl" using less.prems(6) by auto
      have o: "sll (objs (st1\<lparr>objs := ?w\<rparr>)) (hd zs) (zs @ xs)" using p(2) by simp
      have sz: "N - length (zs @ xs) < N - length xs" "length (zs @ xs) \<le> N" using True 2(1,2) by (auto simp: neq_Nil_conv)
      obtain ys st' f' where r: "fetch_more cl N (length (zs @ xs)) (hd zs) (st1\<lparr>objs := ?w\<rparr>) = Inr (length (ys @ zs @ xs), f', st')"
        "sll (objs st') f' (ys @ zs @ xs)" "set ys \<inter> ?B cl = {}" "length (ys @ zs @ xs) \<le> N" "cinv C (?B(cl := ?B cl \<union> set ys)) st'"
        "frame (set ys) C (st1\<lparr>objs := ?w\<rparr>) C st'"
        using less.hyps[OF sz(1) c2 less.prems(2,3) o _ sub sz(2)] 2(1) by blast
      have "?B(cl := ?B cl \<union> set ys) = A(cl := A cl \<union> set (ys @ zs))" by (rule ext) auto
      then have "cinv C (A(cl := A cl \<union> set (ys @ zs))) st'" using r(5) by simp
      moreover have "frame (set (ys @ zs)) C st C st'" by (rule frame_trans[OF fr r(6)]) auto
      moreover have "fetch_more cl N (length xs) f st = Inr (length ((ys @ zs) @ xs), f', st')"
        using True 2(1,3) p(1) r(1) by (subst fetch_more.simps) (simp add: add.commute)
      ultimately show ?thesis using r(2-4) 2(5) by (intro exI[of _ "ys @ zs"] exI[of _ st'] exI[of _ f']) auto
    qed
  qed
qed

lemma fresh_all:
  assumes "cinv C (A(cl := A cl \<union> B)) st" and "B \<inter> A cl = {}" shows "B \<inter> A d = {}"
  using taken_disjoint[OF assms(1), of cl d] assms(2) by (cases "d = cl") auto

definition fetched :: "(nat \<rightharpoonup> nat) \<Rightarrow> (nat \<Rightarrow> nat set) \<Rightarrow> 'w central \<Rightarrow> nat \<Rightarrow> nat \<Rightarrow> nat \<times> nat \<times> nat \<times> 'w central \<Rightarrow> bool" where
  "fetched C A st cl N r \<longleftrightarrow> (case r of (n, f, e, st') \<Rightarrow> \<exists>C' xs X. length xs = n \<and> n \<le> N \<and> sll (objs st') f xs \<and> (xs \<noteq> [] \<longrightarrow> e = last xs) \<and>
     set xs \<inter> A cl = {} \<and> cinv C' (A(cl := A cl \<union> set xs)) st' \<and> frame X C st C' st' \<and> (\<forall>d. X \<inter> A d = {}))"

lemma FetchFromOneSpans_fetched:
  assumes c: "cinv C A st" and cl: "0 < cl" "cl < kNumClasses" and N: "0 < N"
  shows "\<exists>r. FetchFromOneSpans cl N st = Inr r \<and> fetched C A st cl N r"
proof -
  consider "FetchFromOneSpans cl N st = Inr (0, 0, 0, st)"
    | xs st1 where "xs \<noteq> []" "length xs \<le> N" "FetchFromOneSpans cl N st = Inr (length xs, hd xs, last xs, st1)"
     "sll (objs st1) (hd xs) xs" "set xs \<inter> A cl = {}" "cinv C (A(cl := A cl \<union> set xs)) st1" "frame (set xs) C st C st1"
    using FetchFromOneSpans_ok[OF c cl N] by blast
  then show ?thesis
  proof cases
    case 1
    have "fetched C A st cl N (0, 0, 0, st)"
      unfolding fetched_def prod.case using c frame_refl[of "{}" C st] by (intro exI[of _ C] exI[of _ "[]"] exI[of _ "{}"]) simp
    then show ?thesis using 1 by blast
  next
    case 2
    have "fetched C A st cl N (length xs, hd xs, last xs, st1)"
      unfolding fetched_def prod.case using 2 fresh_all[OF 2(6,5)] by (intro exI[of _ C] exI[of _ xs] exI[of _ "set xs"]) simp
    then show ?thesis using 2(3) by blast
  qed
qed

lemma fetched_after:
  assumes f: "frame X C st C1 st1" "\<And>d. X \<inter> A d = {}" and r: "fetched C1 A st1 cl N r" shows "fetched C A st cl N r"
proof -
  obtain n g e st' where e: "r = (n, g, e, st')" by (metis prod_cases4)
  obtain C' xs Y where xs: "length xs = n" "n \<le> N" "sll (objs st') g xs" "xs \<noteq> [] \<longrightarrow> e = last xs" "set xs \<inter> A cl = {}"
    "cinv C' (A(cl := A cl \<union> set xs)) st'" "frame Y C1 st1 C' st'" "\<forall>d. Y \<inter> A d = {}" using r unfolding fetched_def e prod.case by blast
  have "frame (X \<union> Y) C st C' st'" by (rule frame_trans[OF f(1) xs(7)]) simp
  moreover have "\<forall>d. (X \<union> Y) \<inter> A d = {}" using f(2) xs(8) by blast
  ultimately show ?thesis unfolding fetched_def e prod.case using xs(1-6) by blast
qed

lemma FetchFromOneSpansSafe_ok:
  assumes c: "cinv C A st" and cl: "0 < cl" "cl < kNumClasses" and N: "0 < N"
  shows "outcome (FetchFromOneSpansSafe ce cl N st) (fetched C A st cl N)"
proof -
  obtain n f e st1 where r: "FetchFromOneSpans cl N st = Inr (n, f, e, st1)" "fetched C A st cl N (n, f, e, st1)"
    using FetchFromOneSpans_fetched[OF c cl N] by (metis prod_cases4)
  show ?thesis
  proof (cases "n = 0")
    case False
    then show ?thesis using r by (simp add: FetchFromOneSpansSafe_def)
  next
    case True
    obtain C1 X where c1: "cinv C1 A st1" "frame X C st C1 st1" "\<And>d. X \<inter> A d = {}" using r(2) True unfolding fetched_def by auto
    have "outcome (bindR (Populate ce cl st1) (FetchFromOneSpans cl N)) (fetched C A st cl N)"
    proof (rule outcome_bind[OF Populate_ok[OF c1(1) cl]], elim exE conjE)
      fix st2 C2 Y assume c2: "cinv C2 A st2" "frame Y C1 st1 C2 st2" "\<forall>d. Y \<inter> A d = {}"
      obtain r2 where r2: "FetchFromOneSpans cl N st2 = Inr r2" "fetched C2 A st2 cl N r2" using FetchFromOneSpans_fetched[OF c2(1) cl N] by blast
      have "frame (X \<union> Y) C st C2 st2" by (rule frame_trans[OF c1(2) c2(2)]) simp
      then have "fetched C A st cl N r2" by (rule fetched_after[OF _ _ r2(2)]) (use c1(3) c2(3) in blast)
      then show "outcome (FetchFromOneSpans cl N st2) (fetched C A st cl N)" using r2(1) by simp
    qed
    then show ?thesis using r(1) True by (simp add: FetchFromOneSpansSafe_def)
  qed
qed

lemma take_ok:
  assumes i: "central_inv C T U st" and cl: "cl < kNumClasses" and r: "fetched C (taken_objs U T) st cl N (n, f, e, st')"
  shows "\<exists>C' xs. length xs = n \<and> n \<le> N \<and> sll (objs st') f xs \<and> (xs \<noteq> [] \<longrightarrow> e = last xs) \<and> set xs \<inter> U cl = {} \<and>
    central_inv C' T (U(cl := U cl \<union> set xs)) st' \<and> keep U C st C' st'"
proof -
  let ?A = "taken_objs U T"
  obtain C' xs X where xs: "length xs = n" "n \<le> N" "sll (objs st') f xs" "xs \<noteq> [] \<longrightarrow> e = last xs" "set xs \<inter> ?A cl = {}"
    "cinv C' (?A(cl := ?A cl \<union> set xs)) st'" "frame X C st C' st'" "\<forall>d. X \<inter> ?A d = {}" using r unfolding fetched_def prod.case by blast
  let ?U = "U(cl := U cl \<union> set xs)"
  have eq: "?A(cl := ?A cl \<union> set xs) = taken_objs ?U T" by (rule ext) auto
  have "cache_ok sm (objs st') d (central_cache st' d) (T d) (?U d)" if d: "d < kNumClasses" for d
  proof -
    have k: "cache_ok sm (objs st) d (central_cache st d) (T d) (U d)" using i d by (simp add: central_inv_def)
    have "X \<inter> set (concat (T d)) = {}" using xs(8) by blast
    then have "cache_ok sm (objs st') d (central_cache st' d) (T d) (U d)" using xs(7) unfolding frame_def by (intro cache_ok_frame[OF k]) auto
    moreover have "set (concat (T cl)) \<inter> set xs = {}" using xs(5) by blast
    ultimately show ?thesis by (cases "d = cl") (auto simp: cache_ok_def)
  qed
  then have "central_inv C' T ?U st'" using xs(6) i unfolding eq by (simp add: central_inv_def)
  moreover have "keep U C st C' st'" by (rule frame_keep[OF xs(7)]) (use xs(8) in blast)
  ultimately show ?thesis using xs(1-5) by blast
qed

text \<open>The contract of a central free list with its clients: \<open>U\<close> is what they hold, \<open>B\<close> are the spans of large objects.\<close>

definition central_ok :: "(nat \<Rightarrow> nat set) \<Rightarrow> (nat \<times> span) set \<Rightarrow> 'w central \<Rightarrow> bool" where
  "central_ok U B st \<longleftrightarrow> (\<exists>C T. central_inv C T U st \<and> bigs C (heap st) = B)"

definition handed :: "(nat \<Rightarrow> nat set) \<Rightarrow> (nat \<times> span) set \<Rightarrow> 'w central \<Rightarrow> nat \<Rightarrow> nat \<Rightarrow> nat \<times> nat \<times> nat \<times> 'w central \<Rightarrow> bool" where
  "handed U B st cl N r \<longleftrightarrow> (case r of (n, f, e, st') \<Rightarrow> \<exists>xs. length xs = n \<and> n \<le> N \<and> sll (objs st') f xs \<and> (xs \<noteq> [] \<longrightarrow> e = last xs) \<and>
     set xs \<inter> U cl = {} \<and> central_ok (U(cl := U cl \<union> set xs)) B st' \<and> (\<forall>c. \<forall>x\<in>U c. objs st' x = objs st x))"

lemma insert_law:
  assumes "central_ok U B st" and cl: "0 < cl" "cl < kNumClasses" and xs: "sll (objs st) f xs" "xs \<noteq> []" "set xs \<subseteq> U cl"
  shows "\<exists>st'. InsertRange ce cl f (last xs) (length xs) st = Inr st' \<and> central_ok (U(cl := U cl - set xs)) B st' \<and>
    (\<forall>c. \<forall>x\<in>(U(cl := U cl - set xs)) c. objs st' x = objs st x)"
proof -
  obtain C T where i: "central_inv C T U st" and b: "bigs C (heap st) = B" using assms(1) unfolding central_ok_def by blast
  show ?thesis using InsertRange_ok[OF i cl xs] b unfolding central_ok_def keep_def by metis
qed

lemma RemoveRange_ok:
  assumes i: "central_inv C T U st" and cl: "0 < cl" "cl < kNumClasses" and N: "0 < N"
  shows "outcome (RemoveRange ce cl N st) (handed U (bigs C (heap st)) st cl N)"
proof -
  let ?l = "central_cache st cl"
  have c: "cinv C (taken_objs U T) st" and k: "cache_ok sm (objs st) cl ?l (T cl) (U cl)" using i cl by (auto simp: central_inv_def)
  have sc: "size_class ?l = cl" using k by (simp add: cache_ok_def)
  have fin: "handed U (bigs C (heap st)) st cl N (n, f, e, st')" if "fetched C (taken_objs U T) st cl N (n, f, e, st')" for n f e st'
    using take_ok[OF i cl(2) that] unfolding handed_def prod.case central_ok_def keep_def by metis
  show ?thesis
  proof (cases "int N = num_objects_to_move sm cl \<and> 0 < used_slots ?l")
    case True
    then obtain ts xs where T: "T cl = ts @ [xs]" using k unfolding cache_ok_def by (metis length_0_conv neq0_conv rev_exhaust)
    note kl = cache_ok_last[OF k[unfolded T]]
    let ?l' = "?l\<lparr>used_slots := length ts\<rparr>" and ?U = "U(cl := U cl \<union> set xs)" and ?T = "T(cl := ts)"
    let ?st = "set_cfl cl ?l' st"
    have eq: "taken_objs ?U ?T = taken_objs U T" using T by (auto simp: fun_eq_iff)
    have "cinv C (taken_objs ?U ?T) ?st" unfolding eq by (rule cinv_tc[OF c]) simp_all
    moreover have "cache_ok sm (objs st) cl ?l' ts (U cl \<union> set xs)"
      by (rule cache_ok_butlast[OF k[unfolded T]]) (use k kl in \<open>auto simp: cache_ok_def\<close>)
    ultimately have "central_inv C ?T ?U ?st" using i cl by (auto simp: central_inv_def set_cfl_def)
    moreover have "bigs C (heap ?st) = bigs C (heap st)" "objs ?st = objs st" by (simp_all add: set_cfl_def)
    ultimately have "handed U (bigs C (heap st)) st cl N (N, fst (tc_slots ?l (length ts)), snd (tc_slots ?l (length ts)), ?st)"
      unfolding handed_def prod.case central_ok_def using kl True by (intro exI[of _ xs]) auto
    moreover have "RemoveRange ce cl N st = Inr (N, fst (tc_slots ?l (length ts)), snd (tc_slots ?l (length ts)), ?st)"
      using True kl(1) sc by (simp add: RemoveRange_def Let_def split_beta)
    ultimately show ?thesis by simp
  next
    case False
    have "outcome (bindR (FetchFromOneSpansSafe ce cl N st) (\<lambda>(result, start, end_obj, st).
        if result \<noteq> 0 then bindR (fetch_more cl N result start st) (\<lambda>(result, start, st). Inr (result, start, end_obj, st))
        else Inr (0, start, end_obj, st))) (handed U (bigs C (heap st)) st cl N)"
    proof (rule outcome_bind[OF FetchFromOneSpansSafe_ok[OF c cl N]], clarify)
      fix n f e st1 assume r: "fetched C (taken_objs U T) st cl N (n, f, e, st1)"
      let ?A = "taken_objs U T"
      obtain C1 xs X where xs: "length xs = n" "n \<le> N" "sll (objs st1) f xs" "xs \<noteq> [] \<longrightarrow> e = last xs" "set xs \<inter> ?A cl = {}"
        "cinv C1 (?A(cl := ?A cl \<union> set xs)) st1" "frame X C st C1 st1" "\<forall>d. X \<inter> ?A d = {}" using r unfolding fetched_def prod.case by blast
      show "outcome (if n \<noteq> 0 then bindR (fetch_more cl N n f st1) (\<lambda>(result, start, st). Inr (result, start, e, st)) else Inr (0, f, e, st1))
        (handed U (bigs C (heap st)) st cl N)"
      proof (cases "n = 0")
        case True
        then show ?thesis using fin[OF r] by simp
      next
        case False
        let ?B = "?A(cl := ?A cl \<union> set xs)"
        have ne: "xs \<noteq> []" "set xs \<subseteq> ?B cl" "length xs \<le> N" using xs(1,2) False by auto
        obtain ys st2 f2 where m: "fetch_more cl N (length xs) f st1 = Inr (length (ys @ xs), f2, st2)" "sll (objs st2) f2 (ys @ xs)"
          "set ys \<inter> ?B cl = {}" "length (ys @ xs) \<le> N" "cinv C1 (?B(cl := ?B cl \<union> set ys)) st2" "frame (set ys) C1 st1 C1 st2"
          using fetch_more_ok[OF xs(6) cl xs(3) ne] by blast
        have eq: "?B(cl := ?B cl \<union> set ys) = ?A(cl := ?A cl \<union> set (ys @ xs))" by (rule ext) auto
        have d: "set (ys @ xs) \<inter> ?A cl = {}" using m(3) xs(5) by auto
        have fr: "frame (X \<union> set ys) C st C1 st2" by (rule frame_trans[OF xs(7) m(6)]) simp
        have "(X \<union> set ys) \<inter> ?A d = {}" for d using xs(8) fresh_all[OF m(5)[unfolded eq] d, of d] by auto
        then have "fetched C ?A st cl N (length (ys @ xs), f2, e, st2)" unfolding fetched_def prod.case
          using m(2,4,5) d fr xs(4) ne(1) unfolding eq by (intro exI[of _ C1] exI[of _ "ys @ xs"] exI[of _ "X \<union> set ys"]) auto
        then show ?thesis using fin m(1) xs(1) False by simp
      qed
    qed
    then show ?thesis using False sc by (auto simp: RemoveRange_def Let_def)
  qed
qed

lemma remove_law:
  assumes "central_ok U B st" and cl: "0 < cl" "cl < kNumClasses" and N: "0 < N"
  shows "outcome (RemoveRange ce cl N st) (handed U B st cl N)"
  using assms(1) RemoveRange_ok[OF _ cl N] unfolding central_ok_def by blast

lemma write_law:
  assumes "central_ok U B st" and w: "\<And>x. (\<And>c. x \<notin> U c) \<Longrightarrow> w x = objs st x"
  shows "central_ok U B (st\<lparr>objs := w\<rparr>)"
proof -
  obtain C T where i: "central_inv C T U st" and b: "bigs C (heap st) = B" using assms(1) unfolding central_ok_def by blast
  have c: "cinv C (taken_objs U T) st" using i by (simp add: central_inv_def)
  have "cinv C (taken_objs U T) (st\<lparr>objs := w\<rparr>)" by (rule cinv_objs[OF c]) (use w in blast)
  moreover have "cache_ok sm w d (central_cache st d) (T d) (U d)" if d: "d < kNumClasses" for d
  proof -
    have k: "cache_ok sm (objs st) d (central_cache st d) (T d) (U d)" using i d by (simp add: central_inv_def)
    have "w x = objs st x" if x: "x \<in> set (concat (T d))" for x
    proof (rule w)
      fix c show "x \<notin> U c" using taken_disjoint[OF c, of c d] k x by (cases "c = d") (auto simp: cache_ok_def)
    qed
    then show ?thesis by (intro cache_ok_frame[OF k]) auto
  qed
  ultimately have "central_inv C T U (st\<lparr>objs := w\<rparr>)" using i by (simp add: central_inv_def)
  then show ?thesis using b unfolding central_ok_def by auto
qed

lemma held_object:
  assumes "central_ok U B st" and x: "x \<in> U c"
  obtains i s where "(i, s) \<in> used (heap st)" and "sizeclass s = c" and "x \<in> slots sm s" and "0 < c" and "c < kNumClasses"
    and "MapObjectToSpan x (heap st) = i" and "x \<noteq> 0"
proof -
  obtain C T where c: "cinv C (taken_objs U T) st" using assms(1) unfolding central_ok_def central_inv_def by blast
  have xA: "x \<in> taken_objs U T c" using x by blast
  obtain i s where s: "class_span C (heap st) i s" "sizeclass s = c" "x \<in> slots sm s" by (rule object_span[where x = x, OF c xA])
  note f = span_facts[OF c s xA]
  show thesis
    by (rule that[OF class_spanD(1)[OF s(1)] s(2,3) _ _ span_of_object[OF c s(1,3)] f(6)])
      (use s(1,2) f(1) in \<open>auto simp: class_span_def small_ok_def\<close>)
qed

lemma held_class: assumes "central_ok U B st" and "x \<in> U c" and "x \<in> U d" shows "c = d"
proof (rule ccontr)
  assume "c \<noteq> d"
  obtain C T where "cinv C (taken_objs U T) st" using assms(1) unfolding central_ok_def central_inv_def by blast
  from taken_disjoint[OF this \<open>c \<noteq> d\<close>] show False using assms(2,3) by blast
qed

lemma central_class: "central_ok U B st \<Longrightarrow> c < kNumClasses \<Longrightarrow> size_class (central_cache st c) = c"
  unfolding central_ok_def central_inv_def cache_ok_def by blast

text \<open>No two objects that the clients hold share a byte.\<close>

lemma held_disjoint:
  assumes ok: "central_ok U B st" and x: "x \<in> U c" and y: "y \<in> U d" and "x \<noteq> y"
  shows "{x..<x + class_to_size sm c} \<inter> {y..<y + class_to_size sm d} = {}"
proof -
  obtain C T where c: "cinv C (taken_objs U T) st" using ok unfolding central_ok_def central_inv_def by blast
  obtain P where P: "inv {} P (heap st)" by (rule cinvE[OF c])
  have xA: "x \<in> taken_objs U T c" "y \<in> taken_objs U T d" using x y by blast+
  obtain i s where s: "class_span C (heap st) i s" "sizeclass s = c" "x \<in> slots sm s" by (rule object_span[where x = x, OF c xA(1)])
  obtain j t where t: "class_span C (heap st) j t" "sizeclass t = d" "y \<in> slots sm t" by (rule object_span[where x = y, OF c xA(2)])
  show ?thesis
  proof (cases "i = j")
    case True
    then have "t = s" using class_span_fun[OF s(1)] t(1) by simp
    then show ?thesis using slot_disjoint[OF s(3) _ assms(4)] t(2,3) s(2) by simp
  next
    case False
    have "pg s \<inter> pg t = {}" using spans_ok_disj[OF invD(1)[OF P] class_spanD(2)[OF s(1)] class_spanD(2)[OF t(1)] False] .
    moreover have "{x..<x + class_to_size sm c} \<subseteq> {z. z div 2 ^ kPageShift \<in> pg s}" "{y..<y + class_to_size sm d} \<subseteq> {z. z div 2 ^ kPageShift \<in> pg t}"
      using slot_bytes[OF s(3)] slot_bytes[OF t(3)] s(2) t(2) by auto
    ultimately show ?thesis by blast
  qed
qed

end

end
