(* ===== verification/CentralFreeList_Life.thy ===== *)
theory CentralFreeList_Life
  imports CentralFreeList_Cache
begin

section \<open>The central free lists over their whole life\<close>

text \<open>
  The states that the central free lists reach from their initialisation, and their properties.
\<close>

subsection \<open>The setting and the runs\<close>

text \<open>The build of the program: the page heap on a lawful system, the size classes of \<^verbatim>\<open>SizeMap::Init\<close>, metadata that is not of fixed
  compression, fuel for the whole address space.\<close>

definition central_setting :: "'os sysops \<Rightarrow> ('os \<Rightarrow> nat set) \<Rightarrow> 'os pworld cenv \<Rightarrow> bool" where
  "central_setting ops owned ce \<longleftrightarrow> os_ok ops owned \<and> (\<exists>sfl. c_env ce = heap_env ops sfl) \<and> \<not> fixedCompression (c_config ce) \<and>
     0 < unat (metadataBytes (c_config ce)) \<and> unat (metadataBytes (c_config ce)) \<le> 64 \<and> 2 ^ 48 \<le> c_fuel ce \<and>
     (\<exists>fuel flag m0. 64 \<le> fuel \<and> 8192 \<le> flag \<and> SizeMap_Init fuel flag m0 = Inr (c_sizes ce))"

lemma Init_class_ok:
  assumes "64 \<le> fuel" "8192 \<le> flag" "SizeMap_Init fuel flag m0 = Inr m" "0 < c" "c < kNumClasses" shows "class_ok m c"
proof -
  have c1: "1 \<le> c" using assms(4) by simp
  note f = Init_classes[OF assms(1-3) c1 assms(5)]
  obtain k where k: "3 \<le> k" "AlignmentForSize (class_to_size m c) = Inr (2 ^ k)" using AlignmentForSize_pow2[of "class_to_size m c"] by blast
  have "(8::nat) dvd 2 ^ k" using k(1) le_imp_power_dvd[of 3 k "2::nat"] by simp
  then have "8 dvd class_to_size m c" using f k(2) dvd_trans by auto
  then have 8: "8 \<le> class_to_size m c" using f by (simp add: dvd_imp_le)
  obtain m' where "SizeMap_Init fuel flag m0 = Inr m'" "\<forall>c. 1 \<le> c \<and> c < kNumClasses \<longrightarrow> num_objects_to_move m' c = NumMoveSize flag (class_to_size m' c)"
    by (rule Init_run[OF assms(1,2), of m0])
  then have "num_objects_to_move m c = NumMoveSize flag (class_to_size m c)" using assms(3,5) c1 by simp
  moreover have "64 * 1024 div class_to_size m c \<le> 64 * 1024 div 8" using 8 by (intro div_le_mono2) simp_all
  ultimately have "num_objects_to_move m c \<le> 8192" by (simp add: NumMoveSize_def Let_def)
  then show ?thesis using f 8 by (simp add: class_ok_def kPageSize_def)
qed

lemma central_setting_env:
  assumes "central_setting ops owned ce" shows "central_env ce (world_ok ops owned)"
proof -
  obtain sfl fuel flag m0 where s: "os_ok ops owned" "c_env ce = heap_env ops sfl" "64 \<le> fuel" "8192 \<le> flag" "SizeMap_Init fuel flag m0 = Inr (c_sizes ce)"
    using assms unfolding central_setting_def by blast
  have "page_env_total (c_env ce) (world_ok ops owned)" unfolding s(2) by (rule heap_env_total[OF s(1)])
  then show ?thesis
    by (rule central_env.intro) (unfold_locales, use assms Init_class_ok[OF s(3-5)] in \<open>auto simp: central_setting_def\<close>)
qed

text \<open>The states that the central free lists reach, with what their clients hold.  The clients write the objects they hold.  The lists are
  the only client of the page heap in these runs: nobody else allocates spans, and the aggressive mode is chosen once.\<close>

inductive central_run :: "'w cenv \<Rightarrow> 'w \<Rightarrow> (nat \<Rightarrow> nat set) \<Rightarrow> 'w central \<Rightarrow> bool" for ce w0 where
  start: "page_table_init (c_config ce) (c_mmap ce) m0 = Inr m \<Longrightarrow> pageTable m = Some tb \<Longrightarrow>
    (\<And>c. c < kNumClasses \<Longrightarrow> CentralFreeList_Init (c_sizes ce) c (l0 c) = Inr (l c)) \<Longrightarrow>
    central_run ce w0 (\<lambda>_. {}) \<lparr>heap = SetAggressiveDecommit ag (new_PageHeap w0), meta = m, objs = w, central_cache = l, race_counter = 0\<rparr>"
| insert: "central_run ce w0 U st \<Longrightarrow> 0 < cl \<Longrightarrow> cl < kNumClasses \<Longrightarrow> sll (objs st) f xs \<Longrightarrow> xs \<noteq> [] \<Longrightarrow> set xs \<subseteq> U cl \<Longrightarrow>
    InsertRange ce cl f (last xs) (length xs) st = Inr st' \<Longrightarrow> central_run ce w0 (U(cl := U cl - set xs)) st'"
| remove: "central_run ce w0 U st \<Longrightarrow> 0 < cl \<Longrightarrow> cl < kNumClasses \<Longrightarrow> 0 < N \<Longrightarrow> RemoveRange ce cl N st = Inr (n, f, e, st') \<Longrightarrow>
    sll (objs st') f xs \<Longrightarrow> central_run ce w0 (U(cl := U cl \<union> set xs)) st'"
| client: "central_run ce w0 U st \<Longrightarrow> (\<And>x. (\<And>c. x \<notin> U c) \<Longrightarrow> w x = objs st x) \<Longrightarrow> central_run ce w0 U (st\<lparr>objs := w\<rparr>)"

lemma CentralFreeList_Init_fields:
  assumes "CentralFreeList_Init sm c l0 = Inr l"
  shows "size_class l = c \<and> empty_spans l = [] \<and> nonempty_spans l = [] \<and> num_spans l = 0 \<and> counter l = 0 \<and> used_slots l = 0 \<and>
    cache_size l \<le> max_cache_size l \<and> max_cache_size l \<le> kMaxNumTransferEntries"
  using assms by (auto simp: CentralFreeList_Init_def Let_def kMaxNumTransferEntries_def split: if_splits)

context central_env
begin

lemma central_start:
  assumes w0: "wok {} {} w0" and m: "page_table_init (c_config ce) (c_mmap ce) m0 = Inr m" "pageTable m = Some tb"
    and l: "\<And>c. c < kNumClasses \<Longrightarrow> CentralFreeList_Init (c_sizes ce) c (l0 c) = Inr (l c)"
  shows "central_ok (\<lambda>_. {}) {} \<lparr>heap = SetAggressiveDecommit ag (new_PageHeap w0), meta = m, objs = w, central_cache = l, race_counter = 0\<rparr>"
proof -
  let ?h = "SetAggressiveDecommit ag (new_PageHeap w0)"
  let ?st = "\<lparr>heap = ?h, meta = m, objs = w, central_cache = l, race_counter = 0\<rparr>"
  have i: "inv {} {} ?h" by (rule inv_fields(2)[OF new_PageHeap_inv[OF w0]])
  have al: "isPageTableAlloced m" using m(1) by (auto simp: page_table_init_def split: if_splits option.splits)
  have "metas_ok ce Map.empty ?h m" by (simp add: metas_ok_def)
  then have h: "hinv Map.empty ?h m" using hinvI[OF i m(2) al] by simp
  have li: "size_class (l c) = c" "empty_spans (l c) = []" "nonempty_spans (l c) = []" "num_spans (l c) = 0" "counter (l c) = 0"
    "used_slots (l c) = 0" "cache_size (l c) \<le> max_cache_size (l c)" "max_cache_size (l c) \<le> kMaxNumTransferEntries" if "c < kNumClasses" for c
    using CentralFreeList_Init_fields[OF l[OF that]] by simp_all
  have "objs_ok sm Map.empty (\<lambda>_. {}) ?st"
    using li by (auto simp: objs_ok_def class_span_def class_objs_def list_ok_def sizes_cached_def)
  then have "cinv Map.empty (taken_objs (\<lambda>_. {}) (\<lambda>_. [])) ?st" using h by (simp add: cinv_def)
  moreover have "cache_ok sm w c (l c) [] {}" if "c < kNumClasses" for c using li[OF that] by (simp add: cache_ok_def)
  ultimately have "central_inv Map.empty (\<lambda>_. []) (\<lambda>_. {}) ?st" by (simp add: central_inv_def)
  moreover have "bigs Map.empty (heap ?st) = {}" by (simp add: bigs_def)
  ultimately show ?thesis unfolding central_ok_def by blast
qed

lemma central_run_ok:
  assumes "central_run ce w0 U st" and "wok {} {} w0" shows "central_ok U {} st"
  using assms
proof (induction rule: central_run.induct)
  case (start m0 m tb l0 l ag w)
  then show ?case by (intro central_start)
next
  case (insert U st cl f xs st')
  from insert_law[OF insert.IH[OF insert.prems] insert(2-6)] insert(7) show ?case by (metis sum.inject(2))
next
  case (remove U st cl N n f e st' xs)
  have "handed U {} st cl N (n, f, e, st')" using remove_law[OF remove.IH[OF remove.prems] remove(2-4)] remove(5) by simp
  then obtain ys where "sll (objs st') f ys" "central_ok (U(cl := U cl \<union> set ys)) {} st'" unfolding handed_def prod.case by blast
  then show ?case using sll_unique[OF remove(6)] by blast
next
  case (client U st w)
  show ?case by (rule write_law[OF client.IH[OF client.prems]]) (rule client(2), blast)
qed

end

text \<open>C4: in every state that the central free lists reach as the only client of the page heap, without fixed compression and with a
  transfer size of at least 8192 objects, whatever the clients do with the objects they hold, \<^verbatim>\<open>RemoveRange\<close> returns a
  null-terminated list of at most \<open>N\<close> objects, or crashes for lack of memory for internal objects.  Each object lies in a span in use of the
  asked class, shares no byte with any object of any class that a client holds, and no word of a held object changes.\<close>

theorem RemoveRange_exclusive:
  assumes "central_setting ops owned ce" and "world_ok ops owned {} {} w0" and "central_run ce w0 U st"
    and "0 < cl" and "cl < kNumClasses" and "0 < N"
  shows "RemoveRange ce cl N st = Inl Crash \<or> (\<exists>n f e st' xs. RemoveRange ce cl N st = Inr (n, f, e, st') \<and> sll (objs st') f xs \<and>
    length xs = n \<and> n \<le> N \<and> (xs \<noteq> [] \<longrightarrow> e = last xs) \<and>
    (\<forall>x\<in>set xs. (\<exists>i s. (i, s) \<in> used (heap st') \<and> sizeclass s = cl \<and> x \<in> slots (c_sizes ce) s) \<and>
       (\<forall>c. \<forall>y\<in>U c. {x..<x + class_to_size (c_sizes ce) cl} \<inter> {y..<y + class_to_size (c_sizes ce) c} = {})) \<and>
    (\<forall>c. \<forall>y\<in>U c. objs st' y = objs st y))"
proof -
  note ce = central_setting_env[OF assms(1)]
  note laws = central_env.remove_law[OF ce central_env.central_run_ok[OF ce assms(3,2)] assms(4-6)]
  show ?thesis
  proof (cases "RemoveRange ce cl N st")
    case (Inl x)
    then show ?thesis using laws by simp
  next
    case (Inr r)
    obtain n f e st' where r: "r = (n, f, e, st')" by (metis prod_cases4)
    obtain xs where xs: "length xs = n" "n \<le> N" "sll (objs st') f xs" "xs \<noteq> [] \<longrightarrow> e = last xs" "set xs \<inter> U cl = {}"
      "central_env.central_ok ce (world_ok ops owned) (U(cl := U cl \<union> set xs)) {} st'" "\<forall>c. \<forall>x\<in>U c. objs st' x = objs st x"
      using laws Inr r by (auto simp: central_env.handed_def[OF ce])
    have "(\<exists>i s. (i, s) \<in> used (heap st') \<and> sizeclass s = cl \<and> x \<in> slots (c_sizes ce) s) \<and>
       (\<forall>c. \<forall>y\<in>U c. {x..<x + class_to_size (c_sizes ce) cl} \<inter> {y..<y + class_to_size (c_sizes ce) c} = {})" if x: "x \<in> set xs" for x
    proof (intro conjI allI ballI)
      have xU: "x \<in> (U(cl := U cl \<union> set xs)) cl" using x by simp
      show "\<exists>i s. (i, s) \<in> used (heap st') \<and> sizeclass s = cl \<and> x \<in> slots (c_sizes ce) s"
        by (rule central_env.held_object[OF ce xs(6) xU]) blast
      fix c y assume y: "y \<in> U c"
      then have yU: "y \<in> (U(cl := U cl \<union> set xs)) c" by (cases "c = cl") simp_all
      have "x \<noteq> y" using central_env.held_class[OF ce xs(6) xU, of c] yU x y xs(5) by auto
      then show "{x..<x + class_to_size (c_sizes ce) cl} \<inter> {y..<y + class_to_size (c_sizes ce) c} = {}"
        by (rule central_env.held_disjoint[OF ce xs(6) xU yU])
    qed
    then show ?thesis using Inr r xs(1-4,7) by blast
  qed
qed

text \<open>C7: in every state that the central free lists reach as the only client of the page heap, without fixed compression and with a
  transfer size of at least 8192 objects, \<^verbatim>\<open>InsertRange\<close> of a list of objects of a class that a client holds always returns, whether the list goes to the transfer cache,
  another class is evicted to make room, or the objects go back to their spans and empty spans and their metadata back to the page heap;
  no word of an object that is still held changes.  Taking the same number of objects right after a list of the transfer size went into
  a free slot gives the same list back.\<close>

theorem InsertRange_returns:
  assumes "central_setting ops owned ce" and "world_ok ops owned {} {} w0" and "central_run ce w0 U st"
    and "0 < cl" and "cl < kNumClasses" and "sll (objs st) f xs" and "xs \<noteq> []" and "set xs \<subseteq> U cl"
  shows "\<exists>st'. InsertRange ce cl f (last xs) (length xs) st = Inr st' \<and> central_run ce w0 (U(cl := U cl - set xs)) st' \<and>
    (\<forall>c. \<forall>y\<in>(U(cl := U cl - set xs)) c. objs st' y = objs st y) \<and>
    (int (length xs) = num_objects_to_move (c_sizes ce) cl \<and> used_slots (central_cache st cl) < cache_size (central_cache st cl) \<longrightarrow>
       (\<exists>st2. RemoveRange ce cl (length xs) st' = Inr (length xs, f, last xs, st2) \<and> objs st2 = objs st))"
proof -
  note ce = central_setting_env[OF assms(1)]
  note ok = central_env.central_run_ok[OF ce assms(3,2)]
  obtain st' where s: "InsertRange ce cl f (last xs) (length xs) st = Inr st'" "\<forall>c. \<forall>x\<in>(U(cl := U cl - set xs)) c. objs st' x = objs st x"
    using central_env.insert_law[OF ce ok assms(4-8)] by blast
  have "central_run ce w0 (U(cl := U cl - set xs)) st'" by (rule central_run.insert[OF assms(3-8) s(1)])
  moreover have "\<exists>st2. RemoveRange ce cl (length xs) st' = Inr (length xs, f, last xs, st2) \<and> objs st2 = objs st"
    if r: "int (length xs) = num_objects_to_move (c_sizes ce) cl" "used_slots (central_cache st cl) < cache_size (central_cache st cl)"
  proof -
    let ?l = "central_cache st cl"
    let ?l' = "?l\<lparr>used_slots := used_slots ?l + 1, tc_slots := (tc_slots ?l)(used_slots ?l := (f, last xs))\<rparr>"
    have sc: "size_class ?l = cl" using central_env.central_class[OF ce ok assms(5)] .
    have "MakeCacheSpace ce cl st = Inr (True, st)" using r(2) by (simp add: MakeCacheSpace_def Let_def)
    then have "st' = set_cfl cl ?l' st" using s(1) r(1) unfolding InsertRange_def sc by (simp add: Let_def)
    then have l: "central_cache st' cl = ?l'" "objs st' = objs st" by (simp_all add: set_cfl_def)
    have "RemoveRange ce cl (length xs) st' = Inr (length xs, f, last xs, set_cfl cl (?l'\<lparr>used_slots := used_slots ?l\<rparr>) st')"
      unfolding RemoveRange_def l(1) Let_def using r(1) sc by simp
    then show ?thesis using l(2) by (simp add: set_cfl_def)
  qed
  ultimately show ?thesis using s by blast
qed

subsection \<open>A concrete run\<close>

text \<open>The lists on the demonstration system: the heap grows by one span, from which a span of objects and its metadata are cut.\<close>

lemma demo_spans:
  "\<exists>w1 w2 w3 i w4 j w5 k w6. sys_alloc demo_env 1048576 demo_world = Inr (Some (8192, 1048576), w1) \<and> record_growth demo_env 1048576 w1 = Inr w2 \<and>
     Ensure3 35 (map_alloc demo_env) 0 (last_key 0 130) (\<lambda>_. None, Inr w2) = (True, [0 \<mapsto> [0 \<mapsto> (\<lambda>_. 0)]], Inr w3) \<and> span_new demo_env w3 = Inr (i, w4) \<and> span_new demo_env w4 = Inr (j, w5) \<and>
     span_new demo_env w5 = Inr (k, w6) \<and> i \<noteq> 0 \<and> i < j \<and> j < k"
proof -
  obtain w1 w2 w3 i w4 where g: "sys_alloc demo_env 1048576 demo_world = Inr (Some (8192, 1048576), w1)" "record_growth demo_env 1048576 w1 = Inr w2"
     "Ensure3 35 (map_alloc demo_env) 0 (last_key 0 130) (\<lambda>_. None, Inr w2) = (True, [0 \<mapsto> [0 \<mapsto> (\<lambda>_. 0)]], Inr w3)" "span_new demo_env w3 = Inr (i, w4)" "i \<noteq> 0" "pw_spans w3 = demo_pool" using demo_grow by blast
  have w4: "pw_spans w4 = \<lparr>free_area = i + sizeof_Span, free_avail = kAllocIncrement - sizeof_Span, free_list = 0, inuse = 1\<rparr>"
    using g(4,6) by (auto simp: span_new_w_def pha_New_def demo_pool_def bindR_eq_Inr sizeof_Span_def split: if_splits)
  then obtain w5 where w5: "span_new demo_env w4 = Inr (i + sizeof_Span, w5)"
    "pw_spans w5 = \<lparr>free_area = i + 2 * sizeof_Span, free_avail = kAllocIncrement - 2 * sizeof_Span, free_list = 0, inuse = 2\<rparr>"
    by (auto simp: span_new_w_def pha_New_def sizeof_Span_def kAllocIncrement_def)
  then obtain w6 where w6: "span_new demo_env w5 = Inr (i + 2 * sizeof_Span, w6)"
    by (auto simp: span_new_w_def pha_New_def sizeof_Span_def kAllocIncrement_def)
  show ?thesis using g(1-5) w5(1) w6 by (intro exI conjI) (assumption | simp add: sizeof_Span_def)+
qed

lemma search_lists_skip:
  "(\<And>q. s \<le> q \<Longrightarrow> q < s + d \<Longrightarrow> normal h q = [] \<and> returned h q = []) \<Longrightarrow>
   search_lists e fl f (d + m) s n h = search_lists e fl f m (s + d) n h"
proof (induction d arbitrary: s)
  case (Suc d)
  have "normal h s = []" "returned h s = []" using Suc.prems[of s] by auto
  moreover have "search_lists e fl f (d + m) (Suc s) n h = search_lists e fl f m (Suc s + d) n h" using Suc.prems by (intro Suc.IH) simp
  ultimately show ?case by simp
qed simp


text \<open>A list with a first span that is longer than needed is cut.\<close>

lemma search_cut:
  assumes "normal h q = [i]" "\<And>p. p \<noteq> q \<Longrightarrow> normal h p = []" "returned h = (\<lambda>_. [])" "n < q" "q \<le> 128" "0 < n" "i \<noteq> 0"
    "spans h i = Some s" "location s = ON_NORMAL_FREELIST" "len s = q" "span_new e (world h) = Inr (j, w)" "i \<noteq> j"
    "\<And>p. start s \<le> p \<Longrightarrow> p < start s + q \<Longrightarrow> has_node h p"
  shows "\<exists>h'. SearchFreeAndLargeLists e fl (Suc f) n h = Inr (i, h') \<and> spans h' = (spans h)(i \<mapsto> s\<lparr>location := IN_USE, len := n\<rparr>,
       j \<mapsto> (NewSpan (start s + n) (q - n))\<lparr>location := ON_NORMAL_FREELIST\<rparr>) \<and>
     normal h' = (\<lambda>_. [])(q - n := [j]) \<and> returned h' = (\<lambda>_. []) \<and> world h' = w \<and> has_node h' = has_node h"
proof -
  have k: "kMaxPages = 128" by (simp add: kMaxPages_def kPageShift_def)
  have nm: "normal h = (\<lambda>_. [])(q := [i])" using assms(1,2) by auto
  have "SearchFreeAndLargeLists e fl (Suc f) n h = search_lists e fl (Suc f) (128 - q) q n h"
    using search_lists_skip[of n "q - n" h e fl "Suc f" "128 - q" n] assms(2-5) by (simp add: SearchFreeAndLargeLists_def k)
  also have "\<dots> = Carve e i n h"
  proof (cases "q = 128")
    case True
    then show ?thesis using assms k by (simp add: get_span_def)
  next
    case False
    then obtain d where "128 - q = Suc d" using assms(5) by (cases "128 - q") auto
    then show ?thesis using assms(1) by simp
  qed
  finally have "SearchFreeAndLargeLists e fl (Suc f) n h = Carve e i n h" .
  moreover have lo: "list_of q = q" "list_of (q - n) = q - n" "(\<lambda>_. [])(q := []) = (\<lambda>_. [] :: nat list)" using assms(5,6) k by (auto simp: list_of_def)
  define l where "l = (NewSpan (start s + n) (q - n))\<lparr>location := ON_NORMAL_FREELIST\<rparr>"
  have l: "start l = start s + n" "len l = q - n" "location l = ON_NORMAL_FREELIST" by (simp_all add: l_def NewSpan_def)
  let ?s1 = "s\<lparr>location := IN_USE\<rparr>"
  let ?H = "put_span j l ((put_span i ?s1 (unlink i s h))\<lparr>world := w\<rparr>)"
  have "has_node ?H (start l)" "has_node ?H (start l + len l - 1)" "0 < len l" using assms(4,6,13) l by simp_all
  then obtain t where t: "RecordSpan j ?H = Inr (?H\<lparr>pagetree := t\<rparr>)" "has_node (?H\<lparr>pagetree := t\<rparr>) = has_node ?H"
    using RecordSpan_node[of ?H j l] by (metis fun_upd_same put_span_frame(1))
  define R where "R = ?H\<lparr>pagetree := t\<rparr>"
  have R: "spans R j = Some l" "has_node R = has_node h" using t(2) by (simp_all add: R_def)
  let ?X = "prep j l (mark_page (start s + n - 1) i (put_span i (?s1\<lparr>len := n\<rparr>) R))"
  have "put_span j l (put_span j (NewSpan (start s + n) (q - n)) ((put_span i ?s1 (unlink i s h))\<lparr>world := w\<rparr>)) = ?H"
    by (simp add: put_span_def)
  moreover have "set_page (start s + n - 1) i (put_span i (?s1\<lparr>len := n\<rparr>) (prep j l R)) = Inr ?X"
    using assms(4,6,13) R(2) by (simp add: set_page_node prep_commute)
  ultimately have c: "Carve e i n h = Inr (i, ?X)"
    using assms(4,8-11) t(1) PrependToFreeList_eq[OF R(1)]
    by (simp add: Carve_def RemoveFromFreeList_eq alloc_span_def Let_def l_def[symmetric] R_def[symmetric])
  have "normal ?X = (\<lambda>_. [])(q - n := [j])" "returned ?X = (\<lambda>_. [])"
    using nm lo assms(3,9,10) l by (simp_all add: R_def prep_def unlink_def Let_def put_span_def mark_page_def)
  moreover have "spans ?X = (spans h)(i \<mapsto> s\<lparr>location := IN_USE, len := n\<rparr>, j \<mapsto> l)" "world ?X = w" "has_node ?X = has_node h"
    using assms(12) R(2) by (simp_all add: R_def fun_upd_twist[of i j])
  ultimately show ?thesis using c \<open>SearchFreeAndLargeLists e fl (Suc f) n h = Carve e i n h\<close> by (simp add: l_def)
qed

lemma two_spans:
  assumes "sys_alloc e 1048576 w0 = Inr (Some (8192, 1048576), w1)" "record_growth e 1048576 w1 = Inr w2"
    "Ensure3 35 (map_alloc e) 0 (last_key 0 130) (\<lambda>_. None, Inr w2) = (True, [0 \<mapsto> [0 \<mapsto> (\<lambda>_. 0)]], Inr w3)" "span_new e w3 = Inr (i, w4)" "span_new e w4 = Inr (j, w5)" "span_new e w5 = Inr (k, w6)"
    "i \<noteq> 0" "i < j" "j < k"
  shows "\<exists>h h' h''. New e demo_pflags (Suc (Suc (Suc f))) 32 (new_PageHeap w0) = Inr (i, h) \<and> spans h i = Some (NewSpan 1 32) \<and>
     RegisterSizeClass i 1 h = Inr h' \<and> spans h' i = Some ((NewSpan 1 32)\<lparr>sizeclass := 1\<rparr>) \<and>
     New e demo_pflags (Suc (Suc (Suc f))) 32 h' = Inr (j, h'') \<and> spans h'' j = Some (NewSpan 33 32)"
proof -
  let ?f = "Suc (Suc (Suc f))"
  have empty: "SearchFreeAndLargeLists e demo_pflags ?f 32 (new_PageHeap w0) = Inr (0, new_PageHeap w0)"
    using search_lists_skip[of 32 96 "new_PageHeap w0" e demo_pflags ?f 0 32]
    by (simp add: SearchFreeAndLargeLists_def kMaxPages_def kPageShift_def new_PageHeap_def)
  obtain h1 where h1: "GrowHeap e demo_pflags ?f 32 (new_PageHeap w0) = Inr (True, h1)" "spans h1 = [i \<mapsto> (NewSpan 1 128)\<lparr>location := ON_NORMAL_FREELIST\<rparr>]"
    "normal h1 = (\<lambda>_. [])(128 := [i])" "returned h1 = (\<lambda>_. [])" "world h1 = w4"
    "pagetree h1 0 \<noteq> None" "the (pagetree h1 0) 0 \<noteq> None"
    using assms by (simp add:  kMaxPages_def new_PageHeap_def EnsureLimit_def demo_pflags_def GrowHeap_def
      kMinSystemAlloc_def kMaxValidPages_def kPageShift_def Let_def alloc_span_def RecordSpan_def get_span_def NewSpan_def
      set_page_def ensure_pages_def demo_tree wrap64_def put_span_def Delete_def MergeIntoFreeList_def merge_prev_def merge_next_def GetDescriptor_def
      PrependToFreeList_def list_of_def IncrementalScavenge_def Carve_def RemoveFromFreeList_def kDefaultReleaseDelay_def)
  have n1: "has_node h1 p" if "p < 129" for p
    using h1(6,7) that by (auto simp: has_node_def ready3_def key3_1_def key3_2_def INTERIOR_BITS_def LEAF_BITS3_def)
  obtain h where h: "SearchFreeAndLargeLists e demo_pflags ?f 32 h1 = Inr (i, h)"
    "spans h = (spans h1)(i \<mapsto> NewSpan 1 32, j \<mapsto> (NewSpan 33 96)\<lparr>location := ON_NORMAL_FREELIST\<rparr>)"
    "normal h = (\<lambda>_. [])(96 := [j])" "returned h = (\<lambda>_. [])" "world h = w5" "has_node h = has_node h1"
    using search_cut[of h1 128 i 32 "(NewSpan 1 128)\<lparr>location := ON_NORMAL_FREELIST\<rparr>" e j w5 demo_pflags "Suc (Suc f)"] h1 assms n1
    by (auto simp: NewSpan_def)
  have new1: "New e demo_pflags ?f 32 (new_PageHeap w0) = Inr (i, h)"
    using empty h1(1) h(1) by (simp add: New_def) (simp add: new_PageHeap_def)
  have hi: "spans h i = Some (NewSpan 1 32)" using h(2) assms(8) by simp
  let ?g = "put_span i ((NewSpan 1 32)\<lparr>sizeclass := 1\<rparr>) h"
  have "\<forall>q. Suc (Suc 0) \<le> q \<and> q < Suc (Suc 0) + 30 \<longrightarrow> has_node ?g q" using n1 h(6) by simp
  then obtain t where t: "set_pages i (Suc (Suc 0)) 30 ?g = Inr (?g\<lparr>pagetree := t\<rparr>)" "has_node (?g\<lparr>pagetree := t\<rparr>) = has_node ?g"
    using set_pages_node by blast
  let ?h = "?g\<lparr>pagetree := t\<rparr>"
  have r: "RegisterSizeClass i 1 h = Inr ?h" using hi t(1) by (simp add: RegisterSizeClass_def NewSpan_def)
  have "normal ?h = (\<lambda>_. [])(96 := [j])" "returned ?h = (\<lambda>_. [])" "world ?h = w5" "has_node ?h = has_node h1"
    "spans ?h j = Some ((NewSpan 33 96)\<lparr>location := ON_NORMAL_FREELIST\<rparr>)"
    using h assms(8) t(2) by (simp_all add: put_span_def)
  then have "\<exists>h''. SearchFreeAndLargeLists e demo_pflags ?f 32 ?h = Inr (j, h'') \<and> spans h'' = (spans ?h)(j \<mapsto> NewSpan 33 32,
      k \<mapsto> (NewSpan 65 64)\<lparr>location := ON_NORMAL_FREELIST\<rparr>)"
    using search_cut[of ?h 96 j 32 "(NewSpan 33 96)\<lparr>location := ON_NORMAL_FREELIST\<rparr>" e k w6 demo_pflags "Suc (Suc f)"] assms n1
    by (auto simp: NewSpan_def)
  then obtain h'' where sh: "SearchFreeAndLargeLists e demo_pflags ?f 32 ?h = Inr (j, h'')"
    and "spans h'' = (spans ?h)(j \<mapsto> NewSpan 33 32, k \<mapsto> (NewSpan 65 64)\<lparr>location := ON_NORMAL_FREELIST\<rparr>)" by blast
  then have h'': "spans h'' j = Some (NewSpan 33 32)" using assms(9) by simp
  from sh have "New e demo_pflags ?f 32 ?h = Inr (j, h'')" using assms by (simp add: New_def)
  moreover have "spans ?h i = Some ((NewSpan 1 32)\<lparr>sizeclass := 1\<rparr>)" by simp
  ultimately show ?thesis using new1 hi r h''(1) by blast
qed


lemma entries_no_Crash: "span_entries ce s p a m \<noteq> Inl Crash"
proof -
  have "set_entries_loop c page q al i k m \<noteq> Inl Crash" for c page q al i k m
    by (induction c page q al i k m rule: set_entries_loop.induct) (auto simp: pt_write_def bindR_def split: option.splits sum.splits)
  then show ?thesis
    by (auto simp: span_entries_def set_metapagetable_entries_def page_table_init_def bindR_def split: option.splits sum.splits if_splits)
qed

lemma cut_no_Crash: "cut_span f z l p t n fm \<noteq> Inl Crash"
  by (induction f z l p t n fm rule: cut_span.induct) auto

context central_env
begin

text \<open>When the page heap has a span for the objects and one for their metadata, \<^verbatim>\<open>Populate\<close> adds a span to the list.\<close>

lemma Populate_adds:
  assumes c: "cinv C A st" and cl: "0 < cl" "cl < kNumClasses"
    and n1: "New (c_env ce) (c_flags ce) (c_fuel ce) (class_to_pages sm cl) (heap st) = Inr (i, h1)" "i \<noteq> 0" "RegisterSizeClass i cl h1 = Inr h2"
    and a: "AlignmentBitsForSize (class_to_size sm cl) = Inr a" and s: "spans h2 i = Some s"
    and n2: "New (c_env ce) (c_flags ce) (c_fuel ce) ((len s * unat (metadataBytes (c_config ce)) + (2 ^ a - 1)) div 2 ^ a) h2 = Inr (j, h3)"
      "j \<noteq> 0" "spans h3 j = Some t"
  shows "\<exists>st'. Populate ce cl st = Inr st' \<and> nonempty_spans (central_cache st' cl) \<noteq> []"
proof -
  let ?E = "span_entries ce s (start t * 2 ^ kPageShift) a (meta st)"
  obtain P where P: "inv {} P (heap st)" "hinv C (heap st) (meta st)" "objs_ok sm C A st" by (rule cinvE[OF c])
  have sc: "size_class (central_cache st cl) = cl" using P(3) cl by (simp add: objs_ok_def list_ok_def)
  have n: "0 < class_to_pages sm cl" using sizes[OF cl] by (simp add: class_ok_def)
  have pt: "page_table_init (c_config ce) (c_mmap ce) (meta st) = Inr (meta st)" using P(2) by (simp add: hinv_def page_table_init_def)
  have "new_post (class_to_pages sm cl) P (heap st) (i, h1)" using New_ok[OF P(1) heap_fuel[OF P(1)] n, of "c_flags ce"] n1(1) by simp
  then obtain P1 where P1: "inv {} P1 h1" and al: "allocated (class_to_pages sm cl) (heap st) i h1" by (auto simp: new_post_def)
  have at: "attach_metadata ce a i (h2, meta st) = bindR ?E (\<lambda>m. Inr (i, h3, m))"
    using n2 s by (simp add: attach_metadata_def get_span_def)
  have "outcome (bindR ?E (\<lambda>m. Inr (i, h3, m))) (acquired C (heap st) cl)"
    using acquire_ok[OF P(2) cl P1 al] n1(2,3) pt mode a at by simp
  then obtain m where m: "?E = Inr m" "acquired C (heap st) cl (i, h3, m)"
    using entries_no_Crash[of ce s "start t * 2 ^ kPageShift" a "meta st"] by (cases ?E) (auto simp: bindR_def)
  obtain s' where s': "spans h3 i = Some s'" by (rule acquired_span[OF c cl m(2) n1(2)])
  let ?p = "start s' * 2 ^ kPageShift"
  let ?X = "cut_span (c_fuel ce) (class_to_size sm cl) (?p + class_to_pages sm cl * 2 ^ kPageShift) ?p None 0 (objects s', objs st)"
  obtain num f w where X: "?X = Inr (num, f, w)"
    using fill_ok[OF c cl m(2) n1(2)] s' cut_no_Crash by (cases ?X) (auto simp: get_span_def)
  show ?thesis using n1 pt mode a at m(1) s' X by (simp add: Populate_def Let_def sc get_span_def set_cfl_def)
qed

end

definition demo_sizes :: SizeMap where
  "demo_sizes = (case SizeMap_Init 64 kDefaultTransferNumObjecs blank_SizeMap of Inr m \<Rightarrow> m | Inl _ \<Rightarrow> blank_SizeMap)"

definition demo_ce :: "(nat \<times> nat set) pworld cenv" where
  "demo_ce = \<lparr>c_env = demo_env, c_flags = demo_pflags, c_fuel = 2 ^ 48,
     c_config = \<lparr>fixedCompression = False, metadataBytes = 8, deepMetadata = False, deepMetadataBytes = 0, systemPageSize = 4096\<rparr>,
     c_mmap = (\<lambda>a n m. Some a), c_sizes = demo_sizes\<rparr>"

definition blank_cfl :: cfl where
  "blank_cfl = \<lparr>size_class = 0, empty_spans = [], nonempty_spans = [], num_spans = 0, counter = 0, tc_slots = (\<lambda>_. (0, 0)),
     used_slots = 0, cache_size = 0, max_cache_size = 0\<rparr>"

definition demo_cfl :: "nat \<Rightarrow> cfl" where
  "demo_cfl c = (case CentralFreeList_Init demo_sizes c blank_cfl of Inr l \<Rightarrow> l | Inl _ \<Rightarrow> blank_cfl)"

definition demo_central :: "(nat \<times> nat set) pworld central" where
  "demo_central = \<lparr>heap = new_PageHeap demo_world, meta = \<lparr>pageTable = Some (\<lambda>_. 0), isPageTableAlloced = True, mmem = (\<lambda>_. None)\<rparr>,
     objs = (\<lambda>_. 0), central_cache = demo_cfl, race_counter = 0\<rparr>"

lemma demo_sizes_run:
  "SizeMap_Init 64 kDefaultTransferNumObjecs blank_SizeMap = Inr demo_sizes" "class_to_size demo_sizes 1 = 8" "class_to_pages demo_sizes 1 = 32"
proof -
  have f: "8192 \<le> kDefaultTransferNumObjecs" by (simp add: kDefaultTransferNumObjecs_def)
  obtain m where m: "SizeMap_Init 64 kDefaultTransferNumObjecs blank_SizeMap = Inr m"
    "class_to_size m = upds 1 size_table (class_to_size blank_SizeMap)" "class_to_pages m = upds 1 pages_table (class_to_pages blank_SizeMap)"
    by (rule Init_run[OF order_refl f, of blank_SizeMap])
  moreover have "upds 1 size_table g 1 = 8" "upds 1 pages_table g 1 = 32" for g
    by (simp_all add: upds_nth size_table_facts(2) pages_table_facts(1)) (simp_all add: size_table_def pages_table_def)
  ultimately show "SizeMap_Init 64 kDefaultTransferNumObjecs blank_SizeMap = Inr demo_sizes" "class_to_size demo_sizes 1 = 8"
    "class_to_pages demo_sizes 1 = 32" by (simp_all add: demo_sizes_def)
qed

lemma demo_setting: "central_setting demo_os demo_owned demo_ce"
proof -
  have "8192 \<le> kDefaultTransferNumObjecs" by (simp add: kDefaultTransferNumObjecs_def)
  then have "\<exists>fuel flag m0. 64 \<le> fuel \<and> 8192 \<le> flag \<and> SizeMap_Init fuel flag m0 = Inr demo_sizes" using demo_sizes_run(1) by blast
  then show ?thesis using demo_os_ok by (auto simp: central_setting_def demo_ce_def)
qed

interpretation demo_lists: central_env demo_ce "world_ok demo_os demo_owned"
  by (rule central_setting_env[OF demo_setting])

lemma Init_returns:
  assumes "0 < c \<Longrightarrow> 0 < class_to_size sm c \<and> 2 \<le> num_objects_to_move sm c" shows "\<exists>l. CentralFreeList_Init sm c l0 = Inr l"
proof (cases "0 < c")
  case True
  then have "int (class_to_size sm c) * num_objects_to_move sm c \<noteq> 0" using assms by simp
  then show ?thesis by (simp add: CentralFreeList_Init_def Let_def)
qed (simp add: CentralFreeList_Init_def Let_def)

lemma demo_cfl_run: assumes "c < kNumClasses" shows "CentralFreeList_Init (c_sizes demo_ce) c blank_cfl = Inr (demo_cfl c)"
proof -
  have f: "8192 \<le> kDefaultTransferNumObjecs" by (simp add: kDefaultTransferNumObjecs_def)
  have "0 < c \<Longrightarrow> 0 < class_to_size demo_sizes c \<and> 2 \<le> num_objects_to_move demo_sizes c"
    using Init_classes[OF order_refl f demo_sizes_run(1) _ assms] by simp
  then obtain l where "CentralFreeList_Init demo_sizes c blank_cfl = Inr l" using Init_returns[of c demo_sizes blank_cfl] by blast
  then show ?thesis by (simp add: demo_cfl_def demo_ce_def)
qed

lemma demo_start: "central_run demo_ce demo_world (\<lambda>_. {}) demo_central"
proof -
  have i: "page_table_init (c_config demo_ce) (c_mmap demo_ce) (meta demo_central) = Inr (meta demo_central)" "pageTable (meta demo_central) = Some (\<lambda>_. 0)"
    by (simp_all add: page_table_init_def demo_central_def)
  from central_run.start[OF i demo_cfl_run, of demo_world False "\<lambda>_. 0"] show ?thesis
    by (simp add: demo_central_def SetAggressiveDecommit_def new_PageHeap_def)
qed

lemma Alignment_8: "AlignmentBitsForSize 8 = Inr 3"
proof -
  obtain k where k: "AlignmentForSize 8 = Inr (2 ^ k)" "AlignmentBitsForSize 8 = Inr k" using AlignmentBitsForSize_eq[of 8] by blast
  have "(8::nat) AND 7 = 0" by simp
  then have "AlignmentForSize 8 = Inr 8" by (simp add: AlignmentForSize_def size_consts Let_def)
  then have "(2::nat) ^ k = 2 ^ 3" using k(1) by simp
  then have "k = 3" by (simp only: power_inject_exp)
  then show ?thesis using k(2) by simp
qed

lemma demo_remove:
  "\<exists>x st. RemoveRange demo_ce 1 1 demo_central = Inr (1, x, x, st) \<and> sll (objs st) x [x]"
proof -
  have cl: "(0::nat) < 1" "1 < kNumClasses" by (simp_all add: kNumClasses_def kBaseClasses_def)
  obtain w1 w2 w3 i w4 j w5 k w6 where g: "sys_alloc demo_env 1048576 demo_world = Inr (Some (8192, 1048576), w1)" "record_growth demo_env 1048576 w1 = Inr w2"
     "Ensure3 35 (map_alloc demo_env) 0 (last_key 0 130) (\<lambda>_. None, Inr w2) = (True, [0 \<mapsto> [0 \<mapsto> (\<lambda>_. 0)]], Inr w3)" "span_new demo_env w3 = Inr (i, w4)" "span_new demo_env w4 = Inr (j, w5)"
     "span_new demo_env w5 = Inr (k, w6)" "i \<noteq> 0" "i < j" "j < k" using demo_spans by blast
  obtain f where f: "c_fuel demo_ce = Suc (Suc (Suc f))"
    by (rule that[of "2 ^ 48 - 3"]) (simp add: demo_ce_def)
  obtain h h' h'' where h: "New demo_env demo_pflags (Suc (Suc (Suc f))) 32 (new_PageHeap demo_world) = Inr (i, h)" "RegisterSizeClass i 1 h = Inr h'"
    "spans h' i = Some ((NewSpan 1 32)\<lparr>sizeclass := 1\<rparr>)" "New demo_env demo_pflags (Suc (Suc (Suc f))) 32 h' = Inr (j, h'')"
    "spans h'' j = Some (NewSpan 33 32)" using two_spans[OF g, of f] by blast
  have "central_env.central_ok demo_ce (world_ok demo_os demo_owned) (\<lambda>_. {}) {} demo_central"
    by (rule demo_lists.central_run_ok[OF demo_start demo_world_ok])
  then obtain C A where c: "demo_lists.cinv C A demo_central"
    unfolding demo_lists.central_ok_def demo_lists.central_inv_def by blast
  have e: "c_env demo_ce = demo_env" "c_flags demo_ce = demo_pflags" "heap demo_central = new_PageHeap demo_world" "c_sizes demo_ce = demo_sizes"
    "unat (metadataBytes (c_config demo_ce)) = 8" by (simp_all add: demo_ce_def demo_central_def)
  have a: "AlignmentBitsForSize (class_to_size demo_sizes 1) = Inr 3" unfolding demo_sizes_run(2) by (rule Alignment_8)
  have n: "(len ((NewSpan 1 32)\<lparr>sizeclass := 1\<rparr>) * unat (metadataBytes (c_config demo_ce)) + (2 ^ 3 - 1)) div 2 ^ 3 = 32"
    by (simp add: NewSpan_def e)
  have "\<exists>st'. Populate demo_ce 1 demo_central = Inr st' \<and> nonempty_spans (central_cache st' 1) \<noteq> []"
    by (rule demo_lists.Populate_adds[OF c cl _ g(7) h(2) a[folded e(4)] h(3) _ _ h(5)], unfold e n f demo_sizes_run(3))
      (use h(1,4) g in \<open>simp_all add: NewSpan_def\<close>)
  then obtain st1 where p: "Populate demo_ce 1 demo_central = Inr st1" "nonempty_spans (central_cache st1 1) \<noteq> []" by blast
  obtain C1 where c1: "demo_lists.cinv C1 A st1" using demo_lists.Populate_ok[OF c cl] p(1) by auto
  obtain xs st where x: "xs \<noteq> []" "length xs \<le> 1" "FetchFromOneSpans 1 1 st1 = Inr (length xs, hd xs, last xs, st)" "sll (objs st) (hd xs) xs"
    using demo_lists.FetchFromOneSpans_ok[OF c1 cl, of 1] p(2) by auto
  obtain x where xs: "xs = [x]" using x(1,2) by (cases xs) auto
  have l: "nonempty_spans (central_cache demo_central 1) = []" "used_slots (central_cache demo_central 1) = 0"
    using CentralFreeList_Init_fields[OF demo_cfl_run[OF cl(2)]] by (simp_all add: demo_central_def)
  have "FetchFromOneSpans 1 1 demo_central = Inr (0, 0, 0, demo_central)" using l(1) by (simp add: FetchFromOneSpans_def Let_def)
  then have "FetchFromOneSpansSafe demo_ce 1 1 demo_central = Inr (1, x, x, st)" using p(1) x(3) xs by (simp add: FetchFromOneSpansSafe_def)
  then have "RemoveRange demo_ce 1 1 demo_central = Inr (1, x, x, st)"
    using l(2) fetch_more.simps[of 1 1 1 x st] by (simp add: RemoveRange_def Let_def)
  then show ?thesis using x(4) xs by auto
qed

theorem RemoveRange_exclusive_witness:
  "\<exists>x st'. RemoveRange demo_ce 1 1 demo_central = Inr (1, x, x, st') \<and>
     (\<exists>i s. (i, s) \<in> used (heap st') \<and> sizeclass s = 1 \<and> x \<in> slots demo_sizes s)"
proof -
  obtain x st where r: "RemoveRange demo_ce 1 1 demo_central = Inr (1, x, x, st)" "sll (objs st) x [x]" using demo_remove by blast
  have cl: "(0::nat) < 1" "1 < kNumClasses" by (simp_all add: kNumClasses_def kBaseClasses_def)
  have s: "c_sizes demo_ce = demo_sizes" by (simp add: demo_ce_def)
  show ?thesis using RemoveRange_exclusive[OF demo_setting demo_world_ok demo_start cl cl(1)] r sll_unique[OF r(2)] unfolding s by fastforce
qed

theorem InsertRange_returns_witness:
  "\<exists>U x st st'. central_run demo_ce demo_world U st \<and> U 1 = {x} \<and> InsertRange demo_ce 1 x x 1 st = Inr st' \<and>
     central_run demo_ce demo_world (U(1 := {})) st'"
proof -
  obtain x st where r: "RemoveRange demo_ce 1 1 demo_central = Inr (1, x, x, st)" "sll (objs st) x [x]" using demo_remove by blast
  have cl: "(0::nat) < 1" "1 < kNumClasses" by (simp_all add: kNumClasses_def kBaseClasses_def)
  let ?U = "(\<lambda>_. {})(1 := {} \<union> set [x])"
  have run: "central_run demo_ce demo_world ?U st" by (rule central_run.remove[OF demo_start cl cl(1) r])
  obtain st' where "InsertRange demo_ce 1 x x 1 st = Inr st'" "central_run demo_ce demo_world (?U(1 := ?U 1 - set [x])) st'"
    using InsertRange_returns[OF demo_setting demo_world_ok run cl r(2)] by auto
  then show ?thesis using run by (intro exI[of _ ?U] exI[of _ x] exI[of _ st] exI[of _ st']) auto
qed

end
