(* ===== verification/ThreadCache.thy ===== *)
theory ThreadCache
  imports CentralFreeList PageHeapAllocator
begin

section \<open>The thread caches (thread_cache.h, thread_cache.cc)\<close>

text \<open>
  \<^verbatim>\<open>class ThreadCache\<close>: every thread keeps a list of free objects for every size class and returns objects to the
  central free lists when a list gets too long or the cache too big.  The caches of all threads form a doubly linked list;
  they share a budget of bytes, from which a thread that runs out takes, or else steals from another thread.

  The objects are linked through the store \<open>objs\<close> of the central free lists.  The 32-bit lengths of a list keep their
  width; the sizes in bytes are integers.  A cache is known by its address, which \<^verbatim>\<open>threadcache_allocator\<close> gives: \<open>tc_new\<close> is its
  \<^verbatim>\<open>New\<close> in the world of the page heap.  \<open>me\<close> is the calling thread.  The calls run one at a time.
\<close>

definition kMaxThreadCacheSize :: int where "kMaxThreadCacheSize = 4 * 2 ^ 20"
definition kDefaultOverallThreadCacheSize :: int where "kDefaultOverallThreadCacheSize = 8 * kMaxThreadCacheSize"
definition kMinThreadCacheSize :: int where "kMinThreadCacheSize = int kMaxSize * 2"
definition kStealAmount :: int where "kStealAmount = 2 ^ 16"
definition kMaxOverages :: nat where "kMaxOverages = 3"
definition kMaxDynamicFreeListLength :: int where "kMaxDynamicFreeListLength = 8192"

subsection \<open>ThreadCache::FreeList\<close>

record freelist =
  fhead :: nat
  flength :: nat
  lowater :: nat
  max_length :: nat
  length_overages :: nat

definition FreeList_Init :: freelist where
  "FreeList_Init = \<lparr>fhead = 0, flength = 0, lowater = 0, max_length = 1, length_overages = 0\<rparr>"

definition clear_lowwatermark :: "freelist \<Rightarrow> freelist" where "clear_lowwatermark l = l\<lparr>lowater := flength l\<rparr>"

definition FreeList_Push :: "nat \<Rightarrow> freelist \<Rightarrow> store \<Rightarrow> (freelist \<times> store) res" where
  "FreeList_Push ptr l m =
     bindR (SLL_Push ptr (fhead l, m)) (\<lambda>(h, m). Inr (l\<lparr>fhead := h, flength := (flength l + 1) mod 2 ^ 32\<rparr>, m))"

definition drop_length :: "nat \<Rightarrow> freelist \<Rightarrow> freelist" where
  "drop_length N l =
     (let n = (flength l + 2 ^ 32 - N mod 2 ^ 32) mod 2 ^ 32
      in l\<lparr>flength := n, lowater := (if n < lowater l then n else lowater l)\<rparr>)"

definition FreeList_Pop :: "freelist \<Rightarrow> store \<Rightarrow> (nat \<times> freelist \<times> store) res" where
  "FreeList_Pop l m =
     (let l = drop_length 1 l in bindR (SLL_Pop (fhead l, m)) (\<lambda>(x, h, m). Inr (x, l\<lparr>fhead := h\<rparr>, m)))"

definition FreeList_PushRange :: "nat \<Rightarrow> nat \<Rightarrow> nat \<Rightarrow> freelist \<Rightarrow> store \<Rightarrow> (freelist \<times> store) res" where
  "FreeList_PushRange N start_obj end_obj l m =
     bindR (SLL_PushRange start_obj end_obj (fhead l, m)) (\<lambda>(h, m).
       Inr (l\<lparr>fhead := h, flength := (flength l + N) mod 2 ^ 32\<rparr>, m))"

definition FreeList_PopRange :: "nat \<Rightarrow> freelist \<Rightarrow> store \<Rightarrow> (nat \<times> nat \<times> freelist \<times> store) res" where
  "FreeList_PopRange N l m =
     bindR (SLL_PopRange N (fhead l, m)) (\<lambda>(h, t, nx, m). Inr (h, t, drop_length N (l\<lparr>fhead := nx\<rparr>), m))"

subsection \<open>The caches of all threads\<close>

record tcache =
  next_cache :: nat
  prev_cache :: nat
  tsize :: int
  tmax_size :: int
  tlist :: "nat \<Rightarrow> freelist"
  tid :: nat
  in_setspecific :: bool

type_synonym pool_state = "pha \<times> store"

record 'w tenv =
  t_ce :: "'w cenv"
  tc_new :: "pool_state \<Rightarrow> 'w \<Rightarrow> (nat \<times> pool_state \<times> 'w) res"

record 'w tcs =
  central :: "'w central"
  caches :: "nat \<Rightarrow> tcache option"
  tc_pool :: pool_state
  thread_heaps :: nat
  thread_heap_count :: int
  next_memory_steal :: nat
  overall_thread_cache_size :: int
  per_thread_cache_size :: int
  unclaimed_cache_space :: int
  tsd_inited :: bool
  threadlocal_heap :: "nat \<Rightarrow> nat"
  min_size_for_slow_path :: "nat \<Rightarrow> nat"
  heap_key :: "nat \<Rightarrow> nat"

definition get_cache :: "nat \<Rightarrow> 'w tcs \<Rightarrow> tcache res" where "get_cache i st = of_opt Segv (caches st i)"

definition put_cache :: "nat \<Rightarrow> tcache \<Rightarrow> 'w tcs \<Rightarrow> 'w tcs" where
  "put_cache i c st = st\<lparr>caches := (caches st)(i \<mapsto> c)\<rparr>"

definition put_list :: "nat \<Rightarrow> freelist \<Rightarrow> tcache \<Rightarrow> tcache" where "put_list cl l c = c\<lparr>tlist := (tlist c)(cl := l)\<rparr>"

subsection \<open>Transfers to and from the central free lists\<close>

text \<open>The growth of \<^verbatim>\<open>max_length\<close> after a fetch.\<close>

definition grow_max_length :: "int \<Rightarrow> freelist \<Rightarrow> freelist res" where
  "grow_max_length batch_size l =
     (if int (max_length l) < batch_size then Inr (l\<lparr>max_length := max_length l + 1\<rparr>)
      else if batch_size = 0 then Inl Trap
      else
        let new_length = min (int (max_length l) + batch_size) kMaxDynamicFreeListLength;
            new_length = new_length - new_length mod batch_size
        in Inr (l\<lparr>max_length := nat new_length\<rparr>))"

definition FetchFromCentralCache :: "'w cenv \<Rightarrow> nat \<Rightarrow> nat \<Rightarrow> tcache \<Rightarrow> 'w central \<Rightarrow> (nat \<times> tcache \<times> 'w central) res" where
  "FetchFromCentralCache ce cl byte_size c cen =
     (let l = tlist c cl;
          batch_size = num_objects_to_move (c_sizes ce) cl;
          num_to_move = min (int (max_length l)) batch_size
      in bindR (RemoveRange ce cl (nat num_to_move) cen) (\<lambda>(fetch_count, start_obj, end_obj, cen).
         bindR
           (if 1 \<le> fetch_count then
              bindR (SLL_Next start_obj (objs cen)) (\<lambda>second.
              bindR (FreeList_PushRange (fetch_count - 1) second end_obj l (objs cen)) (\<lambda>(l, m).
                Inr (c\<lparr>tsize := tsize c + int (byte_size * (fetch_count - 1))\<rparr>, l, cen\<lparr>objs := m\<rparr>)))
            else Inr (c, l, cen))
           (\<lambda>(c, l, cen).
             bindR (grow_max_length batch_size l) (\<lambda>l. Inr (start_obj, put_list cl l c, cen)))))"

text \<open>The loop of \<^verbatim>\<open>ReleaseToCentralCache\<close>, with the last, shorter chain.  It does not end when no object moves at a time.\<close>

function release_batches :: "'w cenv \<Rightarrow> nat \<Rightarrow> int \<Rightarrow> int \<Rightarrow> freelist \<Rightarrow> 'w central \<Rightarrow> (freelist \<times> 'w central) res" where
  "release_batches ce cl batch_size N l cen =
     (if batch_size < N then
        if batch_size \<le> 0 then Inl Diverge
        else
          bindR (FreeList_PopRange (nat batch_size) l (objs cen)) (\<lambda>(head, tail, l, m).
          bindR (InsertRange ce cl head tail (nat batch_size) (cen\<lparr>objs := m\<rparr>)) (\<lambda>cen.
            release_batches ce cl batch_size (N - batch_size) l cen))
      else
        bindR (FreeList_PopRange (nat N) l (objs cen)) (\<lambda>(head, tail, l, m).
        bindR (InsertRange ce cl head tail (nat N) (cen\<lparr>objs := m\<rparr>)) (\<lambda>cen. Inr (l, cen))))"
  by pat_completeness auto

termination by (relation "measure (\<lambda>(ce, cl, batch_size, N, l, cen). nat N)") auto

declare release_batches.simps [simp del]

definition ReleaseToCentralCache :: "'w cenv \<Rightarrow> nat \<Rightarrow> int \<Rightarrow> tcache \<Rightarrow> 'w central \<Rightarrow> (tcache \<times> 'w central) res" where
  "ReleaseToCentralCache ce cl N c cen =
     (let src = tlist c cl;
          N = (if int (flength src) < N then int (flength src) else N);
          delta_bytes = N * int (class_to_size (c_sizes ce) cl)
      in bindR (release_batches ce cl (num_objects_to_move (c_sizes ce) cl) N src cen) (\<lambda>(src, cen).
           Inr (put_list cl src (c\<lparr>tsize := tsize c - delta_bytes\<rparr>), cen)))"

definition ListTooLong :: "'w cenv \<Rightarrow> nat \<Rightarrow> tcache \<Rightarrow> 'w central \<Rightarrow> (tcache \<times> 'w central) res" where
  "ListTooLong ce cl c cen =
     (let batch_size = num_objects_to_move (c_sizes ce) cl in
      bindR (ReleaseToCentralCache ce cl batch_size c cen) (\<lambda>(c, cen).
        let l = tlist c cl;
            l = (if int (max_length l) < batch_size then l\<lparr>max_length := max_length l + 1\<rparr>
                 else if batch_size < int (max_length l) then
                   let l = l\<lparr>length_overages := length_overages l + 1\<rparr> in
                   if kMaxOverages < length_overages l
                   then l\<lparr>max_length := nat (int (max_length l) - batch_size), length_overages := 0\<rparr>
                   else l
                 else l)
        in Inr (put_list cl l c, cen)))"

subsection \<open>The budget of the caches\<close>

text \<open>The loop that steals from another thread, with the number of tries left.  \<open>i\<close> is the cache that needs space; it need not
  be linked yet.  \<open>ms\<close> is its \<^verbatim>\<open>max_size_\<close>.\<close>

fun steal_loop :: "nat \<Rightarrow> nat \<Rightarrow> int \<Rightarrow> 'w tcs \<Rightarrow> (int \<times> 'w tcs) res" where
  "steal_loop 0 i ms st = Inr (ms, st)"
| "steal_loop (Suc n) i ms st =
     (let st = (if next_memory_steal st = 0 then st\<lparr>next_memory_steal := thread_heaps st\<rparr> else st);
          j = next_memory_steal st
      in bindR (get_cache j st) (\<lambda>v.
           if j = i \<or> tmax_size v \<le> kMinThreadCacheSize
           then steal_loop n i ms (st\<lparr>next_memory_steal := next_cache v\<rparr>)
           else Inr (ms + kStealAmount,
                  (put_cache j (v\<lparr>tmax_size := tmax_size v - kStealAmount\<rparr>) st)\<lparr>next_memory_steal := next_cache v\<rparr>)))"

definition IncreaseCacheLimitLocked :: "nat \<Rightarrow> int \<Rightarrow> 'w tcs \<Rightarrow> (int \<times> 'w tcs) res" where
  "IncreaseCacheLimitLocked i ms st =
     (if 0 < unclaimed_cache_space st
      then Inr (ms + kStealAmount, st\<lparr>unclaimed_cache_space := unclaimed_cache_space st - kStealAmount\<rparr>)
      else steal_loop 10 i ms st)"

definition IncreaseCacheLimit :: "nat \<Rightarrow> 'w tcs \<Rightarrow> 'w tcs res" where
  "IncreaseCacheLimit i st =
     bindR (get_cache i st) (\<lambda>c.
     bindR (IncreaseCacheLimitLocked i (tmax_size c) st) (\<lambda>(ms, st).
     bindR (get_cache i st) (\<lambda>c. Inr (put_cache i (c\<lparr>tmax_size := ms\<rparr>) st))))"

text \<open>The loop of \<^verbatim>\<open>Scavenge\<close> over the classes from \<open>cl\<close> on, \<open>n\<close> of them.\<close>

fun scavenge_loop :: "'w cenv \<Rightarrow> nat \<Rightarrow> nat \<Rightarrow> tcache \<Rightarrow> 'w central \<Rightarrow> (tcache \<times> 'w central) res" where
  "scavenge_loop ce 0 cl c cen = Inr (c, cen)"
| "scavenge_loop ce (Suc n) cl c cen =
     (let lowmark = lowater (tlist c cl) in
      bindR
        (if 0 < lowmark then
           let drop = (if 1 < lowmark then lowmark div 2 else 1) in
           bindR (ReleaseToCentralCache ce cl (int drop) c cen) (\<lambda>(c, cen).
             let batch_size = num_objects_to_move (c_sizes ce) cl; l = tlist c cl in
             Inr (if batch_size < int (max_length l)
                  then put_list cl (l\<lparr>max_length := nat (max (int (max_length l) - batch_size) batch_size)\<rparr>) c else c, cen))
         else Inr (c, cen))
        (\<lambda>(c, cen). scavenge_loop ce n (cl + 1) (put_list cl (clear_lowwatermark (tlist c cl)) c) cen))"

definition Scavenge :: "'w cenv \<Rightarrow> nat \<Rightarrow> 'w tcs \<Rightarrow> 'w tcs res" where
  "Scavenge ce i st =
     bindR (get_cache i st) (\<lambda>c.
     bindR (scavenge_loop ce kNumClasses 0 c (central st)) (\<lambda>(c, cen).
       IncreaseCacheLimit i (put_cache i c (st\<lparr>central := cen\<rparr>))))"

subsection \<open>Allocate and Deallocate\<close>

definition Allocate :: "'w cenv \<Rightarrow> nat \<Rightarrow> nat \<Rightarrow> nat \<Rightarrow> 'w tcs \<Rightarrow> (nat \<times> 'w tcs) res" where
  "Allocate ce i sz cl st =
     bindR (get_cache i st) (\<lambda>c.
       if fhead (tlist c cl) = 0 then
         bindR (FetchFromCentralCache ce cl sz c (central st)) (\<lambda>(x, c, cen). Inr (x, put_cache i c (st\<lparr>central := cen\<rparr>)))
       else
         bindR (FreeList_Pop (tlist c cl) (objs (central st))) (\<lambda>(x, l, m).
           Inr (x, put_cache i (put_list cl l (c\<lparr>tsize := tsize c - int sz\<rparr>))
                     (st\<lparr>central := (central st)\<lparr>objs := m\<rparr>\<rparr>))))"

text \<open>The bitwise or of two signed numbers is negative when one of them is.\<close>

definition Deallocate :: "'w cenv \<Rightarrow> nat \<Rightarrow> nat \<Rightarrow> nat \<Rightarrow> 'w tcs \<Rightarrow> 'w tcs res" where
  "Deallocate ce i ptr cl st =
     bindR (get_cache i st) (\<lambda>c.
       let c = c\<lparr>tsize := tsize c + int (class_to_size (c_sizes ce) cl)\<rparr>;
           size_headroom = tmax_size c - tsize c - 1
       in bindR (FreeList_Push ptr (tlist c cl) (objs (central st))) (\<lambda>(l, m).
          let c = put_list cl l c;
              list_headroom = int (max_length l) - int (flength l);
              cen = (central st)\<lparr>objs := m\<rparr>
          in if list_headroom < 0 \<or> size_headroom < 0 then
               bindR (if list_headroom < 0 then ListTooLong ce cl c cen else Inr (c, cen)) (\<lambda>(c, cen).
                 let st = put_cache i c (st\<lparr>central := cen\<rparr>) in
                 if tmax_size c \<le> tsize c then Scavenge ce i st else Inr st)
             else Inr (put_cache i c (st\<lparr>central := cen\<rparr>))))"

subsection \<open>The life of a cache\<close>

definition ThreadCache_Init :: "nat \<Rightarrow> nat \<Rightarrow> 'w tcs \<Rightarrow> 'w tcs res" where
  "ThreadCache_Init i me st =
     bindR (IncreaseCacheLimitLocked i 0 st) (\<lambda>(ms, st).
       let (ms, st) =
         (if ms = 0
          then (kMinThreadCacheSize, st\<lparr>unclaimed_cache_space := unclaimed_cache_space st - kMinThreadCacheSize\<rparr>)
          else (ms, st))
       in Inr (put_cache i \<lparr>next_cache = 0, prev_cache = 0, tsize = 0, tmax_size = ms, tlist = (\<lambda>_. FreeList_Init),
                            tid = me, in_setspecific = False\<rparr> st))"

fun cleanup_loop :: "'w cenv \<Rightarrow> nat \<Rightarrow> nat \<Rightarrow> tcache \<Rightarrow> 'w central \<Rightarrow> (tcache \<times> 'w central) res" where
  "cleanup_loop ce 0 cl c cen = Inr (c, cen)"
| "cleanup_loop ce (Suc n) cl c cen =
     bindR
       (if 0 < flength (tlist c cl) then ReleaseToCentralCache ce cl (int (flength (tlist c cl))) c cen else Inr (c, cen))
       (\<lambda>(c, cen). cleanup_loop ce n (cl + 1) c cen)"

definition Cleanup :: "'w cenv \<Rightarrow> nat \<Rightarrow> 'w tcs \<Rightarrow> 'w tcs res" where
  "Cleanup ce i st =
     bindR (get_cache i st) (\<lambda>c.
     bindR (cleanup_loop ce kNumClasses 0 c (central st)) (\<lambda>(c, cen). Inr (put_cache i c (st\<lparr>central := cen\<rparr>))))"

definition set_prev :: "nat \<Rightarrow> nat \<Rightarrow> 'w tcs \<Rightarrow> 'w tcs res" where
  "set_prev i p st = bindR (get_cache i st) (\<lambda>c. Inr (put_cache i (c\<lparr>prev_cache := p\<rparr>) st))"

definition set_next :: "nat \<Rightarrow> nat \<Rightarrow> 'w tcs \<Rightarrow> 'w tcs res" where
  "set_next i n st = bindR (get_cache i st) (\<lambda>c. Inr (put_cache i (c\<lparr>next_cache := n\<rparr>) st))"

definition NewHeap :: "'w tenv \<Rightarrow> nat \<Rightarrow> 'w tcs \<Rightarrow> (nat \<times> 'w tcs) res" where
  "NewHeap te me st =
     bindR (tc_new te (tc_pool st) (world (heap (central st)))) (\<lambda>(i, p, w).
     let cen = central st;
         st = st\<lparr>tc_pool := p, central := cen\<lparr>heap := (heap cen)\<lparr>world := w\<rparr>\<rparr>\<rparr>
     in bindR (ThreadCache_Init i me st) (\<lambda>st.
        bindR (set_next i (thread_heaps st) st) (\<lambda>st.
        bindR (set_prev i 0 st) (\<lambda>st.
        bindR (if thread_heaps st \<noteq> 0 then set_prev (thread_heaps st) i st else Inr (st\<lparr>next_memory_steal := i\<rparr>)) (\<lambda>st.
          Inr (i, st\<lparr>thread_heaps := i, thread_heap_count := thread_heap_count st + 1\<rparr>))))))"

definition DeleteCache :: "'w cenv \<Rightarrow> nat \<Rightarrow> 'w tcs \<Rightarrow> 'w tcs res" where
  "DeleteCache ce i st =
     bindR (Cleanup ce i st) (\<lambda>st.
     bindR (get_cache i st) (\<lambda>c.
     bindR (if next_cache c \<noteq> 0 then set_prev (next_cache c) (prev_cache c) st else Inr st) (\<lambda>st.
     bindR (if prev_cache c \<noteq> 0 then set_next (prev_cache c) (next_cache c) st else Inr st) (\<lambda>st.
       let st = (if thread_heaps st = i then st\<lparr>thread_heaps := next_cache c\<rparr> else st);
           st = st\<lparr>thread_heap_count := thread_heap_count st - 1\<rparr>;
           st = (if next_memory_steal st = i then st\<lparr>next_memory_steal := next_cache c\<rparr> else st);
           st = (if next_memory_steal st = 0 then st\<lparr>next_memory_steal := thread_heaps st\<rparr> else st);
           st = st\<lparr>unclaimed_cache_space := unclaimed_cache_space st + tmax_size c\<rparr>
       in case tc_pool st of (p, s) \<Rightarrow>
            bindR (pha_Delete i (p, s, ())) (\<lambda>(p, s, _). Inr (st\<lparr>tc_pool := (p, s), caches := (caches st)(i := None)\<rparr>))))))"

text \<open>The search for the cache of the calling thread; the fuel bounds the number of caches.\<close>

fun find_cache :: "nat \<Rightarrow> nat \<Rightarrow> nat \<Rightarrow> 'w tcs \<Rightarrow> nat res" where
  "find_cache 0 me h st = Inl Diverge"
| "find_cache (Suc fuel) me h st =
     (if h = 0 then Inr 0
      else bindR (get_cache h st) (\<lambda>c. if tid c = me then Inr h else find_cache fuel me (next_cache c) st))"

definition set_in_setspecific :: "nat \<Rightarrow> bool \<Rightarrow> 'w tcs \<Rightarrow> 'w tcs res" where
  "set_in_setspecific i b st = bindR (get_cache i st) (\<lambda>c. Inr (put_cache i (c\<lparr>in_setspecific := b\<rparr>) st))"

definition CreateCacheIfNecessary :: "'w tenv \<Rightarrow> nat \<Rightarrow> nat \<Rightarrow> 'w tcs \<Rightarrow> (nat \<times> 'w tcs) res" where
  "CreateCacheIfNecessary te fuel me st =
     bindR (find_cache fuel me (thread_heaps st) st) (\<lambda>h.
     bindR (if h = 0 then NewHeap te me st else Inr (h, st)) (\<lambda>(h, st).
     bindR (get_cache h st) (\<lambda>c.
       if \<not> in_setspecific c \<and> tsd_inited st then
         bindR (set_in_setspecific h True st) (\<lambda>st.
         let st = st\<lparr>heap_key := (heap_key st)(me := h), threadlocal_heap := (threadlocal_heap st)(me := h),
                     min_size_for_slow_path := (min_size_for_slow_path st)(me := kMaxSize + 1)\<rparr>
         in bindR (set_in_setspecific h False st) (\<lambda>st. Inr (h, st)))
       else Inr (h, st))))"

definition GetCache :: "'w tenv \<Rightarrow> nat \<Rightarrow> nat \<Rightarrow> 'w tcs \<Rightarrow> (nat \<times> 'w tcs) res" where
  "GetCache te fuel me st =
     (let ptr = (if tsd_inited st then threadlocal_heap st me else 0) in
      if ptr = 0 then CreateCacheIfNecessary te fuel me st else Inr (ptr, st))"

definition GetCacheIfPresent :: "nat \<Rightarrow> 'w tcs \<Rightarrow> nat" where
  "GetCacheIfPresent me st = (if tsd_inited st then threadlocal_heap st me else 0)"

definition InitTSD :: "'w tcs \<Rightarrow> 'w tcs" where "InitTSD st = st\<lparr>tsd_inited := True\<rparr>"

definition BecomeIdle :: "'w cenv \<Rightarrow> nat \<Rightarrow> 'w tcs \<Rightarrow> 'w tcs res" where
  "BecomeIdle ce me st =
     (if \<not> tsd_inited st then Inr st
      else
        let h = threadlocal_heap st me in
        if h = 0 then Inr st
        else bindR (get_cache h st) (\<lambda>c.
          if in_setspecific c then Inr st
          else
            bindR (set_in_setspecific h True st) (\<lambda>st.
            let st = st\<lparr>heap_key := (heap_key st)(me := 0), threadlocal_heap := (threadlocal_heap st)(me := 0),
                        min_size_for_slow_path := (min_size_for_slow_path st)(me := 0)\<rparr>
            in bindR (set_in_setspecific h False st) (\<lambda>st.
                 if threadlocal_heap st me = h then Inr st else DeleteCache ce h st))))"

definition DestroyThreadCache :: "'w cenv \<Rightarrow> nat \<Rightarrow> nat \<Rightarrow> 'w tcs \<Rightarrow> 'w tcs res" where
  "DestroyThreadCache ce me ptr st =
     (if ptr = 0 then Inr st
      else DeleteCache ce ptr (st\<lparr>threadlocal_heap := (threadlocal_heap st)(me := 0),
                                  min_size_for_slow_path := (min_size_for_slow_path st)(me := 0)\<rparr>))"

subsection \<open>Sizes and statistics\<close>

text \<open>The loop over the caches; \<open>ratio\<close> is a real number, the product is truncated.\<close>

fun rescale_caches :: "nat \<Rightarrow> real \<Rightarrow> nat \<Rightarrow> int \<Rightarrow> 'w tcs \<Rightarrow> (int \<times> 'w tcs) res" where
  "rescale_caches 0 ratio h claimed st = Inl Diverge"
| "rescale_caches (Suc fuel) ratio h claimed st =
     (if h = 0 then Inr (claimed, st)
      else bindR (get_cache h st) (\<lambda>c.
        let c = (if ratio < 1 then c\<lparr>tmax_size := \<lfloor>of_int (tmax_size c) * ratio\<rfloor>\<rparr> else c)
        in rescale_caches fuel ratio (next_cache c) (claimed + tmax_size c) (put_cache h c st)))"

definition RecomputePerThreadCacheSize :: "nat \<Rightarrow> 'w tcs \<Rightarrow> 'w tcs res" where
  "RecomputePerThreadCacheSize fuel st =
     (let n = (if 0 < thread_heap_count st then thread_heap_count st else 1);
          space = overall_thread_cache_size st div n;
          space = (if space < kMinThreadCacheSize then kMinThreadCacheSize else space);
          space = (if kMaxThreadCacheSize < space then kMaxThreadCacheSize else space);
          ratio = of_int space / max 1 (of_int (per_thread_cache_size st))
      in bindR (rescale_caches fuel ratio (thread_heaps st) 0 st) (\<lambda>(claimed, st).
           Inr (st\<lparr>unclaimed_cache_space := overall_thread_cache_size st - claimed, per_thread_cache_size := space\<rparr>)))"

definition set_overall_thread_cache_size :: "nat \<Rightarrow> int \<Rightarrow> 'w tcs \<Rightarrow> 'w tcs res" where
  "set_overall_thread_cache_size fuel new_size st =
     (let new_size = (if new_size < kMinThreadCacheSize then kMinThreadCacheSize else new_size);
          new_size = (if 2 ^ 30 < new_size then 2 ^ 30 else new_size)
      in RecomputePerThreadCacheSize fuel (st\<lparr>overall_thread_cache_size := new_size\<rparr>))"

fun GetThreadStats :: "nat \<Rightarrow> nat \<Rightarrow> int \<Rightarrow> (nat \<Rightarrow> nat) \<Rightarrow> 'w tcs \<Rightarrow> (int \<times> (nat \<Rightarrow> nat)) res" where
  "GetThreadStats 0 h total_bytes class_count st = Inl Diverge"
| "GetThreadStats (Suc fuel) h total_bytes class_count st =
     (if h = 0 then Inr (total_bytes, class_count)
      else bindR (get_cache h st) (\<lambda>c.
        GetThreadStats fuel (next_cache c) (total_bytes + tsize c)
          (\<lambda>cl. if cl < kNumClasses then class_count cl + flength (tlist c cl) else class_count cl) st))"

end
