(* ===== verification/ThreadCache_Inv.thy ===== *)
theory ThreadCache_Inv
  imports ThreadCache CentralFreeList_Cache
begin

section \<open>The thread caches keep their lists apart\<close>

text \<open>
  What a thread cache relies on is the interface \<open>object_depot\<close>: the central free lists hand out objects that nobody holds and take
  back objects that the caller holds.  Under it, every operation of a cache keeps the lists of the cache, their lengths and the size
  of the cache right, and touches no object that anybody else holds.
\<close>

subsection \<open>The lists\<close>

definition fl_ok :: "store \<Rightarrow> freelist \<Rightarrow> nat list \<Rightarrow> bool" where
  "fl_ok m l xs \<longleftrightarrow> sll m (fhead l) xs \<and> flength l = length xs \<and> lowater l \<le> length xs \<and> 0 < max_length l \<and>
     int (max_length l) \<le> kMaxDynamicFreeListLength"

lemma fl_ok_frame: "\<forall>x\<in>set xs. m' x = m x \<Longrightarrow> fl_ok m' l xs = fl_ok m l xs"
  using sll_frame[of xs m' m] by (simp add: fl_ok_def)

lemma fl_ok_Init: "fl_ok m FreeList_Init []"
  by (simp add: fl_ok_def FreeList_Init_def kMaxDynamicFreeListLength_def)

lemma mod_sub: assumes "N \<le> a" and "a < K" shows "(a + K - N mod K) mod K = a - (N :: nat)"
proof -
  have "a + K - N mod K = a - N + K" using assms by simp
  then show ?thesis by (metis assms(2) less_imp_diff_less mod_add_self2 mod_less)
qed

lemma drop_length_eq:
  assumes "N \<le> flength l" and "flength l < 2 ^ 32"
  shows "drop_length N l = l\<lparr>flength := flength l - N, lowater := min (flength l - N) (lowater l)\<rparr>"
  unfolding drop_length_def mod_sub[OF assms] by (simp add: Let_def min_def)

lemma Push_ok:
  assumes "fl_ok m l xs" and "x \<noteq> 0" and "x \<notin> set xs" and "length xs < 2 ^ 32 - 1"
  shows "FreeList_Push x l m = Inr (l\<lparr>fhead := x, flength := length xs + 1\<rparr>, m(x := fhead l)) \<and>
    fl_ok (m(x := fhead l)) (l\<lparr>fhead := x, flength := length xs + 1\<rparr>) (x # xs)"
  using assms SLL_Push_lst[of m "fhead l" xs x] by (simp add: FreeList_Push_def fl_ok_def)

lemma Pop_ok:
  assumes "fl_ok m l (x # xs)" and "length xs < 2 ^ 32 - 1"
  shows "\<exists>l'. FreeList_Pop l m = Inr (x, l', m) \<and> fl_ok m l' xs"
proof -
  have "drop_length 1 l = l\<lparr>flength := length xs, lowater := min (length xs) (lowater l)\<rparr>"
    using assms drop_length_eq[of 1 l] by (simp add: fl_ok_def)
  then show ?thesis using assms(1) SLL_Pop_lst[of m "fhead l" x xs] by (simp add: FreeList_Pop_def Let_def fl_ok_def)
qed

lemma PopRange_ok:
  assumes "fl_ok m l (xs @ ys)" and "xs \<noteq> []" and "length (xs @ ys) < 2 ^ 32"
  shows "\<exists>l' m'. FreeList_PopRange (length xs) l m = Inr (fhead l, last xs, l', m') \<and> sll m' (fhead l) xs \<and> fl_ok m' l' ys \<and>
    m' = m(last xs := 0) \<and> max_length l' = max_length l \<and> length_overages l' = length_overages l"
proof -
  obtain h' m' where p: "SLL_PopRange (length xs) (fhead l, m) = Inr (fhead l, last xs, h', m')" "sll m' (fhead l) xs" "sll m' h' ys"
    "m' = m(last xs := 0)" using SLL_PopRange_lst[of m "fhead l" xs ys] assms(1,2) unfolding fl_ok_def by blast
  have "drop_length (length xs) (l\<lparr>fhead := h'\<rparr>) = l\<lparr>fhead := h', flength := length ys, lowater := min (length ys) (lowater l)\<rparr>"
    using assms(1,3) drop_length_eq[of "length xs" "l\<lparr>fhead := h'\<rparr>"] by (simp add: fl_ok_def)
  then show ?thesis using p assms(1) by (simp add: FreeList_PopRange_def fl_ok_def)
qed

lemma PushRange_ok:
  assumes "fl_ok m l []" and "sll m s xs" and "xs \<noteq> [] \<longrightarrow> e = last xs" and "length xs < 2 ^ 32"
  shows "\<exists>l' m'. FreeList_PushRange (length xs) s e l m = Inr (l', m') \<and> fl_ok m' l' xs \<and> (\<forall>x. x \<notin> set xs \<longrightarrow> m' x = m x) \<and>
    max_length l' = max_length l \<and> length_overages l' = length_overages l"
proof (cases "xs = []")
  case True
  then show ?thesis using assms by (simp add: FreeList_PushRange_def SLL_PushRange_def fl_ok_def)
next
  case False
  then have "SLL_PushRange s e (fhead l, m) = Inr (s, m(last xs := fhead l)) \<and> sll (m(last xs := fhead l)) s (xs @ [])"
    using SLL_PushRange_lst[of m s xs "fhead l" "[]"] assms by (simp add: fl_ok_def)
  then show ?thesis using assms False last_in_set[OF False] by (auto simp: FreeList_PushRange_def fl_ok_def)
qed

lemma grow_max_length_ok:
  assumes "0 < b" and "b \<le> kMaxDynamicFreeListLength" and "int (max_length l) \<le> kMaxDynamicFreeListLength"
  shows "\<exists>n. grow_max_length b l = Inr (l\<lparr>max_length := n\<rparr>) \<and> 0 < n \<and> int n \<le> kMaxDynamicFreeListLength"
proof (cases "int (max_length l) < b")
  case True
  then have "int (max_length l + 1) \<le> kMaxDynamicFreeListLength" using assms(2) by simp
  then show ?thesis using True by (intro exI[of _ "max_length l + 1"]) (simp add: grow_max_length_def)
next
  case False
  let ?n = "min (int (max_length l) + b) kMaxDynamicFreeListLength"
  have n: "b \<le> ?n" "?n \<le> kMaxDynamicFreeListLength" using False assms by auto
  have m: "0 \<le> ?n mod b" "?n mod b < b" using assms(1) by simp_all
  then have "0 < ?n - ?n mod b" "?n - ?n mod b \<le> kMaxDynamicFreeListLength" using n by linarith+
  then show ?thesis using False assms(1) by (intro exI[of _ "nat (?n - ?n mod b)"]) (simp add: grow_max_length_def Let_def)
qed

subsection \<open>The interface of the central free lists\<close>

locale object_depot =
  fixes ce :: "'w cenv" and ok :: "(nat \<Rightarrow> nat set) \<Rightarrow> 'w central \<Rightarrow> bool"
  assumes remove: "ok U cen \<Longrightarrow> 0 < cl \<Longrightarrow> cl < kNumClasses \<Longrightarrow> 0 < N \<Longrightarrow>
      outcome (RemoveRange ce cl N cen) (\<lambda>(n, f, e, cen'). \<exists>xs. length xs = n \<and> n \<le> N \<and> sll (objs cen') f xs \<and> (xs \<noteq> [] \<longrightarrow> e = last xs) \<and>
        set xs \<inter> U cl = {} \<and> ok (U(cl := U cl \<union> set xs)) cen' \<and> (\<forall>c. \<forall>x\<in>U c. objs cen' x = objs cen x))"
    and insert: "ok U cen \<Longrightarrow> 0 < cl \<Longrightarrow> cl < kNumClasses \<Longrightarrow> sll (objs cen) f xs \<Longrightarrow> xs \<noteq> [] \<Longrightarrow> set xs \<subseteq> U cl \<Longrightarrow>
      \<exists>cen'. InsertRange ce cl f (last xs) (length xs) cen = Inr cen' \<and> ok (U(cl := U cl - set xs)) cen' \<and>
        (\<forall>c. \<forall>x\<in>(U(cl := U cl - set xs)) c. objs cen' x = objs cen x)"
    and write_held: "ok U cen \<Longrightarrow> (\<And>x. (\<And>c. x \<notin> U c) \<Longrightarrow> w x = objs cen x) \<Longrightarrow> ok U (cen\<lparr>objs := w\<rparr>)"
    and held_class: "ok U cen \<Longrightarrow> x \<in> U c \<Longrightarrow> 0 < c \<and> c < kNumClasses \<and> x \<noteq> 0"
    and held_once: "ok U cen \<Longrightarrow> x \<in> U c \<Longrightarrow> x \<in> U d \<Longrightarrow> c = d"
    and moves: "0 < c \<Longrightarrow> c < kNumClasses \<Longrightarrow> 2 \<le> num_objects_to_move (c_sizes ce) c \<and>
      num_objects_to_move (c_sizes ce) c \<le> kMaxDynamicFreeListLength"
begin

abbreviation sm :: SizeMap where "sm \<equiv> c_sizes ce"

text \<open>\<open>F cl\<close> is the list of class \<open>cl\<close> of a cache, \<open>V cl\<close> what everybody else holds.\<close>

definition cached_bytes :: "(nat \<Rightarrow> nat list) \<Rightarrow> int" where
  "cached_bytes F = (\<Sum>c<kNumClasses. int (length (F c) * class_to_size sm c))"

definition lists_held :: "(nat \<Rightarrow> nat list) \<Rightarrow> store \<Rightarrow> tcache \<Rightarrow> bool" where
  "lists_held F m c \<longleftrightarrow> (\<forall>d<kNumClasses. fl_ok m (tlist c d) (F d)) \<and> (\<forall>d. d = 0 \<or> kNumClasses \<le> d \<longrightarrow> F d = [])"

definition short :: "nat \<Rightarrow> (nat \<Rightarrow> nat list) \<Rightarrow> bool" where "short k F \<longleftrightarrow> k < 2 ^ 32 \<and> (\<forall>d. length (F d) \<le> k)"

definition own :: "(nat \<Rightarrow> nat list) \<Rightarrow> (nat \<Rightarrow> nat set) \<Rightarrow> tcache \<Rightarrow> 'w central \<Rightarrow> bool" where
  "own F V c cen \<longleftrightarrow> lists_held F (objs cen) c \<and> tsize c = cached_bytes F \<and> ok (\<lambda>d. V d \<union> set (F d)) cen \<and> (\<forall>d. V d \<inter> set (F d) = {})"

definition others :: "(nat \<Rightarrow> nat set) \<Rightarrow> 'w central \<Rightarrow> 'w central \<Rightarrow> bool" where
  "others V cen cen' \<longleftrightarrow> (\<forall>d. \<forall>x\<in>V d. objs cen' x = objs cen x)"

definition same_cache :: "tcache \<Rightarrow> tcache \<Rightarrow> bool" where
  "same_cache c c' \<longleftrightarrow> next_cache c' = next_cache c \<and> prev_cache c' = prev_cache c \<and> tmax_size c' = tmax_size c \<and> tid c' = tid c \<and>
     in_setspecific c' = in_setspecific c"

lemma others_refl [simp]: "others V cen cen" by (simp add: others_def)

lemma others_trans: "others V a b \<Longrightarrow> others V b c \<Longrightarrow> others V a c" by (simp add: others_def)

lemma same_cache_refl [simp]: "same_cache c c" by (simp add: same_cache_def)

lemma same_cache_trans: "same_cache a b \<Longrightarrow> same_cache b c \<Longrightarrow> same_cache a c" by (simp add: same_cache_def)

lemma cached_bytes_upd:
  assumes "cl < kNumClasses"
  shows "cached_bytes (F(cl := xs)) = cached_bytes F + (int (length xs) - int (length (F cl))) * int (class_to_size sm cl)"
proof -
  have "cached_bytes G = int (length (G cl) * class_to_size sm cl) + (\<Sum>c\<in>{..<kNumClasses} - {cl}. int (length (G c) * class_to_size sm c))" for G
    unfolding cached_bytes_def by (rule sum.remove) (use assms in auto)
  moreover have "(\<Sum>c\<in>{..<kNumClasses} - {cl}. int (length ((F(cl := xs)) c) * class_to_size sm c)) =
      (\<Sum>c\<in>{..<kNumClasses} - {cl}. int (length (F c) * class_to_size sm c))" by (rule sum.cong) auto
  ultimately show ?thesis by (simp add: algebra_simps)
qed


subsection \<open>Releasing objects\<close>

lemma pop_insert:
  assumes ok: "ok W cen" and cl: "0 < cl" "cl < kNumClasses" and l: "fl_ok (objs cen) l xs" "set xs \<subseteq> W cl" "length xs < 2 ^ 32"
    and k: "0 < k" "k \<le> length xs"
  obtains l' m' cen' where "FreeList_PopRange k l (objs cen) = Inr (fhead l, last (take k xs), l', m')"
    and "InsertRange ce cl (fhead l) (last (take k xs)) k (cen\<lparr>objs := m'\<rparr>) = Inr cen'"
    and "fl_ok (objs cen') l' (drop k xs)" and "ok (W(cl := W cl - set (take k xs))) cen'"
    and "\<forall>d. \<forall>x\<in>(W(cl := W cl - set (take k xs))) d. objs cen' x = objs cen x"
    and "max_length l' = max_length l" and "length_overages l' = length_overages l"
proof -
  let ?t = "take k xs" and ?d = "drop k xs"
  have t: "?t \<noteq> []" "length ?t = k" using k by auto
  have dis: "set ?t \<inter> set ?d = {}" using sll_distinct l(1) unfolding fl_ok_def by (metis append_take_drop_id distinct_append)
  have la: "last ?t \<in> set ?t" using t(1) by simp
  obtain l' m' where p: "FreeList_PopRange k l (objs cen) = Inr (fhead l, last ?t, l', m')" "sll m' (fhead l) ?t" "fl_ok m' l' ?d"
    "m' = (objs cen)(last ?t := 0)" "max_length l' = max_length l" "length_overages l' = length_overages l"
    using PopRange_ok[of "objs cen" l ?t ?d] l(1,3) t by auto
  let ?c = "cen\<lparr>objs := m'\<rparr>"
  have "last ?t \<in> W cl" using la l(2) by (meson in_set_takeD subsetD)
  then have 1: "ok W ?c" by (intro write_held[OF ok]) (use p(4) in auto)
  have 2: "sll (objs ?c) (fhead l) ?t" "set ?t \<subseteq> W cl" using p(2) l(2) set_take_subset[of k xs] by auto
  obtain cen' where c: "InsertRange ce cl (fhead l) (last ?t) k ?c = Inr cen'" "ok (W(cl := W cl - set ?t)) cen'"
    "\<forall>d. \<forall>x\<in>(W(cl := W cl - set ?t)) d. objs cen' x = objs ?c x"
    using insert[OF 1 cl 2(1) t(1) 2(2)] t(2) by auto
  have f: "objs cen' x = objs cen x" if x: "x \<in> (W(cl := W cl - set ?t)) d" for d x
  proof -
    have "x \<noteq> last ?t"
    proof (cases "d = cl")
      case True
      then show ?thesis using x la by auto
    next
      case False
      then show ?thesis using x held_once[OF ok] \<open>last ?t \<in> W cl\<close> by auto
    qed
    then show ?thesis using c(3) x p(4) by simp
  qed
  have "\<forall>x\<in>set ?d. objs cen' x = m' x"
  proof
    fix x assume x: "x \<in> set ?d"
    then have "x \<in> (W(cl := W cl - set ?t)) cl" using dis l(2) set_drop_subset[of k xs] by auto
    then show "objs cen' x = m' x" using c(3) by fastforce
  qed
  from fl_ok_frame[OF this] have "fl_ok (objs cen') l' ?d" using p(3) by simp
  then show thesis using that[OF p(1) c(1) _ c(2)] f p(5,6) by blast
qed

lemma release_batches_ok:
  assumes "ok W cen" and cl: "0 < cl" "cl < kNumClasses" and "fl_ok (objs cen) l xs" "set xs \<subseteq> W cl" "length xs < 2 ^ 32"
    and "0 < N" "N \<le> length xs"
  shows "\<exists>l' cen'. release_batches ce cl (num_objects_to_move sm cl) (int N) l cen = Inr (l', cen') \<and>
    fl_ok (objs cen') l' (drop N xs) \<and> ok (W(cl := W cl - set (take N xs))) cen' \<and>
    (\<forall>d. \<forall>x\<in>(W(cl := W cl - set (take N xs))) d. objs cen' x = objs cen x) \<and>
    max_length l' = max_length l \<and> length_overages l' = length_overages l"
  using assms
proof (induction N arbitrary: W cen l xs rule: less_induct)
  case (less N)
  let ?b = "num_objects_to_move sm cl"
  have b: "2 \<le> ?b" using moves[OF cl] by simp
  show ?case
  proof (cases "?b < int N")
    case False
    obtain l' m' cen' where c: "FreeList_PopRange N l (objs cen) = Inr (fhead l, last (take N xs), l', m')"
      "InsertRange ce cl (fhead l) (last (take N xs)) N (cen\<lparr>objs := m'\<rparr>) = Inr cen'"
      "fl_ok (objs cen') l' (drop N xs)" "ok (W(cl := W cl - set (take N xs))) cen'"
      "\<forall>d. \<forall>x\<in>(W(cl := W cl - set (take N xs))) d. objs cen' x = objs cen x"
      "max_length l' = max_length l" "length_overages l' = length_overages l"
      by (rule pop_insert[OF less.prems(1) cl less.prems(4-8)])
    have "release_batches ce cl ?b (int N) l cen = Inr (l', cen')" using c(1,2) False by (subst release_batches.simps) simp
    then show ?thesis using c(3-7) by blast
  next
    case True
    let ?k = "nat ?b"
    have k: "0 < ?k" "?k \<le> length xs" "?k < N" using b True less.prems(8) by auto
    obtain l1 m1 cen1 where c: "FreeList_PopRange ?k l (objs cen) = Inr (fhead l, last (take ?k xs), l1, m1)"
      "InsertRange ce cl (fhead l) (last (take ?k xs)) ?k (cen\<lparr>objs := m1\<rparr>) = Inr cen1"
      "fl_ok (objs cen1) l1 (drop ?k xs)" "ok (W(cl := W cl - set (take ?k xs))) cen1"
      "\<forall>d. \<forall>x\<in>(W(cl := W cl - set (take ?k xs))) d. objs cen1 x = objs cen x"
      "max_length l1 = max_length l" "length_overages l1 = length_overages l"
      by (rule pop_insert[OF less.prems(1) cl less.prems(4-6) k(1,2)])
    let ?W = "W(cl := W cl - set (take ?k xs))" and ?y = "drop ?k xs"
    have "set (take ?k xs) \<inter> set ?y = {}" using sll_distinct less.prems(4) unfolding fl_ok_def by (metis append_take_drop_id distinct_append)
    then have y: "set ?y \<subseteq> ?W cl" "length ?y < 2 ^ 32" "0 < N - ?k" "N - ?k \<le> length ?y"
      using less.prems(5,6,8) set_drop_subset[of ?k xs] k by auto
    have "set (take ?k xs) \<union> set (take (N - ?k) ?y) = set (take N xs)"
      using k(3) take_add[of ?k "N - ?k" xs] by (metis add_diff_inverse_nat not_less_iff_gr_or_eq set_append)
    then have W: "?W(cl := ?W cl - set (take (N - ?k) ?y)) = W(cl := W cl - set (take N xs))" by (intro ext) auto
    have d: "drop (N - ?k) ?y = drop N xs" and lt: "N - ?k < N" using k(1,3) by simp_all
    obtain l2 cen2 where r: "release_batches ce cl ?b (int (N - ?k)) l1 cen1 = Inr (l2, cen2)" "fl_ok (objs cen2) l2 (drop N xs)"
      "ok (W(cl := W cl - set (take N xs))) cen2" "\<forall>d. \<forall>x\<in>(W(cl := W cl - set (take N xs))) d. objs cen2 x = objs cen1 x"
      "max_length l2 = max_length l1" "length_overages l2 = length_overages l1"
      using less.IH[OF lt c(4) cl c(3) y, unfolded W d] by blast
    have "int N - ?b = int (N - ?k)" using k(3) b by simp
    then have "release_batches ce cl ?b (int N) l cen = Inr (l2, cen2)" using c(1,2) r(1) True b by (subst release_batches.simps) simp
    moreover have "objs cen2 x = objs cen x" if x: "x \<in> (W(cl := W cl - set (take N xs))) d" for d x
    proof -
      have "x \<in> ?W d" using x set_take_subset_set_take[of ?k N xs] k(3) by (cases "d = cl") auto
      then show ?thesis using r(4) c(5) x by metis
    qed
    ultimately show ?thesis using r c(6,7) by metis
  qed
qed


text \<open>One list of a cache changes.\<close>

lemma own_upd:
  assumes o: "own F V c cen" and cl: "0 < cl" "cl < kNumClasses" and l: "fl_ok (objs cen') l xs" "tlist c' = (tlist c)(cl := l)"
    and ok: "ok (\<lambda>d. V' d \<union> set ((F(cl := xs)) d)) cen'" "\<And>d. V' d \<inter> set ((F(cl := xs)) d) = {}"
    and f: "\<And>d x. d \<noteq> cl \<Longrightarrow> x \<in> set (F d) \<Longrightarrow> objs cen' x = objs cen x"
    and s: "tsize c' = tsize c + (int (length xs) - int (length (F cl))) * int (class_to_size sm cl)"
  shows "own (F(cl := xs)) V' c' cen'"
proof -
  have "fl_ok (objs cen') (tlist c d) (F d)" if "d < kNumClasses" "d \<noteq> cl" for d
  proof -
    have "\<forall>x\<in>set (F d). objs cen' x = objs cen x" using f[OF that(2)] by blast
    from fl_ok_frame[OF this] show ?thesis using o that(1) by (simp add: own_def lists_held_def)
  qed
  then have "lists_held (F(cl := xs)) (objs cen') c'" using o cl l by (simp add: own_def lists_held_def)
  moreover have "tsize c' = cached_bytes (F(cl := xs))" using o s cached_bytes_upd[OF cl(2)] by (simp add: own_def)
  ultimately show ?thesis using ok by (simp add: own_def)
qed

lemma own_params:
  assumes o: "own F V c cen" and cl: "cl < kNumClasses" and "fhead l = fhead (tlist c cl)" "flength l = flength (tlist c cl)"
    "lowater l \<le> length (F cl)" "0 < max_length l" "int (max_length l) \<le> kMaxDynamicFreeListLength"
  shows "own F V (put_list cl l c) cen"
  using assms by (auto simp: own_def lists_held_def put_list_def fl_ok_def)

lemma ownD:
  assumes "own F V c cen" and "cl < kNumClasses"
  shows "fl_ok (objs cen) (tlist c cl) (F cl)" "0 < max_length (tlist c cl)" "int (max_length (tlist c cl)) \<le> kMaxDynamicFreeListLength"
    "lowater (tlist c cl) \<le> length (F cl)" "flength (tlist c cl) = length (F cl)" "F 0 = []"
  using assms by (auto simp: own_def lists_held_def fl_ok_def)

lemma ReleaseToCentral_ok:
  assumes o: "own F V c cen" and cl: "0 < cl" "cl < kNumClasses" and n: "F cl \<noteq> []" "0 < N" and sh: "short K F"
  obtains c' cen' where "ReleaseToCentralCache ce cl N c cen = Inr (c', cen')"
    and "own (F(cl := drop (min (nat N) (length (F cl))) (F cl))) V c' cen'" and "others V cen cen'" and "same_cache c c'"
    and "max_length (tlist c' cl) = max_length (tlist c cl)" and "length_overages (tlist c' cl) = length_overages (tlist c cl)"
proof -
  let ?xs = "F cl" and ?l = "tlist c cl" and ?W = "\<lambda>d. V d \<union> set (F d)" and ?n = "min (nat N) (length (F cl))"
  note f = ownD[OF o cl(2)]
  have ok: "ok ?W cen" and V: "V d \<inter> set (F d) = {}" for d using o by (auto simp: own_def)
  have n': "0 < ?n" "?n \<le> length ?xs" using n by auto
  have len: "length ?xs < 2 ^ 32" using sh unfolding short_def by (meson le_less_trans)
  obtain l' cen' where r: "release_batches ce cl (num_objects_to_move sm cl) (int ?n) ?l cen = Inr (l', cen')"
    "fl_ok (objs cen') l' (drop ?n ?xs)" "ok (?W(cl := ?W cl - set (take ?n ?xs))) cen'"
    "\<forall>d. \<forall>x\<in>(?W(cl := ?W cl - set (take ?n ?xs))) d. objs cen' x = objs cen x"
    "max_length l' = max_length ?l" "length_overages l' = length_overages ?l"
    using release_batches_ok[OF ok cl f(1) _ len n'] by blast
  have dis: "set (take ?n ?xs) \<inter> set (drop ?n ?xs) = {}"
    using sll_distinct f(1) unfolding fl_ok_def by (metis append_take_drop_id distinct_append)
  have xs: "set ?xs = set (take ?n ?xs) \<union> set (drop ?n ?xs)" by (metis append_take_drop_id set_append)
  have W: "?W(cl := ?W cl - set (take ?n ?xs)) = (\<lambda>d. V d \<union> set ((F(cl := drop ?n ?xs)) d))"
    using dis V[of cl] by (intro ext) (auto simp: xs)
  let ?c = "put_list cl l' (c\<lparr>tsize := tsize c - int ?n * int (class_to_size sm cl)\<rparr>)"
  have N: "(if int (flength ?l) < N then int (flength ?l) else N) = int ?n" using n(2) unfolding f(5) by (auto simp: min_def nat_le_iff)
  have run: "ReleaseToCentralCache ce cl N c cen = Inr (?c, cen')" using r(1) unfolding ReleaseToCentralCache_def Let_def N by simp
  have own: "own (F(cl := drop ?n ?xs)) V ?c cen'"
  proof (rule own_upd[OF o cl r(2)])
    show "ok (\<lambda>d. V d \<union> set ((F(cl := drop ?n ?xs)) d)) cen'" using r(3) unfolding W .
    show "V d \<inter> set ((F(cl := drop ?n ?xs)) d) = {}" for d using V[of d] xs by auto
    show "objs cen' x = objs cen x" if "d \<noteq> cl" "x \<in> set (F d)" for d x using r(4)[rule_format, of x d] that by simp
    have "int (length (drop ?n ?xs)) - int (length ?xs) = - int ?n" using n'(2) by simp
    then show "tsize ?c = tsize c + (int (length (drop ?n ?xs)) - int (length ?xs)) * int (class_to_size sm cl)"
      by (simp only: put_list_def tcache.simps) simp
  qed (simp add: put_list_def)
  have "others V cen cen'" using r(4) unfolding W others_def by blast
  then show thesis using that[OF run own] r(5,6) by (simp add: same_cache_def put_list_def)
qed


lemma ListTooLong_ok:
  assumes o: "own F V c cen" and cl: "0 < cl" "cl < kNumClasses" and n: "F cl \<noteq> []" and sh: "short K F"
  obtains n c' cen' where "ListTooLong ce cl c cen = Inr (c', cen')" and "own (F(cl := drop (Suc n) (F cl))) V c' cen'"
    and "others V cen cen'" and "same_cache c c'"
proof -
  let ?b = "num_objects_to_move sm cl"
  have b: "2 \<le> ?b" "?b \<le> kMaxDynamicFreeListLength" using moves[OF cl] by auto
  then have b0: "0 < ?b" by simp
  obtain c1 cen' where r: "ReleaseToCentralCache ce cl ?b c cen = Inr (c1, cen')" "own (F(cl := drop (min (nat ?b) (length (F cl))) (F cl))) V c1 cen'"
    "others V cen cen'" "same_cache c c1" by (rule ReleaseToCentral_ok[OF o cl n b0 sh])
  have "min (nat ?b) (length (F cl)) \<noteq> 0" using b n by (simp add: min_def)
  then obtain k where k: "min (nat ?b) (length (F cl)) = Suc k" using not0_implies_Suc by blast
  note f = ownD[OF r(2) cl(2)]
  have l: "own (F(cl := drop (Suc k) (F cl))) V (put_list cl l c1) cen'" if "fhead l = fhead (tlist c1 cl)" "flength l = flength (tlist c1 cl)"
    "lowater l = lowater (tlist c1 cl)" "0 < max_length l" "int (max_length l) \<le> kMaxDynamicFreeListLength" for l
    using own_params[OF r(2) cl(2), of l] that f(4) k by simp
  let ?l = "tlist c1 cl"
  let ?o = "?l\<lparr>length_overages := length_overages ?l + 1\<rparr>"
  define l' where "l' = (if int (max_length ?l) < ?b then ?l\<lparr>max_length := max_length ?l + 1\<rparr>
    else if ?b < int (max_length ?l) then
      if kMaxOverages < length_overages ?o then ?o\<lparr>max_length := nat (int (max_length ?o) - ?b), length_overages := 0\<rparr> else ?o
    else ?l)"
  have "own (F(cl := drop (Suc k) (F cl))) V (put_list cl l' c1) cen'" by (rule l) (use f b in \<open>auto simp: l'_def\<close>)
  moreover have "ListTooLong ce cl c cen = Inr (put_list cl l' c1, cen')" using r(1) by (simp add: ListTooLong_def Let_def l'_def)
  moreover have "same_cache c (put_list cl l' c1)" using r(4) by (simp add: same_cache_def put_list_def)
  ultimately show thesis using that r(3) by blast
qed

lemma scavenge_loop_ok:
  assumes "own F V c cen" and "short K F" and "cl + n \<le> kNumClasses"
  shows "\<exists>F' c' cen'. scavenge_loop ce n cl c cen = Inr (c', cen') \<and> own F' V c' cen' \<and> short K F' \<and> others V cen cen' \<and> same_cache c c'"
  using assms
proof (induction n arbitrary: F c cen cl)
  case (Suc n)
  let ?l = "tlist c cl" and ?b = "num_objects_to_move sm cl"
  have cl: "cl < kNumClasses" using Suc.prems(3) by simp
  note f = ownD[OF Suc.prems(1) cl]
  have rest: "\<exists>F' c' cen'. scavenge_loop ce n (cl + 1) (put_list cl (clear_lowwatermark (tlist c1 cl)) c1) cen1 = Inr (c', cen') \<and>
      own F' V c' cen' \<and> short K F' \<and> others V cen cen' \<and> same_cache c c'"
    if c1: "own G V c1 cen1" "short K G" "others V cen cen1" "same_cache c c1" for G c1 cen1
  proof -
    note g = ownD[OF c1(1) cl]
    have "own G V (put_list cl (clear_lowwatermark (tlist c1 cl)) c1) cen1"
      by (rule own_params[OF c1(1) cl]) (use g in \<open>auto simp: clear_lowwatermark_def\<close>)
    moreover have "cl + 1 + n \<le> kNumClasses" using Suc.prems(3) by simp
    ultimately obtain F' c' cen' where "scavenge_loop ce n (cl + 1) (put_list cl (clear_lowwatermark (tlist c1 cl)) c1) cen1 = Inr (c', cen')"
      "own F' V c' cen'" "short K F'" "others V cen1 cen'" "same_cache (put_list cl (clear_lowwatermark (tlist c1 cl)) c1) c'"
      using Suc.IH[OF _ c1(2)] by blast
    then show ?thesis using others_trans[OF c1(3)] c1(4) by (auto simp: same_cache_def put_list_def)
  qed
  show ?case
  proof (cases "0 < lowater ?l")
    case False
    then show ?thesis using rest[OF Suc.prems(1,2)] by simp
  next
    case True
    let ?d = "int (if 1 < lowater ?l then lowater ?l div 2 else 1)"
    have ne: "F cl \<noteq> []" "0 < ?d" using True f(4) by auto
    then have cl0: "0 < cl" using f(6) by (cases cl) auto
    have b: "2 \<le> ?b" "?b \<le> kMaxDynamicFreeListLength" using moves[OF cl0 cl] by auto
    obtain c1 cen1 where r: "ReleaseToCentralCache ce cl ?d c cen = Inr (c1, cen1)" "own (F(cl := drop (min (nat ?d) (length (F cl))) (F cl))) V c1 cen1"
      "others V cen cen1" "same_cache c c1" by (rule ReleaseToCentral_ok[OF Suc.prems(1) cl0 cl ne Suc.prems(2)])
    let ?G = "F(cl := drop (min (nat ?d) (length (F cl))) (F cl))" and ?l1 = "tlist c1 cl"
    let ?c = "if ?b < int (max_length ?l1) then put_list cl (?l1\<lparr>max_length := nat (max (int (max_length ?l1) - ?b) ?b)\<rparr>) c1 else c1"
    have sh: "short K ?G" using Suc.prems(2) by (auto simp: short_def intro: le_trans[OF diff_le_self])
    note g = ownD[OF r(2) cl]
    have "own ?G V (put_list cl (?l1\<lparr>max_length := nat (max (int (max_length ?l1) - ?b) ?b)\<rparr>) c1) cen1"
      by (rule own_params[OF r(2) cl]) (use g b in auto)
    then have "own ?G V ?c cen1" using r(2) by simp
    moreover have "same_cache c ?c" using r(4) by (auto simp: same_cache_def put_list_def)
    ultimately show ?thesis using rest[of ?G ?c cen1] sh r(1,3) True by (simp add: Let_def)
  qed
qed auto


lemma cleanup_loop_ok:
  assumes "own F V c cen" and "short K F" and "cl + n = kNumClasses" and "\<forall>d<cl. F d = []"
  shows "\<exists>c' cen'. cleanup_loop ce n cl c cen = Inr (c', cen') \<and> own (\<lambda>_. []) V c' cen' \<and> others V cen cen' \<and> same_cache c c'"
  using assms
proof (induction n arbitrary: F c cen cl)
  case 0
  have "F d = []" for d using 0 by (cases "d < kNumClasses") (auto simp: own_def lists_held_def)
  then have "F = (\<lambda>_. [])" by blast
  then show ?case using 0(1) by auto
next
  case (Suc n)
  have cl: "cl < kNumClasses" using Suc.prems(3) by simp
  note f = ownD[OF Suc.prems(1) cl]
  show ?case
  proof (cases "F cl = []")
    case True
    then have "\<forall>d<cl + 1. F d = []" using Suc.prems(4) by (auto simp: less_Suc_eq)
    then show ?thesis using Suc.IH[OF Suc.prems(1,2), of "cl + 1"] Suc.prems(3) True f(5) by simp
  next
    case False
    then have cl0: "0 < cl" "0 < int (flength (tlist c cl))" using f(5,6) by (cases cl; simp)+
    obtain c1 cen1 where r: "ReleaseToCentralCache ce cl (int (flength (tlist c cl))) c cen = Inr (c1, cen1)"
      "own (F(cl := drop (min (nat (int (flength (tlist c cl)))) (length (F cl))) (F cl))) V c1 cen1"
      "others V cen cen1" "same_cache c c1" by (rule ReleaseToCentral_ok[OF Suc.prems(1) cl0(1) cl False cl0(2) Suc.prems(2)])
    have G: "own (F(cl := [])) V c1 cen1" "short K (F(cl := []))" "\<forall>d<cl + 1. (F(cl := [])) d = []"
      using r(2) f(5) Suc.prems(2,4) by (auto simp: short_def less_Suc_eq)
    obtain c' cen' where "cleanup_loop ce n (cl + 1) c1 cen1 = Inr (c', cen')" "own (\<lambda>_. []) V c' cen'" "others V cen1 cen'" "same_cache c1 c'"
      using Suc.IH[OF G(1,2) _ G(3)] Suc.prems(3) by auto
    then show ?thesis using r(1) cl0(2) others_trans[OF r(3)] same_cache_trans[OF r(4)] by auto
  qed
qed

subsection \<open>Allocation and deallocation in one cache\<close>

definition given :: "(nat \<Rightarrow> nat set) \<Rightarrow> nat \<Rightarrow> nat \<Rightarrow> nat \<Rightarrow> nat set" where
  "given V cl x = (if x = 0 then V else V(cl := insert x (V cl)))"

lemma Fetch_some:
  assumes o: "own F V c cen" and cl: "0 < cl" "cl < kNumClasses" and e: "F cl = []"
    and r: "sll (objs cen1) x (x # ys)" "e = last (x # ys)" "set (x # ys) \<inter> (V cl \<union> set (F cl)) = {}"
      "ok ((\<lambda>d. V d \<union> set (F d))(cl := V cl \<union> set (F cl) \<union> set (x # ys))) cen1" "\<And>d y. y \<in> V d \<union> set (F d) \<Longrightarrow> objs cen1 y = objs cen y"
    and len: "length ys < 2 ^ 32"
  obtains l m where "FreeList_PushRange (length ys) (objs cen1 x) e (tlist c cl) (objs cen1) = Inr (l, m)"
    and "own (F(cl := ys)) (given V cl x) (put_list cl l (c\<lparr>tsize := tsize c + int (class_to_size sm cl * length ys)\<rparr>)) (cen1\<lparr>objs := m\<rparr>)"
    and "others V cen (cen1\<lparr>objs := m\<rparr>)" and "max_length l = max_length (tlist c cl)"
proof -
  have x: "x \<noteq> 0" "sll (objs cen1) (objs cen1 x) ys" "ys \<noteq> [] \<longrightarrow> e = last ys" using r(1,2) by auto
  have dx: "x \<notin> set ys" using sll_distinct[OF r(1)] by simp
  have "fl_ok (objs cen1) (tlist c cl) []" using ownD(1)[OF o cl(2)] e by (simp add: fl_ok_def)
  then obtain l m where p: "FreeList_PushRange (length ys) (objs cen1 x) e (tlist c cl) (objs cen1) = Inr (l, m)" "fl_ok m l ys"
    "\<forall>y. y \<notin> set ys \<longrightarrow> m y = objs cen1 y" "max_length l = max_length (tlist c cl)"
    using PushRange_ok[OF _ x(2,3) len] by blast
  let ?W = "(\<lambda>d. V d \<union> set (F d))(cl := V cl \<union> set (F cl) \<union> set (x # ys))" and ?c = "cen1\<lparr>objs := m\<rparr>"
  have W: "?W = (\<lambda>d. given V cl x d \<union> set ((F(cl := ys)) d))" using x(1) e by (intro ext) (auto simp: given_def)
  have ok: "ok ?W ?c"
  proof (rule write_held[OF r(4)])
    fix y assume "\<And>d. y \<notin> ?W d"
    then have "y \<notin> ?W cl" by blast
    then show "m y = objs cen1 y" using p(3) by simp
  qed
  have out: "m y = objs cen y" if "y \<in> V d \<union> set (F d)" for y d
  proof -
    have "y \<notin> set ys"
    proof
      assume "y \<in> set ys"
      then have "y \<in> ?W cl" "y \<in> ?W d" using that by auto
      then have "d = cl" using held_once[OF r(4)] by blast
      then show False using that r(3) \<open>y \<in> set ys\<close> by auto
    qed
    then show ?thesis using p(3) r(5)[OF that] by simp
  qed
  have "own (F(cl := ys)) (given V cl x) (put_list cl l (c\<lparr>tsize := tsize c + int (class_to_size sm cl * length ys)\<rparr>)) ?c"
  proof (rule own_upd[OF o cl, where l = l])
    show "fl_ok (objs ?c) l ys" using p(2) by simp
    show "ok (\<lambda>d. given V cl x d \<union> set ((F(cl := ys)) d)) ?c" using ok unfolding W .
    show "given V cl x d \<inter> set ((F(cl := ys)) d) = {}" for d
      using o r(3) dx x(1) by (cases "d = cl") (auto simp: given_def own_def)
    show "objs ?c y = objs cen y" if "d \<noteq> cl" "y \<in> set (F d)" for d y using out[of y d] that by simp
  qed (use e in \<open>simp_all add: put_list_def\<close>)
  moreover have "others V cen ?c" using out by (auto simp: others_def)
  ultimately show thesis using that[OF p(1)] p(4) by blast
qed


definition served :: "nat \<Rightarrow> (nat \<Rightarrow> nat set) \<Rightarrow> nat \<Rightarrow> tcache \<Rightarrow> 'w central \<Rightarrow> nat \<Rightarrow> tcache \<Rightarrow> 'w central \<Rightarrow> bool" where
  "served K V cl c cen x c' cen' \<longleftrightarrow> (\<exists>F. own F (given V cl x) c' cen' \<and> short K F) \<and> (x \<noteq> 0 \<longrightarrow> x \<notin> V cl) \<and> others V cen cen' \<and> same_cache c c'"

lemma Fetch_ok:
  assumes o: "own F V c cen" and cl: "0 < cl" "cl < kNumClasses" and e: "F cl = []" and sh: "short 8192 F"
  shows "outcome (FetchFromCentralCache ce cl (class_to_size sm cl) c cen) (\<lambda>(x, c', cen'). served 8192 V cl c cen x c' cen')"
proof -
  let ?b = "num_objects_to_move sm cl" and ?l = "tlist c cl" and ?W = "\<lambda>d. V d \<union> set (F d)"
  let ?N = "nat (min (int (max_length ?l)) ?b)"
  note f = ownD[OF o cl(2)]
  have b: "0 < ?b" "?b \<le> kMaxDynamicFreeListLength" using moves[OF cl] by auto
  have N: "0 < ?N" "?N \<le> 8192" using f(2,3) b by (auto simp: kMaxDynamicFreeListLength_def)
  have ok: "ok ?W cen" using o by (simp add: own_def)
  have fin: "outcome (bindR (grow_max_length ?b l) (\<lambda>l. Inr (x, put_list cl l c1, cen1))) (\<lambda>(x, c', cen'). served 8192 V cl c cen x c' cen')"
    if g: "own G (given V cl x) (put_list cl l c1) cen1" "short 8192 G" "others V cen cen1" "same_cache c c1" "x \<noteq> 0 \<longrightarrow> x \<notin> V cl" for G x l c1 cen1
  proof -
    note gl = ownD[OF g(1) cl(2), unfolded put_list_def, simplified]
    obtain n where n: "grow_max_length ?b l = Inr (l\<lparr>max_length := n\<rparr>)" "0 < n" "int n \<le> kMaxDynamicFreeListLength"
      using grow_max_length_ok[OF b, of l] gl(3) by blast
    have "own G (given V cl x) (put_list cl (l\<lparr>max_length := n\<rparr>) (put_list cl l c1)) cen1"
      by (rule own_params[OF g(1) cl(2)]) (use gl n in \<open>simp_all add: put_list_def\<close>)
    then show ?thesis using n(1) g(2-5) by (auto simp: served_def put_list_def same_cache_def)
  qed
  show ?thesis unfolding FetchFromCentralCache_def Let_def
  proof (rule outcome_bind[OF remove[OF ok cl N(1)]], clarify)
    fix n f e cen1 xs
    assume l: "length xs \<le> ?N" and r: "sll (objs cen1) f xs" "xs \<noteq> [] \<longrightarrow> e = last xs" "set xs \<inter> ?W cl = {}"
      "ok (?W(cl := ?W cl \<union> set xs)) cen1" "\<forall>d. \<forall>x\<in>?W d. objs cen1 x = objs cen x"
    show "outcome (bindR (if 1 \<le> length xs then
              bindR (SLL_Next f (objs cen1)) (\<lambda>second. bindR (FreeList_PushRange (length xs - 1) second e ?l (objs cen1)) (\<lambda>(l, m).
                Inr (c\<lparr>tsize := tsize c + int (class_to_size sm cl * (length xs - 1))\<rparr>, l, cen1\<lparr>objs := m\<rparr>)))
            else Inr (c, ?l, cen1)) (\<lambda>(c, l, cen). bindR (grow_max_length ?b l) (\<lambda>l. Inr (f, put_list cl l c, cen))))
        (\<lambda>(x, c', cen'). served 8192 V cl c cen x c' cen')"
    proof (cases xs)
      case Nil
      have "own (F(cl := [])) V c cen1"
        by (rule own_upd[OF o cl, where l = ?l]) (use Nil o e r f(1) in \<open>auto simp: own_def fl_ok_def fun_upd_idem\<close>)
      then have "own F (given V cl 0) (put_list cl ?l c) cen1" using e by (simp add: given_def put_list_def fun_upd_idem)
      from fin[OF this sh] show ?thesis using Nil r(1,5) by (auto simp: others_def)
    next
      case (Cons x ys)
      have "length ys < 2 ^ 32" "f = x" "x \<noteq> 0" using l N(2) Cons r(1) by auto
      obtain l' m where p: "FreeList_PushRange (length ys) (objs cen1 x) e ?l (objs cen1) = Inr (l', m)"
        "own (F(cl := ys)) (given V cl x) (put_list cl l' (c\<lparr>tsize := tsize c + int (class_to_size sm cl * length ys)\<rparr>)) (cen1\<lparr>objs := m\<rparr>)"
        "others V cen (cen1\<lparr>objs := m\<rparr>)"
        by (rule Fetch_some[OF o cl e, of cen1 x ys e]) (use r Cons \<open>f = x\<close> \<open>length ys < 2 ^ 32\<close> in auto)
      have "short 8192 (F(cl := ys))" using sh l N(2) Cons by (auto simp: short_def)
      from fin[OF p(2) this p(3)] show ?thesis using p(1) Cons \<open>f = x\<close> \<open>x \<noteq> 0\<close> r(3) by (simp add: SLL_Next_def same_cache_def)
    qed
  qed
qed


lemma pop_own:
  assumes o: "own F V c cen" and cl: "0 < cl" "cl < kNumClasses" and e: "F cl = x # xs" and sh: "short K F"
  shows "\<exists>l. FreeList_Pop (tlist c cl) (objs cen) = Inr (x, l, objs cen) \<and>
    served K V cl c cen x (put_list cl l (c\<lparr>tsize := tsize c - int (class_to_size sm cl)\<rparr>)) cen"
proof -
  note f = ownD[OF o cl(2)]
  have len: "length xs < 2 ^ 32 - 1" using sh e unfolding short_def by (metis le_less_trans length_Cons less_diff_conv Suc_eq_plus1)
  obtain l where l: "FreeList_Pop (tlist c cl) (objs cen) = Inr (x, l, objs cen)" "fl_ok (objs cen) l xs"
    using Pop_ok[of "objs cen" "tlist c cl" x xs] f(1) e len by auto
  have "sll (objs cen) (fhead (tlist c cl)) (x # xs)" using f(1) e by (simp add: fl_ok_def)
  then have x: "x \<noteq> 0" "distinct (x # xs)" using sll_distinct by (simp, blast)
  have V: "V d \<inter> set (F d) = {}" for d using o by (simp add: own_def)
  have W: "(\<lambda>d. V d \<union> set (F d)) = (\<lambda>d. given V cl x d \<union> set ((F(cl := xs)) d))" using x(1) e by (intro ext) (auto simp: given_def)
  have ok: "ok (\<lambda>d. given V cl x d \<union> set ((F(cl := xs)) d)) cen" using o unfolding own_def W by blast
  have "own (F(cl := xs)) (given V cl x) (put_list cl l (c\<lparr>tsize := tsize c - int (class_to_size sm cl)\<rparr>)) cen"
  proof (rule own_upd[OF o cl l(2) _ ok])
    show "given V cl x d \<inter> set ((F(cl := xs)) d) = {}" for d using V[of d] x e by (cases "d = cl") (auto simp: given_def)
  qed (use e in \<open>simp_all add: put_list_def algebra_simps\<close>)
  moreover have "short K (F(cl := xs))" using sh e unfolding short_def by (metis Suc_leD fun_upd_apply length_Cons)
  moreover have "x \<notin> V cl" using V[of cl] e by auto
  ultimately show ?thesis using l(1) by (auto simp: served_def same_cache_def put_list_def)
qed

lemma push_own:
  assumes o: "own F V c cen" and x: "x \<in> V cl" and sh: "short 8192 F"
  shows "\<exists>l m. FreeList_Push x (tlist c cl) (objs cen) = Inr (l, m) \<and> max_length l = max_length (tlist c cl) \<and> flength l = length (F cl) + 1 \<and>
    own (F(cl := x # F cl)) (V(cl := V cl - {x})) (put_list cl l (c\<lparr>tsize := tsize c + int (class_to_size sm cl)\<rparr>)) (cen\<lparr>objs := m\<rparr>) \<and>
    others (V(cl := V cl - {x})) cen (cen\<lparr>objs := m\<rparr>)"
proof -
  have ok: "ok (\<lambda>d. V d \<union> set (F d)) cen" and V: "V d \<inter> set (F d) = {}" for d using o by (simp_all add: own_def)
  have cl: "0 < cl" "cl < kNumClasses" "x \<noteq> 0" using held_class[OF ok, of x cl] x by auto
  note f = ownD[OF o cl(2)]
  have nx: "x \<notin> set (F d)" for d
  proof
    assume d: "x \<in> set (F d)"
    then have "d = cl" using held_once[OF ok, of x d cl] x by blast
    then show False using d x V[of cl] by auto
  qed
  let ?m = "(objs cen)(x := fhead (tlist c cl))" and ?l = "tlist c cl\<lparr>fhead := x, flength := length (F cl) + 1\<rparr>"
  have "length (F cl) \<le> 8192" using sh unfolding short_def by blast
  then have p: "FreeList_Push x (tlist c cl) (objs cen) = Inr (?l, ?m) \<and> fl_ok ?m ?l (x # F cl)" by (intro Push_ok[OF f(1) cl(3) nx]) simp
  let ?V = "V(cl := V cl - {x})"
  have W: "(\<lambda>d. V d \<union> set (F d)) = (\<lambda>d. ?V d \<union> set ((F(cl := x # F cl)) d))" using x by (intro ext) auto
  have "ok (\<lambda>d. V d \<union> set (F d)) (cen\<lparr>objs := ?m\<rparr>)" by (rule write_held[OF ok]) (use x in \<open>auto dest: spec[of _ cl]\<close>)
  then have ok': "ok (\<lambda>d. ?V d \<union> set ((F(cl := x # F cl)) d)) (cen\<lparr>objs := ?m\<rparr>)" unfolding W .
  have l': "fl_ok (objs (cen\<lparr>objs := ?m\<rparr>)) ?l (x # F cl)" using p by simp
  have once: "x \<notin> V d" if "d \<noteq> cl" for d using held_once[OF ok, of x d cl] x that by blast
  have "own (F(cl := x # F cl)) ?V (put_list cl ?l (c\<lparr>tsize := tsize c + int (class_to_size sm cl)\<rparr>)) (cen\<lparr>objs := ?m\<rparr>)"
  proof (rule own_upd[OF o cl(1,2) l' _ ok'])
    show "?V d \<inter> set ((F(cl := x # F cl)) d) = {}" for d using V[of d] by (cases "d = cl") auto
    show "objs (cen\<lparr>objs := ?m\<rparr>) y = objs cen y" if "d \<noteq> cl" "y \<in> set (F d)" for d y using nx[of d] that by auto
  qed (simp_all add: put_list_def algebra_simps)
  moreover have "others ?V cen (cen\<lparr>objs := ?m\<rparr>)" using once by (auto simp: others_def split: if_splits)
  ultimately show ?thesis using p by auto
qed

text \<open>The first half of \<^verbatim>\<open>Deallocate\<close>: the push, and the release of a list that got too long.\<close>

lemma dealloc_own:
  assumes o: "own F V c cen" and x: "x \<in> V cl" and sh: "short 8192 F"
  obtains l m c' cen' G where "FreeList_Push x (tlist c cl) (objs cen) = Inr (l, m)"
    and "(if int (max_length l) - int (flength l) < 0
      then ListTooLong ce cl (put_list cl l (c\<lparr>tsize := tsize c + int (class_to_size sm cl)\<rparr>)) (cen\<lparr>objs := m\<rparr>)
      else Inr (put_list cl l (c\<lparr>tsize := tsize c + int (class_to_size sm cl)\<rparr>), cen\<lparr>objs := m\<rparr>)) = Inr (c', cen')"
    and "own G (V(cl := V cl - {x})) c' cen'" and "short 8192 G" and "others (V(cl := V cl - {x})) cen cen'" and "same_cache c c'"
proof -
  let ?V = "V(cl := V cl - {x})" and ?c = "\<lambda>l. put_list cl l (c\<lparr>tsize := tsize c + int (class_to_size sm cl)\<rparr>)"
  have ok: "ok (\<lambda>d. V d \<union> set (F d)) cen" using o by (simp add: own_def)
  have cl: "0 < cl" "cl < kNumClasses" using held_class[OF ok, of x cl] x by auto
  obtain l m where p: "FreeList_Push x (tlist c cl) (objs cen) = Inr (l, m)" "max_length l = max_length (tlist c cl)" "flength l = length (F cl) + 1"
    "own (F(cl := x # F cl)) ?V (?c l) (cen\<lparr>objs := m\<rparr>)" "others ?V cen (cen\<lparr>objs := m\<rparr>)" using push_own[OF o x sh] by blast
  have le: "length (F d) \<le> 8192" for d using sh unfolding short_def by blast
  show thesis
  proof (cases "int (max_length l) - int (flength l) < 0")
    case False
    have "int (max_length l) \<le> 8192" using ownD(3)[OF o cl(2)] p(2) by (simp add: kMaxDynamicFreeListLength_def)
    then have "length (x # F cl) \<le> 8192" using False p(3) by simp
    then have "short 8192 (F(cl := x # F cl))" using le by (simp add: short_def)
    then show thesis using that[OF p(1) _ p(4) _ p(5)] False by (simp add: same_cache_def put_list_def)
  next
    case True
    have 1: "(F(cl := x # F cl)) cl \<noteq> []" "short 8193 (F(cl := x # F cl))" 
      using le by (simp, simp add: short_def le_trans[of _ 8192 8193])
    obtain n c' cen' where r: "ListTooLong ce cl (?c l) (cen\<lparr>objs := m\<rparr>) = Inr (c', cen')"
      "own ((F(cl := x # F cl))(cl := drop (Suc n) ((F(cl := x # F cl)) cl))) ?V c' cen'" "others ?V (cen\<lparr>objs := m\<rparr>) cen'" "same_cache (?c l) c'"
      by (rule ListTooLong_ok[OF p(4) cl 1])
    have "length (drop (Suc n) ((F(cl := x # F cl)) cl)) \<le> 8192" using le[of cl] by simp
    then have "short 8192 ((F(cl := x # F cl))(cl := drop (Suc n) ((F(cl := x # F cl)) cl)))" using le by (simp add: short_def)
    then show thesis using that[OF p(1) _ r(2) _ others_trans[OF p(5) r(3)]] True r(1,4) by (simp add: same_cache_def put_list_def)
  qed
qed

end

subsection \<open>The central free lists are a depot\<close>

sublocale central_env < depot: object_depot ce "\<lambda>U. central_ok U B" for B
proof unfold_locales
  show "outcome (RemoveRange ce cl N cen) (\<lambda>(n, f, e, cen'). \<exists>xs. length xs = n \<and> n \<le> N \<and> sll (objs cen') f xs \<and> (xs \<noteq> [] \<longrightarrow> e = last xs) \<and>
        set xs \<inter> U cl = {} \<and> central_ok (U(cl := U cl \<union> set xs)) B cen' \<and> (\<forall>c. \<forall>x\<in>U c. objs cen' x = objs cen x))"
    if "central_ok U B cen" "0 < cl" "cl < kNumClasses" "0 < N" for U cen cl N
    by (rule outcome_mono[OF remove_law[OF that]]) (auto simp: handed_def)
  show "\<exists>cen'. InsertRange ce cl f (last xs) (length xs) cen = Inr cen' \<and> central_ok (U(cl := U cl - set xs)) B cen' \<and>
        (\<forall>c. \<forall>x\<in>(U(cl := U cl - set xs)) c. objs cen' x = objs cen x)"
    if "central_ok U B cen" "0 < cl" "cl < kNumClasses" "sll (objs cen) f xs" "xs \<noteq> []" "set xs \<subseteq> U cl" for U cen cl f xs
    by (rule insert_law[OF that])
  show "central_ok U B (cen\<lparr>objs := w\<rparr>)" if "central_ok U B cen" "\<And>x. (\<And>c. x \<notin> U c) \<Longrightarrow> w x = objs cen x" for U cen w
    by (rule write_law[OF that])
  show "0 < c \<and> c < kNumClasses \<and> x \<noteq> 0" if "central_ok U B cen" "x \<in> U c" for U cen x c
    by (rule held_object[OF that]) blast
  show "c = d" if "central_ok U B cen" "x \<in> U c" "x \<in> U d" for U cen x c d by (rule held_class[OF that])
  show "2 \<le> num_objects_to_move (c_sizes ce) c \<and> num_objects_to_move (c_sizes ce) c \<le> kMaxDynamicFreeListLength" if "0 < c" "c < kNumClasses" for c
    using sizes[OF that] by (simp add: class_ok_def kMaxDynamicFreeListLength_def)
qed

end
