(* ===== verification/Spec2Isabelle.thy ===== *)
theory Spec2Isabelle
  imports DangSan_Race CentralFreeList_Life ThreadCache_Inv
begin

text \<open>
  \<^bold>\<open>DangSan\<close> finds dangling pointers at run time: a compiler pass inserts calls that record where pointers to
  heap objects are stored, and \<^verbatim>\<open>free\<close> overwrites every recorded pointer into the freed object with a non-canonical
  address.  The repository has three layers, from the program down to the operating system:

  \<^item> the sanitizer run-time (\<^verbatim>\<open>src/staticlib/\<close>), which keeps for every heap object the logs of the locations that
    point to it, and nullifies them;
  \<^item> the metadata page table (\<^verbatim>\<open>src/metapagetable/\<close>), which maps every address of an object to its metadata;
  \<^item> the allocator (\<^verbatim>\<open>src/gperftools-metalloc/\<close>), a \<^verbatim>\<open>tcmalloc\<close> that gives every span of objects a second span
    for the metadata and enters both in the page table.

  \<^bold>\<open>Theories.\<close>

  \<^descr>[\<^verbatim>\<open>Prelude\<close>] words, byte memory, faults (\<^verbatim>\<open>Segv\<close>, \<^verbatim>\<open>Exit\<close>, \<^verbatim>\<open>Trap\<close>, \<^verbatim>\<open>Crash\<close> of the allocator's own checks, and
    \<^verbatim>\<open>Diverge\<close> for fuel that ran out) and the result monad; generic lemmas.
  \<^descr>[\<^verbatim>\<open>MetaPageTable\<close>, \<^verbatim>\<open>MetaData\<close>] \<^verbatim>\<open>metapagetable.c\<close>, \<^verbatim>\<open>metaset.c\<close>, \<^verbatim>\<open>metaget.c\<close>, \<^verbatim>\<open>metacheck.c\<close>, \<^verbatim>\<open>metadata.h\<close> and the
    allocation hooks.  A value written with \<^verbatim>\<open>metaset\<close> over an object is read with \<^verbatim>\<open>metaget\<close> at every address of the
    object and at no other object; the optimised variants agree with the reference ones.
  \<^descr>[\<^verbatim>\<open>DangSan_Log\<close>, \<^verbatim>\<open>DangSan\<close>, \<^verbatim>\<open>DangSan_Proofs\<close>, \<^verbatim>\<open>DangSan_Life\<close>, \<^verbatim>\<open>DangSan_Race\<close>] \<^verbatim>\<open>dang_san.c\<close>: the compressed ring of logged
    locations, the per-thread and grown logs, registration, nullification on \<^verbatim>\<open>free\<close>, and the retry loops of
    \<^verbatim>\<open>dsan_atomics.h\<close>.  A pointer stored after the allocation of an object and still in place when the object is freed is
    nullified; no other word changes.  \<^verbatim>\<open>DangSan_Race\<close> runs the nullification of a log while other threads write memory between
    any two of its steps: it overwrites only pointers into the freed object, and an atomic addition is never lost.
  \<^descr>[\<^verbatim>\<open>SizeMap\<close>, \<^verbatim>\<open>PackedCache\<close>, \<^verbatim>\<open>PageMap\<close>, \<^verbatim>\<open>Span\<close>] \<^verbatim>\<open>common.cc\<close>, \<^verbatim>\<open>packed-cache-inl.h\<close>, \<^verbatim>\<open>pagemap.h\<close>, \<^verbatim>\<open>span.cc\<close> and
    \<^verbatim>\<open>linked_list.h\<close>: the size classes, the lossy cache, the three radix maps and the intrusive lists, each against the map or
    sequence it implements.
  \<^descr>[\<^verbatim>\<open>SystemAlloc\<close>, \<^verbatim>\<open>PageHeapAllocator\<close>] \<^verbatim>\<open>system-alloc.cc\<close>, \<^verbatim>\<open>MetaDataAlloc\<close> of \<^verbatim>\<open>common.cc\<close> and
    \<^verbatim>\<open>page_heap_allocator.h\<close>: memory from the system is fresh and internal objects never overlap.
  \<^descr>[\<^verbatim>\<open>PageHeap\<close>, \<^verbatim>\<open>PageHeap_Inv\<close>, \<^verbatim>\<open>PageHeap_Release\<close>, \<^verbatim>\<open>PageHeap_Alloc\<close>, \<^verbatim>\<open>PageHeap_New\<close>, \<^verbatim>\<open>PageHeap_World\<close>,
    \<^verbatim>\<open>PageHeap_Life\<close>] \<^verbatim>\<open>page_heap.cc\<close>: the operations, the invariant, its preservation under the interface
    \<open>page_env\<close> of the components below, and the interpretation of that interface on their models.  Spans in use are
    disjoint, every operation returns, the counters add up.  The page map of the heap is the radix tree of \<^verbatim>\<open>PageMap\<close> itself:
    setting an entry whose node was not made faults, and the invariant has the nodes for every page of every span.
  \<^descr>[\<^verbatim>\<open>CentralFreeList\<close>, \<^verbatim>\<open>MetaSpans\<close>, \<^verbatim>\<open>CentralFreeList_Inv\<close>, \<^verbatim>\<open>CentralFreeList_Cache\<close>, \<^verbatim>\<open>CentralFreeList_Life\<close>]
    \<^verbatim>\<open>central_freelist.cc\<close>: spans cut into objects, their metadata spans and page-table entries, the transfer caches.  The
    objects handed out are disjoint from all that the clients hold, and returning objects always succeeds.
  \<^descr>[\<^verbatim>\<open>ThreadCache\<close>, \<^verbatim>\<open>ThreadCache_Inv\<close>] \<^verbatim>\<open>thread_cache.cc\<close> and \<^verbatim>\<open>thread_cache.h\<close>: the lists of a thread cache, their slow
    start and garbage collection, and the list of all caches with the budget they share.  Under the interface \<open>object_depot\<close> of the
    central free lists the objects of a cache stay disjoint from all others.
  \<^bold>\<open>Interfaces.\<close>  The locales state what one component relies on: \<open>chunk_source\<close> (a source of memory for internal
  objects), \<open>page_env\<close> and \<open>page_env_total\<close> (the system, span descriptors and page-map nodes under the page heap),
  \<open>central_env\<close> (the page heap, size classes and page table under the central free lists), and those of the page maps and the
  lists.  Each is interpreted on the models of the providers.  The operating system (\<^verbatim>\<open>sbrk\<close>, \<^verbatim>\<open>mmap\<close>, \<^verbatim>\<open>madvise\<close>) is a parameter
  with the laws of \<open>os_ok\<close>: memory it hands out is not owned yet.

  \<^bold>\<open>Data.\<close>  The sanitizer and the page table work on 64-bit words and byte memory, because masks, shifts and wrap-around
  matter there.  The allocator works on natural numbers for addresses, pages and sizes, and on integers for its counters; the 16-bit
  reference count of a span, the page counts of \<^verbatim>\<open>EnsureLimit\<close> and the sums that the code tests for overflow are kept at their width.  Lengths that the code narrows to
  \<^verbatim>\<open>int\<close> are not narrowed: this matters from \<open>2 ^ 31\<close> pages on.  Rational numbers stand for the \<^verbatim>\<open>double\<close>s of the release rate.  Metadata pointers in page-table entries
  are words; the entries of a released span are computed from the null metadata pointer.

  \<^bold>\<open>Loops and fuel.\<close>  Loops over finite data are structural recursions or have a termination proof.  Loops over heap
  structures take fuel: one more than the number of spans for the page heap, \<open>2 ^ 48\<close> for the central free lists, which is more
  than the objects of the address space, and the number of logs of an object for the run-time.  The theorems show that this fuel
  suffices: \<^verbatim>\<open>Diverge\<close> never results.

  \<^bold>\<open>Not modelled.\<close>  Locks and the interleaving of allocator operations of several threads (the operations of the run-time
  that other threads can interfere with are modelled against arbitrary interference); sampling, profiling, statistics printing,
  stack traces, malloc hooks and the debugging allocator; the LLVM passes, which work on the representation of another program;
  the Windows port.  The runs of the central free lists have no other client of the page heap, no fixed compression, and a
  transfer size of at least 8192 objects (the default is 32768).
\<close>

end
